(* ===== verification/Prelude.thy ===== *)
theory Prelude
  imports "HOL-Library.Word"
begin

text \<open>
  Shared vocabulary of the Fiberuv development.

  \<^item> \<open>err\<close>: the exceptions the library throws. \<open>RuntimeError\<close> carries the literal text given to
    \<open>std::runtime_error\<close>; \<open>UvError\<close> is the exception built by the file-local helpers \<open>uv_error\<close>,
    kept as the pair (where, libuv status) because its text is \<open>where + uv_strerror(code)\<close> and
    \<open>uv_strerror\<close> belongs to libuv; \<open>UserExn\<close> is an exception raised by a callback of the user.
  \<^item> \<open>outcome\<close>, \<open>settle\<close>: what a promise is given. The library never reads a promise: it only calls
    \<open>set_value\<close> or \<open>set_exception\<close> on it, so an operation of the model returns the list of these
    calls, in order, each with the identity of the promise.
  \<^item> \<open>reply\<close>: how an API call leaves its caller: with a value, with an exception, or suspended in
    \<open>future.get()\<close> on a promise.
  \<^item> \<open>is_loop_alive\<close>, \<open>ensure_loop_alive\<close>: the weak lifetime token of an event loop.
  \<^item> \<open>duration_to_ms\<close>: the clamping every timed API applies to a \<open>std::chrono\<close> duration.
  \<^item> the locale \<open>fiber_promise\<close>: what the library relies on of \<open>boost::fibers::promise/future\<close>.
\<close>

named_theorems fiberuv_defs \<open>operations unfolded by the component proofs\<close>

type_synonym pid = nat
type_synonym byte = "8 word"
type_synonym loop_lifetime_token = "bool option"

datatype err = RuntimeError string | UvError string int | UserExn nat

datatype 'a outcome = Value 'a | Exception err

type_synonym 'a settle = "pid \<times> 'a outcome"

datatype 'a reply = Return 'a | Throw err | Await pid

definition uv_error :: "string \<Rightarrow> int \<Rightarrow> err" where
  "uv_error loc code = UvError loc code"

text \<open>
  \<open>token.lock()\<close> yields nothing when the flag object is gone (\<open>None\<close>), otherwise the flag is read.
\<close>

fun is_loop_alive :: "loop_lifetime_token \<Rightarrow> bool" where
  "is_loop_alive None = False"
| "is_loop_alive (Some flag) = flag"

definition ensure_loop_alive :: "loop_lifetime_token \<Rightarrow> err option" where
  "ensure_loop_alive token =
     (if \<not> is_loop_alive token then Some (RuntimeError ''event loop is not alive'') else None)"

text \<open>
  \<open>duration_cast<milliseconds>\<close> of \<open>count\<close> ticks of \<open>num/den\<close> seconds truncates towards zero; the
  timed APIs then replace a negative count by zero.
\<close>

definition trunc_div :: "int \<Rightarrow> int \<Rightarrow> int" where
  "trunc_div a b = sgn a * sgn b * (\<bar>a\<bar> div \<bar>b\<bar>)"

definition duration_cast_ms :: "int \<Rightarrow> int \<Rightarrow> int \<Rightarrow> int" where
  "duration_cast_ms count num den = trunc_div (count * num * 1000) den"

definition clamp_ms :: "int \<Rightarrow> int" where
  "clamp_ms ms = (if ms < 0 then 0 else ms)"

definition duration_to_ms :: "int \<Rightarrow> int \<Rightarrow> int \<Rightarrow> int" where
  "duration_to_ms count num den = clamp_ms (duration_cast_ms count num den)"

text \<open>
  The same at the width the code has. \<open>duration_cast\<close> multiplies the count by the numerator of the reduced ratio of the
  period to a millisecond, in 64 bits, and divides by its denominator. \<open>None\<close>: the product overflows, which
  is undefined behaviour.
\<close>

definition int64_ok :: "int \<Rightarrow> bool" where
  "int64_ok x \<longleftrightarrow> - (2 ^ 63) \<le> x \<and> x < 2 ^ 63"

definition cf_num :: "int \<Rightarrow> int \<Rightarrow> int" where
  "cf_num num den = num * 1000 div gcd (num * 1000) den"

definition cf_den :: "int \<Rightarrow> int \<Rightarrow> int" where
  "cf_den num den = den div gcd (num * 1000) den"

definition duration_cast_ms64 :: "int \<Rightarrow> int \<Rightarrow> int \<Rightarrow> int option" where
  "duration_cast_ms64 count num den =
     (let product = count * cf_num num den in
      if int64_ok product then Some (trunc_div product (cf_den num den)) else None)"

definition duration_to_ms64 :: "int \<Rightarrow> int \<Rightarrow> int \<Rightarrow> int option" where
  "duration_to_ms64 count num den = map_option clamp_ms (duration_cast_ms64 count num den)"

text \<open>
  The libuv status codes the library compares with. Their values depend on the platform, so they are
  a parameter; every libuv status code is negative and the ones named here are distinct.
\<close>

record uv_codes =
  uv_eof :: int
  uv_epipe :: int
  uv_econnreset :: int
  uv_eintr :: int
  uv_eagain :: int
  uv_eexist :: int
  uv_enoent :: int

definition uv_codes_ok :: "uv_codes \<Rightarrow> bool" where
  "uv_codes_ok c \<longleftrightarrow>
     (\<forall>x \<in> set [uv_eof c, uv_epipe c, uv_econnreset c, uv_eintr c, uv_eagain c, uv_eexist c, uv_enoent c].
        x < 0) \<and>
     distinct [uv_eof c, uv_epipe c, uv_econnreset c, uv_eintr c, uv_eagain c, uv_eexist c, uv_enoent c]"

definition linux_codes :: uv_codes where
  "linux_codes = \<lparr>uv_eof = -4095, uv_epipe = -32, uv_econnreset = -104, uv_eintr = -4, uv_eagain = -11,
     uv_eexist = -17, uv_enoent = -2\<rparr>"

lemma linux_codes_ok [simp]: "uv_codes_ok linux_codes"
  by (simp add: uv_codes_ok_def linux_codes_def)

text \<open>
  \<open>invoke_on_loop\<close> (src/io_unified.cpp, src/ipc.cpp). A closure returns its result, whether it was
  suspended on the way in \<open>future.get()\<close> until a libuv callback set a promise, and the new state.

  On the loop's own thread the closure is called directly, by a fiber that \<open>spawn\<close> created, which may be
  suspended while \<open>EventLoop::run\<close> goes on. Elsewhere the closure is dispatched to the loop, its outcome
  captured in a \<open>std::promise\<close>, and the caller blocks until then. A dispatched closure is called
  by \<open>drain_loop_tasks\<close>, in the very fiber that runs the loop: if it is suspended waiting for a libuv
  callback, \<open>uv_run\<close> is never called again and the callback never comes. \<open>None\<close>: the call does not return.
\<close>

type_synonym ('s, 'a) closure = "'s \<Rightarrow> (err + 'a) \<times> bool \<times> 's"

definition capture :: "(err + 'a) \<Rightarrow> 'a outcome" where
  "capture r = (case r of Inl ex \<Rightarrow> Exception ex | Inr v \<Rightarrow> Value v)"

fun future_get :: "'a outcome \<Rightarrow> err + 'a" where
  "future_get (Value r) = Inr r"
| "future_get (Exception ex) = Inl ex"

definition invoke_on_loop :: "bool \<Rightarrow> ('s, 'a) closure \<Rightarrow> 's \<Rightarrow> ((err + 'a) \<times> 's) option" where
  "invoke_on_loop same_loop fn s =
     (let (r, suspended, s') = fn s in
      if same_loop then Some (r, s')
      else if suspended then None
      else let promise = capture r in Some (future_get promise, s'))"

lemma future_get_capture [simp]: "future_get (capture r) = r"
  by (cases r) (simp_all add: capture_def)

lemma invoke_on_loop_same [simp]: "invoke_on_loop True fn s = Some (fst (fn s), snd (snd (fn s)))"
  by (simp add: invoke_on_loop_def split: prod.splits)

lemma invoke_on_loop_foreign [simp]:
  "invoke_on_loop False fn s = (if fst (snd (fn s)) then None else Some (fst (fn s), snd (snd (fn s))))"
  by (simp add: invoke_on_loop_def split: prod.splits)

lemma clamp_ms_nonneg [simp]: "0 \<le> clamp_ms ms"
  by (simp add: clamp_ms_def)

lemma clamp_ms_idem [simp]: "clamp_ms (clamp_ms ms) = clamp_ms ms"
  by (simp add: clamp_ms_def)

lemma ensure_loop_alive_None_iff [simp]: "ensure_loop_alive token = None \<longleftrightarrow> is_loop_alive token"
  by (simp add: ensure_loop_alive_def)

text \<open>
  Programs over a state that may throw or not return (\<open>None\<close>), for code that makes many calls in sequence: return, throw,
  sequence, and \<open>try\<close> with a handler for every exception.
\<close>

type_synonym ('s, 'a) prog = "'s \<Rightarrow> ((err + 'a) \<times> 's) option"

definition preturn :: "'a \<Rightarrow> ('s, 'a) prog" where
  "preturn x w = Some (Inr x, w)"

definition pthrow :: "err \<Rightarrow> ('s, 'a) prog" where
  "pthrow ex w = Some (Inl ex, w)"

definition pseq :: "('s, 'a) prog \<Rightarrow> ('a \<Rightarrow> ('s, 'b) prog) \<Rightarrow> ('s, 'b) prog" where
  "pseq m k w = Option.bind (m w) (\<lambda>(r, w1). case r of Inl ex \<Rightarrow> Some (Inl ex, w1) | Inr x \<Rightarrow> k x w1)"

definition pcatch :: "('s, 'a) prog \<Rightarrow> (err \<Rightarrow> ('s, 'a) prog) \<Rightarrow> ('s, 'a) prog" where
  "pcatch m handler w = Option.bind (m w) (\<lambda>(r, w1). case r of Inl ex \<Rightarrow> handler ex w1 | Inr x \<Rightarrow> Some (Inr x, w1))"

text \<open>Programs that keep the part \<open>f\<close> of the state, whenever they return.\<close>

definition preserves :: "('s \<Rightarrow> 'k) \<Rightarrow> ('s, 'a) prog \<Rightarrow> bool" where
  "preserves f m \<longleftrightarrow> (\<forall>s r s'. m s = Some (r, s') \<longrightarrow> f s' = f s)"

lemma preservesD: "preserves f m \<Longrightarrow> m s = Some (r, s') \<Longrightarrow> f s' = f s"
  unfolding preserves_def by blast

lemma preserves_basic [intro]: "preserves f (preturn x)" "preserves f (pthrow ex)"
  by (simp_all add: preserves_def preturn_def pthrow_def)

lemma preserves_pseq [intro]:
  assumes "preserves f m" "\<And>x. preserves f (k x)"
  shows "preserves f (pseq m k)"
  unfolding preserves_def
proof (intro allI impI)
  fix s r s' assume "pseq m k s = Some (r, s')"
  then obtain r1 s1 where "m s = Some (r1, s1)" "(case r1 of Inl ex \<Rightarrow> Some (Inl ex, s1) | Inr x \<Rightarrow> k x s1) = Some (r, s')"
    by (auto simp: pseq_def bind_eq_Some_conv)
  then show "f s' = f s" using preservesD [OF assms(1)] preservesD [OF assms(2)] by (cases r1) fastforce+
qed

lemma preserves_pcatch [intro]:
  assumes "preserves f m" "\<And>ex. preserves f (handler ex)"
  shows "preserves f (pcatch m handler)"
  unfolding preserves_def
proof (intro allI impI)
  fix s r s' assume "pcatch m handler s = Some (r, s')"
  then obtain r1 s1 where "m s = Some (r1, s1)" "(case r1 of Inl ex \<Rightarrow> handler ex s1 | Inr x \<Rightarrow> Some (Inr x, s1)) = Some (r, s')"
    by (auto simp: pcatch_def bind_eq_Some_conv)
  then show "f s' = f s" using preservesD [OF assms(1)] preservesD [OF assms(2)] by (cases r1) fastforce+
qed

text \<open>A handler that does not throw stops every exception.\<close>

lemma pcatch_no_throw:
  assumes "pcatch m handler s = Some (r, s')" "\<And>ex s q s'. handler ex s = Some (q, s') \<Longrightarrow> \<not> isl q"
  shows "\<not> isl r"
proof -
  obtain r1 s1 where "m s = Some (r1, s1)" "(case r1 of Inl ex \<Rightarrow> handler ex s1 | Inr x \<Rightarrow> Some (Inr x, s1)) = Some (r, s')"
    using assms(1) by (auto simp: pcatch_def bind_eq_Some_conv)
  then show ?thesis using assms(2) by (cases r1) auto
qed

text \<open>
  What the library relies on of \<open>boost::fibers::promise\<close> and \<open>future\<close>, stated over the log of the
  \<open>set_value\<close> calls made so far: the future of a promise that was never set is not ready, and the
  future of a promise that was set once is ready with that value. A promise set twice throws
  \<open>promise_already_satisfied\<close>; the laws say nothing of that case.
\<close>

locale fiber_promise =
  fixes peek :: "(pid \<times> 'v) list \<Rightarrow> pid \<Rightarrow> 'v option"
  assumes peek_unset: "p \<notin> fst ` set log \<Longrightarrow> peek log p = None"
    and peek_set: "distinct (map fst log) \<Longrightarrow> (p, v) \<in> set log \<Longrightarrow> peek log p = Some v"
begin

lemma peek_Some_iff:
  "distinct (map fst log) \<Longrightarrow> peek log p = Some v \<longleftrightarrow> (p, v) \<in> set log"
  using peek_set [of log p] peek_unset [of p log] by (cases "p \<in> fst ` set log") auto

lemma peek_None_iff:
  "distinct (map fst log) \<Longrightarrow> peek log p = None \<longleftrightarrow> p \<notin> fst ` set log"
  using peek_set [of log p] peek_unset [of p log] by (cases "p \<in> fst ` set log") auto

end

text \<open>The behaviour documented for a one-shot promise is the lookup of its first setting.\<close>

interpretation first_set: fiber_promise "map_of :: (pid \<times> 'v) list \<Rightarrow> pid \<Rightarrow> 'v option"
  by unfold_locales (auto simp: map_of_eq_None_iff)

lemma trunc_div_nonneg: "0 \<le> a \<Longrightarrow> 0 < b \<Longrightarrow> trunc_div a b = a div b"
  by (cases "a = 0") (simp_all add: trunc_div_def)

lemma trunc_div_nonpos: "a \<le> 0 \<Longrightarrow> 0 < b \<Longrightarrow> trunc_div a b \<le> 0"
  by (cases "a = 0") (simp_all add: trunc_div_def pos_imp_zdiv_nonneg_iff)

lemma trunc_div_cancel: "0 < g \<Longrightarrow> trunc_div (a * g) (b * g) = trunc_div a b"
  by (simp add: trunc_div_def sgn_mult abs_mult)

text \<open>Where the product does not overflow, reducing the ratio first changes nothing.\<close>

lemma duration_cast_ms64_exact:
  assumes "0 < num" "0 < den" "duration_cast_ms64 count num den = Some ms"
  shows "ms = duration_cast_ms count num den"
proof -
  let ?g = "gcd (num * 1000) den"
  have g: "0 < ?g" using assms(2) by (simp add: gcd_pos_int)
  have n: "cf_num num den * ?g = num * 1000" and d: "cf_den num den * ?g = den" by (simp_all add: cf_num_def cf_den_def)
  have "ms = trunc_div (count * cf_num num den) (cf_den num den)"
    using assms(3) by (simp add: duration_cast_ms64_def Let_def split: if_splits)
  also have "\<dots> = trunc_div (count * cf_num num den * ?g) (cf_den num den * ?g)" using trunc_div_cancel [OF g] by simp
  also have "\<dots> = trunc_div (count * num * 1000) den" using n d by (simp add: mult.assoc)
  finally show ?thesis by (simp add: duration_cast_ms_def)
qed

text \<open>The mathematical conversion.\<close>

lemma duration_to_ms_bounds:
  assumes "0 < num" "0 < den"
  shows "0 \<le> duration_to_ms count num den \<and> (count \<le> 0 \<longrightarrow> duration_to_ms count num den = 0) \<and>
    (0 \<le> count \<longrightarrow> duration_to_ms count num den * den \<le> count * num * 1000 \<and>
      count * num * 1000 < (duration_to_ms count num den + 1) * den)"
proof (intro conjI impI)
  show "0 \<le> duration_to_ms count num den" by (simp add: duration_to_ms_def)
next
  assume "count \<le> 0"
  then have "count * num * 1000 \<le> 0" using assms by (simp add: mult_nonpos_nonneg)
  from trunc_div_nonpos [OF this assms(2)] show "duration_to_ms count num den = 0"
    by (simp add: duration_to_ms_def duration_cast_ms_def clamp_ms_def)
next
  let ?x = "count * num * 1000"
  assume "0 \<le> count"
  then have nonneg: "0 \<le> ?x" using assms by simp
  have ms: "duration_to_ms count num den = ?x div den"
    using trunc_div_nonneg [OF nonneg assms(2)] pos_imp_zdiv_nonneg_iff [OF assms(2), of ?x] nonneg
    by (simp add: duration_to_ms_def duration_cast_ms_def clamp_ms_def)
  have split: "?x div den * den + ?x mod den = ?x" by (rule div_mult_mod_eq)
  show "duration_to_ms count num den * den \<le> ?x"
    unfolding ms using split pos_mod_sign [OF assms(2), of ?x] by linarith
  show "?x < (duration_to_ms count num den + 1) * den"
    unfolding ms distrib_right using split pos_mod_bound [OF assms(2), of ?x] by linarith
qed

text \<open>
  C40. The time-out every timed API uses is the given duration in whole milliseconds, rounded down, and
  zero for a negative duration; it is never longer than what was asked for and less than a millisecond
  shorter. A duration counted in units of a millisecond or a power of ten below is converted whatever its count; one
  in seconds overflows exactly when its count exceeds 9223372036854775 in absolute value.
\<close>

theorem timeout_ms_bounds:
  assumes "0 < num" "0 < den" "int64_ok count"
  shows "(\<forall>ms. duration_to_ms64 count num den = Some ms \<longrightarrow>
      ms = duration_to_ms count num den \<and> 0 \<le> ms \<and> (count \<le> 0 \<longrightarrow> ms = 0) \<and>
      (0 \<le> count \<longrightarrow> ms * den \<le> count * num * 1000 \<and> count * num * 1000 < (ms + 1) * den)) \<and>
    (num = 1 \<and> (\<exists>k. den = 1000 * 10 ^ k) \<longrightarrow> duration_to_ms64 count num den \<noteq> None) \<and>
    (duration_to_ms64 count 1 1 = None \<longleftrightarrow> 9223372036854775 < \<bar>count\<bar>)"
proof (intro conjI impI allI)
  fix ms assume "duration_to_ms64 count num den = Some ms"
  then have ms: "ms = duration_to_ms count num den"
    using duration_cast_ms64_exact [OF assms(1,2)] by (auto simp: duration_to_ms64_def duration_to_ms_def)
  show "ms = duration_to_ms count num den" by (rule ms)
  note b = duration_to_ms_bounds [OF assms(1,2), of count, folded ms]
  show "0 \<le> ms" using b by blast
  show "ms = 0" if "count \<le> 0" using b that by blast
  show "ms * den \<le> count * num * 1000" if "0 \<le> count" using b that by blast
  show "count * num * 1000 < (ms + 1) * den" if "0 \<le> count" using b that by blast
next
  assume "num = 1 \<and> (\<exists>k. den = 1000 * 10 ^ k)"
  then obtain k where k: "num = 1" "den = 1000 * 10 ^ k" by blast
  have "gcd (1000 :: int) (1000 * 10 ^ k) = 1000" by (rule gcd_proj1_if_dvd [THEN trans]) simp_all
  then have "cf_num num den = 1" using k by (simp add: cf_num_def)
  then show "duration_to_ms64 count num den \<noteq> None"
    using assms(3) by (simp add: duration_to_ms64_def duration_cast_ms64_def)
qed (auto simp: duration_to_ms64_def duration_cast_ms64_def cf_num_def int64_ok_def)

theorem timeout_ms_bounds_witness:
  "duration_to_ms64 2500 1 1000000 = Some 2 \<and> 2 * 1000000 \<le> (2500 * 1 * 1000 :: int) \<and> duration_to_ms64 9223372036854776 1 1 = None"
proof -
  have g: "gcd (1000 :: int) 1000000 = 1000" by (simp add: gcd_proj1_if_dvd)
  have "duration_to_ms64 2500 1 1000000 = Some 2"
    by (simp add: duration_to_ms64_def duration_cast_ms64_def cf_num_def cf_den_def g int64_ok_def trunc_div_def clamp_ms_def)
  then show ?thesis
    using timeout_ms_bounds [of 1 1000000 2500] timeout_ms_bounds [of 1 1 9223372036854776] by (simp add: int64_ok_def)
qed

end
