(* ===== verification/Handoff.thy ===== *)
theory Handoff
  imports Prelude "HOL-Library.Multiset"
begin

text \<open>
  The hand-off contract. Four components of the library pair a buffer of values with a list of
  suspended receivers: \<open>MessageQueue\<close> (\<open>queue_\<close> and \<open>fiber_waiters_\<close>), \<open>TcpServer\<close>
  (\<open>accepted_connections\<close> and \<open>accept_waiters\<close>), a TCP connection (\<open>buffered_reads\<close> and
  \<open>pending_read\<close>) and a UDP socket (\<open>buffered_packets\<close> and \<open>pending_recv\<close>). Each has an operation
  that brings a value in (\<open>put\<close>), one that asks for a value on behalf of a promise (\<open>get\<close>), and one
  by which a timed receiver withdraws (\<open>cancel\<close>).

  The locale states what each of these operations does to the buffer and to the receivers; its
  lemmas are the facts clients care about, proved once for any sequence of operations: values leave
  in the order they came in, nothing is lost or duplicated, receivers are served in the order
  they asked, and a withdrawal costs no value.
\<close>

datatype 'v handoff_op = Put 'v | Get pid | Cancel pid

definition handoff_step ::
  "('v \<Rightarrow> 's \<Rightarrow> 's \<times> (pid \<times> 'v) list) \<Rightarrow> (pid \<Rightarrow> 's \<Rightarrow> 's \<times> 'v option) \<Rightarrow>
   (pid \<Rightarrow> 's \<Rightarrow> 's \<times> bool) \<Rightarrow> 'v handoff_op \<Rightarrow> 's \<Rightarrow> 's \<times> (pid \<times> 'v) list \<times> pid list" where
  "handoff_step put get cancel a s =
     (case a of
        Put v \<Rightarrow> (let (s', ds) = put v s in (s', ds, []))
      | Get p \<Rightarrow> (let (s', r) = get p s in (s', (case r of None \<Rightarrow> [] | Some v \<Rightarrow> [(p, v)]), []))
      | Cancel p \<Rightarrow> (let (s', found) = cancel p s in (s', [], if found then [p] else [])))"

text \<open>
  A run returns the final state, the log of served receivers (who got what, in order) and the
  receivers that withdrew.
\<close>

fun handoff_run ::
  "('v \<Rightarrow> 's \<Rightarrow> 's \<times> (pid \<times> 'v) list) \<Rightarrow> (pid \<Rightarrow> 's \<Rightarrow> 's \<times> 'v option) \<Rightarrow>
   (pid \<Rightarrow> 's \<Rightarrow> 's \<times> bool) \<Rightarrow> 'v handoff_op list \<Rightarrow> 's \<Rightarrow> 's \<times> (pid \<times> 'v) list \<times> pid list" where
  "handoff_run put get cancel [] s = (s, [], [])"
| "handoff_run put get cancel (a # ops) s =
     (let (s', l, g) = handoff_step put get cancel a s;
          (t, log, gone) = handoff_run put get cancel ops s'
      in (t, l @ log, g @ gone))"

text \<open>The operations a client may issue: their guards hold at every step of the run.\<close>

fun handoff_enabled :: "('s \<Rightarrow> bool) \<Rightarrow> ('s \<Rightarrow> bool) \<Rightarrow> 'v handoff_op \<Rightarrow> 's \<Rightarrow> bool" where
  "handoff_enabled pg gg (Put v) s = pg s"
| "handoff_enabled pg gg (Get p) s = gg s"
| "handoff_enabled pg gg (Cancel p) s = True"

fun handoff_ok ::
  "('s \<Rightarrow> bool) \<Rightarrow> ('s \<Rightarrow> bool) \<Rightarrow> ('v \<Rightarrow> 's \<Rightarrow> 's \<times> (pid \<times> 'v) list) \<Rightarrow>
   (pid \<Rightarrow> 's \<Rightarrow> 's \<times> 'v option) \<Rightarrow> (pid \<Rightarrow> 's \<Rightarrow> 's \<times> bool) \<Rightarrow> 'v handoff_op list \<Rightarrow> 's \<Rightarrow> bool" where
  "handoff_ok pg gg put get cancel [] s = True"
| "handoff_ok pg gg put get cancel (a # ops) s =
     (handoff_enabled pg gg a s \<and>
      handoff_ok pg gg put get cancel ops (fst (handoff_step put get cancel a s)))"

fun puts :: "'v handoff_op list \<Rightarrow> 'v list" where
  "puts [] = []"
| "puts (Put v # ops) = v # puts ops"
| "puts (Get p # ops) = puts ops"
| "puts (Cancel p # ops) = puts ops"

fun gets :: "'v handoff_op list \<Rightarrow> pid list" where
  "gets [] = []"
| "gets (Put v # ops) = gets ops"
| "gets (Get p # ops) = p # gets ops"
| "gets (Cancel p # ops) = gets ops"

fun cancels :: "'v handoff_op list \<Rightarrow> pid list" where
  "cancels [] = []"
| "cancels (Put v # ops) = cancels ops"
| "cancels (Get p # ops) = cancels ops"
| "cancels (Cancel p # ops) = p # cancels ops"

lemma puts_Cons: "puts (a # ops) = puts [a] @ puts ops"
  by (cases a) simp_all

lemma gets_Cons: "gets (a # ops) = gets [a] @ gets ops"
  by (cases a) simp_all

lemma cancels_Cons: "cancels (a # ops) = cancels [a] @ cancels ops"
  by (cases a) simp_all

lemma handoff_run_ConsE:
  assumes "handoff_run put get cancel (a # ops) s = (t, log, gone)"
  obtains s' l log' g gone' where "handoff_step put get cancel a s = (s', l, g)"
    "log = l @ log'" "gone = g @ gone'" "handoff_run put get cancel ops s' = (t, log', gone')"
  using assms by (auto split: prod.splits)

locale handoff =
  fixes inv :: "'s \<Rightarrow> bool"
    and buf :: "'s \<Rightarrow> 'v list"
    and waiters :: "'s \<Rightarrow> pid list"
    and put_guard :: "'s \<Rightarrow> bool"
    and get_guard :: "'s \<Rightarrow> bool"
    and put :: "'v \<Rightarrow> 's \<Rightarrow> 's \<times> (pid \<times> 'v) list"
    and get :: "pid \<Rightarrow> 's \<Rightarrow> 's \<times> 'v option"
    and cancel :: "pid \<Rightarrow> 's \<Rightarrow> 's \<times> bool"
  assumes exclusive: "inv s \<Longrightarrow> buf s = [] \<or> waiters s = []"
    and put_inv: "inv s \<Longrightarrow> put_guard s \<Longrightarrow> inv (fst (put v s))"
    and get_inv: "inv s \<Longrightarrow> get_guard s \<Longrightarrow> inv (fst (get p s))"
    and cancel_inv: "inv s \<Longrightarrow> inv (fst (cancel p s))"
    and put_buffers: "inv s \<Longrightarrow> put_guard s \<Longrightarrow> waiters s = [] \<Longrightarrow>
          buf (fst (put v s)) = buf s @ [v] \<and> waiters (fst (put v s)) = [] \<and> snd (put v s) = []"
    and put_serves: "inv s \<Longrightarrow> put_guard s \<Longrightarrow> waiters s = w # ws \<Longrightarrow>
          buf (fst (put v s)) = buf s \<and> waiters (fst (put v s)) = ws \<and> snd (put v s) = [(w, v)]"
    and get_takes: "inv s \<Longrightarrow> get_guard s \<Longrightarrow> buf s = x # xs \<Longrightarrow>
          buf (fst (get p s)) = xs \<and> waiters (fst (get p s)) = waiters s \<and> snd (get p s) = Some x"
    and get_waits: "inv s \<Longrightarrow> get_guard s \<Longrightarrow> buf s = [] \<Longrightarrow>
          buf (fst (get p s)) = [] \<and> waiters (fst (get p s)) = waiters s @ [p] \<and> snd (get p s) = None"
    and cancel_buf: "inv s \<Longrightarrow> buf (fst (cancel p s)) = buf s"
    and cancel_waiters: "inv s \<Longrightarrow> waiters (fst (cancel p s)) = remove1 p (waiters s)"
    and cancel_found: "inv s \<Longrightarrow> snd (cancel p s) \<longleftrightarrow> p \<in> set (waiters s)"
begin

lemma put_step:
  assumes "inv s" "put_guard s" "put v s = (s', ds)"
  shows "inv s'" "buf s @ [v] = map snd ds @ buf s'" "waiters s = map fst ds @ waiters s'"
  using assms put_inv [of s v] put_buffers [of s v] put_serves [of s _ _ v] exclusive [of s]
  by (cases "waiters s"; simp)+

lemma get_step:
  assumes "inv s" "get_guard s" "get p s = (s', r)"
  shows "inv s'" "buf s = (case r of None \<Rightarrow> [] | Some v \<Rightarrow> [v]) @ buf s'"
    and "waiters s @ [p] = (case r of None \<Rightarrow> [] | Some v \<Rightarrow> [p]) @ waiters s'"
  using assms get_inv [of s p] get_takes [of s _ _ p] get_waits [of s p] exclusive [of s]
  by (cases "buf s"; simp)+

lemma cancel_step:
  assumes "inv s" "cancel p s = (s', found)"
  shows "inv s'" "buf s' = buf s"
    and "mset (waiters s) = mset (if found then [p] else []) + mset (waiters s')"
  using assms cancel_inv [of s p] cancel_buf [of s p] cancel_waiters [of s p] cancel_found [of s p]
  by (simp_all add: remove1_idem)

lemma op_step:
  assumes "inv s" "handoff_enabled put_guard get_guard a s"
    and "handoff_step put get cancel a s = (s', l, g)"
  shows "inv s'" "buf s @ puts [a] = map snd l @ buf s'"
    and "mset (waiters s) + mset (gets [a]) = mset (map fst l) + mset g + mset (waiters s')"
    and "cancels [a] = [] \<Longrightarrow> waiters s @ gets [a] = map fst l @ waiters s'"
proof -
  have "inv s' \<and> buf s @ puts [a] = map snd l @ buf s' \<and>
    mset (waiters s) + mset (gets [a]) = mset (map fst l) + mset g + mset (waiters s') \<and>
    (cancels [a] = [] \<longrightarrow> waiters s @ gets [a] = map fst l @ waiters s')"
  proof (cases a)
    case (Put v)
    then have pv: "put v s = (s', l)" "g = []" and pg: "put_guard s"
      using assms(2,3) by (auto simp: handoff_step_def split: prod.splits)
    show ?thesis using put_step [OF assms(1) pg pv(1)] Put pv(2) by simp
  next
    case (Get p)
    then obtain r where pv: "get p s = (s', r)" "l = (case r of None \<Rightarrow> [] | Some v \<Rightarrow> [(p, v)])"
        "g = []" and gg: "get_guard s"
      using assms(2,3) by (auto simp: handoff_step_def split: prod.splits)
    note st = get_step [OF assms(1) gg pv(1)]
    have "add_mset p (mset (waiters s)) = mset (waiters s @ [p])" by simp
    then show ?thesis using st Get pv(2,3) by (cases r) simp_all
  next
    case (Cancel p)
    then obtain f where pv: "cancel p s = (s', f)" "l = []" "g = (if f then [p] else [])"
      using assms(3) by (auto simp: handoff_step_def split: prod.splits)
    show ?thesis using cancel_step [OF assms(1) pv(1)] Cancel pv(2,3) by simp
  qed
  then show "inv s'" "buf s @ puts [a] = map snd l @ buf s'"
    and "mset (waiters s) + mset (gets [a]) = mset (map fst l) + mset g + mset (waiters s')"
    and "cancels [a] = [] \<Longrightarrow> waiters s @ gets [a] = map fst l @ waiters s'" by blast+
qed

lemma run_inv:
  assumes "inv s" "handoff_ok put_guard get_guard put get cancel ops s"
    and "handoff_run put get cancel ops s = (t, log, gone)"
  shows "inv t"
  using assms
proof (induction ops arbitrary: s log gone)
  case (Cons a ops)
  from Cons.prems(3) show ?case
    by (rule handoff_run_ConsE) (use Cons.prems Cons.IH op_step(1) in fastforce)
qed simp

lemma run_values:
  assumes "inv s" "handoff_ok put_guard get_guard put get cancel ops s"
    and "handoff_run put get cancel ops s = (t, log, gone)"
  shows "buf s @ puts ops = map snd log @ buf t"
  using assms
proof (induction ops arbitrary: s log gone)
  case (Cons a ops)
  from Cons.prems(3) obtain s' l log' g gone'
    where st: "handoff_step put get cancel a s = (s', l, g)" and lg: "log = l @ log'"
      and run: "handoff_run put get cancel ops s' = (t, log', gone')"
    by (rule handoff_run_ConsE)
  note op = op_step [OF Cons.prems(1) _ st]
  have "buf s' @ puts ops = map snd log' @ buf t"
    using Cons.IH [OF _ _ run] Cons.prems(2) op(1) st by simp
  then have "(buf s @ puts [a]) @ puts ops = map snd log @ buf t"
    using op(2) Cons.prems(2) lg by simp
  then show ?case using puts_Cons [of a ops] by simp
qed simp

lemma run_receivers:
  assumes "inv s" "handoff_ok put_guard get_guard put get cancel ops s"
    and "handoff_run put get cancel ops s = (t, log, gone)"
  shows "mset (waiters s) + mset (gets ops) = mset (map fst log) + mset gone + mset (waiters t)"
  using assms
proof (induction ops arbitrary: s log gone)
  case (Cons a ops)
  from Cons.prems(3) obtain s' l log' g gone'
    where st: "handoff_step put get cancel a s = (s', l, g)" and lg: "log = l @ log'" "gone = g @ gone'"
      and run: "handoff_run put get cancel ops s' = (t, log', gone')"
    by (rule handoff_run_ConsE)
  note op = op_step [OF Cons.prems(1) _ st]
  have "mset (waiters s') + mset (gets ops) = mset (map fst log') + mset gone' + mset (waiters t)"
    using Cons.IH [OF _ _ run] Cons.prems(2) op(1) st by simp
  moreover have "mset (waiters s) + mset (gets [a]) = mset (map fst l) + mset g + mset (waiters s')"
    using op(3) Cons.prems(2) by simp
  ultimately show ?case
    unfolding gets_Cons [of a ops] lg by (simp add: ac_simps)
qed simp

lemma run_receivers_fifo:
  assumes "inv s" "handoff_ok put_guard get_guard put get cancel ops s" "cancels ops = []"
    and "handoff_run put get cancel ops s = (t, log, gone)"
  shows "waiters s @ gets ops = map fst log @ waiters t"
  using assms
proof (induction ops arbitrary: s log gone)
  case (Cons a ops)
  from Cons.prems(4) obtain s' l log' g gone'
    where st: "handoff_step put get cancel a s = (s', l, g)" and lg: "log = l @ log'"
      and run: "handoff_run put get cancel ops s' = (t, log', gone')"
    by (rule handoff_run_ConsE)
  have nc: "cancels [a] = []" "cancels ops = []"
    using Cons.prems(3) cancels_Cons [of a ops] by simp_all
  note op = op_step [OF Cons.prems(1) _ st]
  have "waiters s' @ gets ops = map fst log' @ waiters t"
    using Cons.IH [OF _ _ nc(2) run] Cons.prems(2) op(1) st by simp
  then have "(waiters s @ gets [a]) @ gets ops = map fst log @ waiters t"
    using op(4) [OF _ nc(1)] Cons.prems(2) lg by simp
  then show ?case using gets_Cons [of a ops] by simp
qed simp

end

end
