(* ===== verification/Message_Queue.thy ===== *)
theory Message_Queue
  imports Handoff
begin

text \<open>
  \<open>MessageQueue<T>\<close> (include/fiberuv/fiberuv.hpp). The record holds the fields guarded by \<open>mutex_\<close>;
  \<open>fiber_waiters_\<close> is the list of the promises of suspended fibers. Each critical section of the
  class is one definition (the body of a \<open>lock_guard\<close> block), and each public operation is composed
  of them. Promises set after the lock is released are returned as a list of settings.

  The operations that do not suspend halfway (\<open>send\<close>, \<open>try_recv\<close>, \<open>close\<close>) are whole definitions;
  \<open>recv\<close> and \<open>recv_for\<close> have the part up to \<open>future.get()\<close>/\<open>wait_for\<close> and the part after it, the answer
  of the future being an argument. The interleavings of these parts are the subject of the
  theory \<open>Message_Queue_Sched\<close>.
\<close>

record 'v mqueue =
  mq_queue :: "'v list"
  mq_closed :: bool
  mq_waiters :: "pid list"

definition mq_init :: "'v mqueue" where
  "mq_init = \<lparr>mq_queue = [], mq_closed = False, mq_waiters = []\<rparr>"

text \<open>\<open>pop_front_unlocked\<close> is only called on a non-empty queue.\<close>

definition pop_front_unlocked :: "'v mqueue \<Rightarrow> 'v option \<times> 'v mqueue" where
  "pop_front_unlocked q =
     (case mq_queue q of
        [] \<Rightarrow> (None, q)
      | out # rest \<Rightarrow> (Some out, q\<lparr>mq_queue := rest\<rparr>))"

text \<open>
  The critical section of \<open>send_payload\<close>: refuse on a closed queue, take the first waiting promise,
  or queue the payload and wake one thread blocked on \<open>recv_cv_\<close>.
\<close>

datatype send_section = SendClosed | SendQueued | SendHandTo pid

definition send_locked :: "'v \<Rightarrow> 'v mqueue \<Rightarrow> send_section \<times> 'v mqueue" where
  "send_locked payload q =
     (if mq_closed q then (SendClosed, q)
      else case mq_waiters q of
        waiter # rest \<Rightarrow> (SendHandTo waiter, q\<lparr>mq_waiters := rest\<rparr>)
      | [] \<Rightarrow> (SendQueued, q\<lparr>mq_queue := mq_queue q @ [payload]\<rparr>))"

definition send_payload :: "'v \<Rightarrow> 'v mqueue \<Rightarrow> bool \<times> 'v mqueue \<times> 'v option settle list" where
  "send_payload payload q =
     (case send_locked payload q of
        (SendClosed, q') \<Rightarrow> (False, q', [])
      | (SendQueued, q') \<Rightarrow> (True, q', [])
      | (SendHandTo waiter, q') \<Rightarrow> (True, q', [(waiter, Value (Some payload))]))"

text \<open>\<open>send(const T&)\<close>, \<open>send(T&&)\<close> and \<open>emplace\<close> build the payload and call \<open>send_payload\<close>.\<close>

definition send_impl :: "'v \<Rightarrow> 'v mqueue \<Rightarrow> bool \<times> 'v mqueue \<times> 'v option settle list" where
  "send_impl message q = send_payload message q"

text \<open>The critical section shared by \<open>recv\<close> and \<open>recv_for\<close>; \<open>promise\<close> is the fresh promise.\<close>

definition recv_locked :: "pid \<Rightarrow> 'v mqueue \<Rightarrow> 'v option reply \<times> 'v mqueue" where
  "recv_locked promise q =
     (if mq_queue q \<noteq> [] then (let (out, q') = pop_front_unlocked q in (Return out, q'))
      else if mq_closed q then (Return None, q)
      else (Await promise, q\<lparr>mq_waiters := mq_waiters q @ [promise]\<rparr>))"

definition recv :: "pid \<Rightarrow> 'v mqueue \<Rightarrow> 'v option reply \<times> 'v mqueue" where
  "recv promise q = recv_locked promise q"

text \<open>
  After the time-out of \<open>recv_for\<close>: under the lock, the promise is searched in \<open>fiber_waiters_\<close> and
  erased if it is still there.
\<close>

definition recv_for_expire :: "pid \<Rightarrow> 'v mqueue \<Rightarrow> bool \<times> 'v mqueue" where
  "recv_for_expire promise q =
     (if promise \<in> set (mq_waiters q)
      then (True, q\<lparr>mq_waiters := remove1 promise (mq_waiters q)\<rparr>)
      else (False, q))"

text \<open>
  The whole of \<open>recv_for\<close> after its first critical section. \<open>first\<close> is what \<open>future.wait_for(ms)\<close>
  found (\<open>None\<close>: timed out) and \<open>second\<close> what \<open>future.wait_for(0)\<close> finds when the promise was no
  longer among the waiters.
\<close>

definition recv_for_resume ::
  "pid \<Rightarrow> 'v option option \<Rightarrow> 'v option option \<Rightarrow> 'v mqueue \<Rightarrow> 'v option \<times> 'v mqueue" where
  "recv_for_resume promise first second q =
     (case first of
        Some r \<Rightarrow> (r, q)
      | None \<Rightarrow>
          (let (found, q') = recv_for_expire promise q in
           if found then (None, q')
           else case second of Some r \<Rightarrow> (r, q') | None \<Rightarrow> (None, q')))"

text \<open>
  \<open>recv_blocking\<close> and \<open>recv_blocking_for\<close>: the predicate of the condition variable, and what is done
  under the lock once the wait is over.
\<close>

definition recv_cv_pred :: "'v mqueue \<Rightarrow> bool" where
  "recv_cv_pred q \<longleftrightarrow> mq_closed q \<or> mq_queue q \<noteq> []"

definition recv_blocking_wake :: "'v mqueue \<Rightarrow> 'v option \<times> 'v mqueue" where
  "recv_blocking_wake q = (if mq_queue q \<noteq> [] then pop_front_unlocked q else (None, q))"

definition try_recv :: "'v mqueue \<Rightarrow> 'v option \<times> 'v mqueue" where
  "try_recv q = (if mq_queue q = [] then (None, q) else pop_front_unlocked q)"

text \<open>The overload with an output argument leaves \<open>out\<close> alone when the queue is empty.\<close>

definition try_recv_out :: "'v \<Rightarrow> 'v mqueue \<Rightarrow> bool \<times> 'v \<times> 'v mqueue" where
  "try_recv_out out q =
     (case mq_queue q of
        [] \<Rightarrow> (False, out, q)
      | front # rest \<Rightarrow> (True, front, q\<lparr>mq_queue := rest\<rparr>))"

definition close_locked :: "'v mqueue \<Rightarrow> pid list option \<times> 'v mqueue" where
  "close_locked q =
     (if mq_closed q then (None, q)
      else (Some (mq_waiters q), q\<lparr>mq_closed := True, mq_waiters := []\<rparr>))"

definition close :: "'v mqueue \<Rightarrow> 'v mqueue \<times> 'v option settle list" where
  "close q =
     (case close_locked q of
        (None, q') \<Rightarrow> (q', [])
      | (Some waiters, q') \<Rightarrow> (q', map (\<lambda>waiter. (waiter, Value None)) waiters))"

definition closed :: "'v mqueue \<Rightarrow> bool" where
  "closed q = mq_closed q"

text \<open>
  The invariant: values and suspended fibers never coexist, a closed queue has no suspended
  fiber, and no promise waits twice.
\<close>

definition mq_inv :: "'v mqueue \<Rightarrow> bool" where
  "mq_inv q \<longleftrightarrow> (mq_queue q = [] \<or> mq_waiters q = []) \<and> (mq_closed q \<longrightarrow> mq_waiters q = []) \<and>
     distinct (mq_waiters q)"

lemmas mq_defs = pop_front_unlocked_def send_locked_def send_payload_def send_impl_def recv_locked_def
  recv_def recv_for_expire_def recv_for_resume_def recv_blocking_wake_def try_recv_def
  try_recv_out_def close_locked_def close_def closed_def

subsection \<open>The invariant is kept\<close>

lemma mq_inv_init [simp]: "mq_inv mq_init"
  by (simp add: mq_inv_def mq_init_def)

lemma mq_inv_send_locked: "mq_inv q \<Longrightarrow> mq_inv (snd (send_locked v q))"
  by (auto simp: mq_inv_def send_locked_def split: list.splits)

lemma mq_inv_recv_locked: "mq_inv q \<Longrightarrow> p \<notin> set (mq_waiters q) \<Longrightarrow> mq_inv (snd (recv_locked p q))"
  by (auto simp: mq_inv_def recv_locked_def pop_front_unlocked_def split: list.splits)

lemma mq_inv_recv_for_expire: "mq_inv q \<Longrightarrow> mq_inv (snd (recv_for_expire p q))"
  by (auto simp: mq_inv_def recv_for_expire_def)

lemma mq_inv_recv_blocking_wake: "mq_inv q \<Longrightarrow> mq_inv (snd (recv_blocking_wake q))"
  by (auto simp: mq_inv_def recv_blocking_wake_def pop_front_unlocked_def split: list.splits)

lemma mq_inv_try_recv: "mq_inv q \<Longrightarrow> mq_inv (snd (try_recv q))"
  by (auto simp: mq_inv_def try_recv_def pop_front_unlocked_def split: list.splits)

lemma mq_inv_close_locked: "mq_inv q \<Longrightarrow> mq_inv (snd (close_locked q))"
  by (auto simp: mq_inv_def close_locked_def)

lemmas mq_inv_intros = mq_inv_send_locked mq_inv_recv_locked mq_inv_recv_for_expire
  mq_inv_recv_blocking_wake mq_inv_try_recv mq_inv_close_locked

lemma try_recv_out_try_recv:
  "try_recv_out out q =
     (case try_recv q of (None, q') \<Rightarrow> (False, out, q') | (Some v, q') \<Rightarrow> (True, v, q'))"
  by (auto simp: mq_defs split: list.splits)

subsection \<open>The hand-off contract\<close>

text \<open>
  The client view of the queue used by the contract: sending returns whom the payload was handed
  to, receiving returns a value when it does not suspend.
\<close>

definition mq_put :: "'v \<Rightarrow> 'v mqueue \<Rightarrow> 'v mqueue \<times> (pid \<times> 'v) list" where
  "mq_put v q =
     (case send_payload v q of
        (_, q', sets) \<Rightarrow> (q', [(p, x). (p, r) \<leftarrow> sets, x \<leftarrow> (case r of Value (Some x) \<Rightarrow> [x] | _ \<Rightarrow> [])]))"

definition mq_get :: "pid \<Rightarrow> 'v mqueue \<Rightarrow> 'v mqueue \<times> 'v option" where
  "mq_get p q = (case recv p q of (Return r, q') \<Rightarrow> (q', r) | (_, q') \<Rightarrow> (q', None))"

definition mq_cancel :: "pid \<Rightarrow> 'v mqueue \<Rightarrow> 'v mqueue \<times> bool" where
  "mq_cancel p q = (case recv_for_expire p q of (found, q') \<Rightarrow> (q', found))"

definition mq_open_inv :: "'v mqueue \<Rightarrow> bool" where
  "mq_open_inv q \<longleftrightarrow> (mq_queue q = [] \<or> mq_waiters q = []) \<and> \<not> mq_closed q"

interpretation mq: handoff mq_open_inv mq_queue mq_waiters "\<lambda>q. \<not> mq_closed q" "\<lambda>q. \<not> mq_closed q"
  mq_put mq_get mq_cancel
  by unfold_locales
    (auto simp: mq_open_inv_def mq_put_def mq_get_def mq_cancel_def mq_defs remove1_idem
      split: list.splits)

end
