(* ===== verification/Message_Queue_Sched.thy ===== *)
theory Message_Queue_Sched
  imports Message_Queue
begin

text \<open>
  The interleavings of \<open>MessageQueue<T>\<close>. Any number of fibers and threads use one queue; an
  invocation of a public operation is identified by a number \<open>t\<close>, which also names the promise it
  creates (\<open>recv\<close> and \<open>recv_for\<close> create one promise each). The program counter of an invocation
  stands between the critical sections of its operation, and every rule of \<open>mq_step\<close> is one critical
  section or one call on a promise or future, as the code orders them.

  Two history variables record what happened: \<open>sys_sent\<close>, the payloads accepted, in the order of
  their critical sections, and \<open>sys_taken\<close>, the invocation each payload was given to. The argument
  \<open>peek\<close> is the answer of \<open>boost::fibers::future\<close> (see \<open>fiber_promise\<close>).
\<close>

datatype 'v mq_call =
  CSend 'v | CRecv | CRecvFor | CRecvBlocking | CRecvBlockingFor | CTryRecv | CClose

datatype 'v mq_pc =
    NotCalled
  | Calling
  | SetWaiter pid 'v
  | InGet
  | InWaitFor
  | Expired
  | Recheck
  | InCvWait
  | SetClosed "pid list"
  | ReturnedSend bool
  | ReturnedRecv "'v option"
  | ReturnedClose

record 'v mq_sys =
  sys_q :: "'v mqueue"
  sys_call :: "nat \<Rightarrow> 'v mq_call"
  sys_pc :: "nat \<Rightarrow> 'v mq_pc"
  sys_set :: "(pid \<times> 'v option) list"
  sys_sent :: "'v list"
  sys_taken :: "(pid \<times> 'v) list"

definition mq_sys_init :: "(nat \<Rightarrow> 'v mq_call) \<Rightarrow> 'v mq_sys" where
  "mq_sys_init calls = \<lparr>sys_q = mq_init, sys_call = calls, sys_pc = (\<lambda>_. NotCalled), sys_set = [],
     sys_sent = [], sys_taken = []\<rparr>"

definition at_pc :: "nat \<Rightarrow> 'v mq_pc \<Rightarrow> 'v mq_sys \<Rightarrow> 'v mq_sys" where
  "at_pc t c s = s\<lparr>sys_pc := (sys_pc s)(t := c)\<rparr>"

text \<open>An invocation that returns a value has taken it; the value is logged with the return.\<close>

definition returned :: "nat \<Rightarrow> 'v option \<Rightarrow> 'v mqueue \<Rightarrow> 'v mq_sys \<Rightarrow> 'v mq_sys" where
  "returned t r q' s = at_pc t (ReturnedRecv r) (s\<lparr>sys_q := q',
     sys_taken := sys_taken s @ (case r of None \<Rightarrow> [] | Some v \<Rightarrow> [(t, v)])\<rparr>)"

inductive mq_step ::
  "((pid \<times> 'v option) list \<Rightarrow> pid \<Rightarrow> 'v option option) \<Rightarrow> 'v mq_sys \<Rightarrow> 'v mq_sys \<Rightarrow> bool"
  for peek where
  call: "sys_pc s t = NotCalled \<Longrightarrow> mq_step peek s (at_pc t Calling s)"
| send_closed: "sys_pc s t = Calling \<Longrightarrow> sys_call s t = CSend v \<Longrightarrow>
    send_locked v (sys_q s) = (SendClosed, q') \<Longrightarrow>
    mq_step peek s (at_pc t (ReturnedSend False) (s\<lparr>sys_q := q'\<rparr>))"
| send_queued: "sys_pc s t = Calling \<Longrightarrow> sys_call s t = CSend v \<Longrightarrow>
    send_locked v (sys_q s) = (SendQueued, q') \<Longrightarrow>
    mq_step peek s (at_pc t (ReturnedSend True) (s\<lparr>sys_q := q', sys_sent := sys_sent s @ [v]\<rparr>))"
| send_hand: "sys_pc s t = Calling \<Longrightarrow> sys_call s t = CSend v \<Longrightarrow>
    send_locked v (sys_q s) = (SendHandTo w, q') \<Longrightarrow>
    mq_step peek s (at_pc t (SetWaiter w v) (s\<lparr>sys_q := q', sys_sent := sys_sent s @ [v],
      sys_taken := sys_taken s @ [(w, v)]\<rparr>))"
| set_waiter: "sys_pc s t = SetWaiter w v \<Longrightarrow>
    mq_step peek s (at_pc t (ReturnedSend True) (s\<lparr>sys_set := sys_set s @ [(w, Some v)]\<rparr>))"
| recv_return: "sys_pc s t = Calling \<Longrightarrow> sys_call s t = CRecv \<or> sys_call s t = CRecvFor \<Longrightarrow>
    recv_locked t (sys_q s) = (Return r, q') \<Longrightarrow> mq_step peek s (returned t r q' s)"
| recv_suspend: "sys_pc s t = Calling \<Longrightarrow> sys_call s t = CRecv \<Longrightarrow>
    recv_locked t (sys_q s) = (Await p, q') \<Longrightarrow> mq_step peek s (at_pc t InGet (s\<lparr>sys_q := q'\<rparr>))"
| recv_for_suspend: "sys_pc s t = Calling \<Longrightarrow> sys_call s t = CRecvFor \<Longrightarrow>
    recv_locked t (sys_q s) = (Await p, q') \<Longrightarrow> mq_step peek s (at_pc t InWaitFor (s\<lparr>sys_q := q'\<rparr>))"
| get_ready: "sys_pc s t = InGet \<Longrightarrow> peek (sys_set s) t = Some r \<Longrightarrow>
    mq_step peek s (at_pc t (ReturnedRecv r) s)"
| wait_ready: "sys_pc s t = InWaitFor \<Longrightarrow> peek (sys_set s) t = Some r \<Longrightarrow>
    mq_step peek s (at_pc t (ReturnedRecv r) s)"
| wait_timeout: "sys_pc s t = InWaitFor \<Longrightarrow> peek (sys_set s) t = None \<Longrightarrow>
    mq_step peek s (at_pc t Expired s)"
| expire_found: "sys_pc s t = Expired \<Longrightarrow> recv_for_expire t (sys_q s) = (True, q') \<Longrightarrow>
    mq_step peek s (at_pc t (ReturnedRecv None) (s\<lparr>sys_q := q'\<rparr>))"
| expire_missed: "sys_pc s t = Expired \<Longrightarrow> recv_for_expire t (sys_q s) = (False, q') \<Longrightarrow>
    mq_step peek s (at_pc t Recheck (s\<lparr>sys_q := q'\<rparr>))"
| recheck_ready: "sys_pc s t = Recheck \<Longrightarrow> peek (sys_set s) t = Some r \<Longrightarrow>
    mq_step peek s (at_pc t (ReturnedRecv r) s)"
| recheck_empty: "sys_pc s t = Recheck \<Longrightarrow> peek (sys_set s) t = None \<Longrightarrow>
    mq_step peek s (at_pc t (ReturnedRecv None) s)"
| cv_block: "sys_pc s t = Calling \<Longrightarrow> sys_call s t = CRecvBlocking \<or> sys_call s t = CRecvBlockingFor \<Longrightarrow>
    \<not> recv_cv_pred (sys_q s) \<Longrightarrow> mq_step peek s (at_pc t InCvWait s)"
| cv_wake: "sys_pc s t = Calling \<and> (sys_call s t = CRecvBlocking \<or> sys_call s t = CRecvBlockingFor) \<or>
      sys_pc s t = InCvWait \<Longrightarrow>
    recv_cv_pred (sys_q s) \<Longrightarrow> recv_blocking_wake (sys_q s) = (r, q') \<Longrightarrow>
    mq_step peek s (returned t r q' s)"
| cv_timeout: "sys_pc s t = InCvWait \<Longrightarrow> sys_call s t = CRecvBlockingFor \<Longrightarrow>
    recv_blocking_wake (sys_q s) = (r, q') \<Longrightarrow> mq_step peek s (returned t r q' s)"
| try_recv_now: "sys_pc s t = Calling \<Longrightarrow> sys_call s t = CTryRecv \<Longrightarrow>
    try_recv (sys_q s) = (r, q') \<Longrightarrow> mq_step peek s (returned t r q' s)"
| close_again: "sys_pc s t = Calling \<Longrightarrow> sys_call s t = CClose \<Longrightarrow>
    close_locked (sys_q s) = (None, q') \<Longrightarrow>
    mq_step peek s (at_pc t ReturnedClose (s\<lparr>sys_q := q'\<rparr>))"
| close_first: "sys_pc s t = Calling \<Longrightarrow> sys_call s t = CClose \<Longrightarrow>
    close_locked (sys_q s) = (Some ws, q') \<Longrightarrow>
    mq_step peek s (at_pc t (SetClosed ws) (s\<lparr>sys_q := q'\<rparr>))"
| set_closed: "sys_pc s t = SetClosed (w # ws) \<Longrightarrow>
    mq_step peek s (at_pc t (SetClosed ws) (s\<lparr>sys_set := sys_set s @ [(w, None)]\<rparr>))"
| close_done: "sys_pc s t = SetClosed [] \<Longrightarrow> mq_step peek s (at_pc t ReturnedClose s)"

inductive mq_reachable ::
  "((pid \<times> 'v option) list \<Rightarrow> pid \<Rightarrow> 'v option option) \<Rightarrow> 'v mq_sys \<Rightarrow> bool"
  for peek where
  start: "mq_reachable peek (mq_sys_init calls)"
| step: "mq_reachable peek s \<Longrightarrow> mq_step peek s s' \<Longrightarrow> mq_reachable peek s'"

text \<open>The promises an invocation has taken charge of but not set yet, with what it will set.\<close>

fun owes :: "'v mq_pc \<Rightarrow> (pid \<times> 'v option) list" where
  "owes (SetWaiter w v) = [(w, Some v)]"
| "owes (SetClosed ws) = map (\<lambda>w. (w, None)) ws"
| "owes _ = []"

text \<open>An invocation whose promise is not yet registered, or that has none.\<close>

fun early :: "'v mq_pc \<Rightarrow> bool" where
  "early NotCalled = True"
| "early Calling = True"
| "early InCvWait = True"
| "early (SetWaiter w v) = True"
| "early (SetClosed ws) = True"
| "early (ReturnedSend b) = True"
| "early ReturnedClose = True"
| "early _ = False"

fun suspended :: "'v mq_pc \<Rightarrow> bool" where
  "suspended InGet = True"
| "suspended InWaitFor = True"
| "suspended Expired = True"
| "suspended _ = False"

definition fifo_inv :: "'v mq_sys \<Rightarrow> bool" where
  "fifo_inv s \<longleftrightarrow> mq_inv (sys_q s) \<and> sys_sent s = map snd (sys_taken s) @ mq_queue (sys_q s)"

text \<open>
  The ledger of promises: every promise is in exactly one place. It waits (\<open>W\<close>), or one invocation
  \<open>u\<close> has taken charge of setting it (\<open>owe u\<close>), or it is set (\<open>S\<close>); \<open>E\<close> are the invocations without
  a registered promise and \<open>U\<close> the suspended ones.
\<close>

definition ledger ::
  "pid set \<Rightarrow> (nat \<Rightarrow> pid list) \<Rightarrow> pid list \<Rightarrow> (pid \<Rightarrow> bool) \<Rightarrow> (pid \<Rightarrow> bool) \<Rightarrow> bool" where
  "ledger W owe S E U \<longleftrightarrow>
     distinct S \<and> (\<forall>u. distinct (owe u)) \<and>
     (\<forall>u w. w \<in> set (owe u) \<longrightarrow> w \<notin> set S \<and> w \<notin> W \<and> \<not> E w) \<and>
     (\<forall>u u' w. w \<in> set (owe u) \<longrightarrow> w \<in> set (owe u') \<longrightarrow> u = u') \<and>
     (\<forall>w. w \<in> W \<longrightarrow> U w \<and> \<not> E w \<and> w \<notin> set S) \<and>
     (\<forall>w. w \<in> set S \<longrightarrow> \<not> E w)"

abbreviation wset :: "'v mq_sys \<Rightarrow> pid set" where
  "wset s \<equiv> set (mq_waiters (sys_q s))"

abbreviation owed :: "'v mq_sys \<Rightarrow> nat \<Rightarrow> pid list" where
  "owed s u \<equiv> map fst (owes (sys_pc s u))"

definition promise_inv :: "'v mq_sys \<Rightarrow> bool" where
  "promise_inv s \<longleftrightarrow> ledger (wset s) (owed s) (map fst (sys_set s)) (\<lambda>u. early (sys_pc s u))
     (\<lambda>u. suspended (sys_pc s u))"

text \<open>The outcome that has been decided for a promise: it is set, or an invocation owes it.\<close>

definition promised :: "'v mq_sys \<Rightarrow> pid \<Rightarrow> 'v option \<Rightarrow> bool" where
  "promised s t r \<longleftrightarrow> (t, r) \<in> set (sys_set s) \<or> (\<exists>u. (t, r) \<in> set (owes (sys_pc s u)))"

text \<open>A suspended invocation is still registered, or its outcome is decided.\<close>

definition served_inv :: "'v mq_sys \<Rightarrow> bool" where
  "served_inv s \<longleftrightarrow>
     (\<forall>t. suspended (sys_pc s t) \<longrightarrow> t \<in> wset s \<or> (\<exists>r. promised s t r)) \<and>
     (\<forall>t. sys_pc s t = Recheck \<longrightarrow> (\<exists>r. promised s t r))"

text \<open>Whoever is recorded as the receiver of a payload has it, or it is on its way to it.\<close>

definition taken_inv :: "'v mq_sys \<Rightarrow> bool" where
  "taken_inv s \<longleftrightarrow>
     distinct (map fst (sys_taken s)) \<and>
     (\<forall>t v. promised s t (Some v) \<or> sys_pc s t = ReturnedRecv (Some v) \<longrightarrow> (t, v) \<in> set (sys_taken s)) \<and>
     (\<forall>t v. promised s t None \<or> t \<in> wset s \<or> early (sys_pc s t) \<or>
        sys_call s t \<noteq> CRecvFor \<and> sys_pc s t = ReturnedRecv None \<longrightarrow> (t, v) \<notin> set (sys_taken s)) \<and>
     (\<forall>t v. (t, v) \<in> set (sys_taken s) \<longrightarrow> promised s t (Some v) \<or> sys_pc s t = ReturnedRecv (Some v) \<or>
        sys_call s t = CRecvFor) \<and>
     (\<forall>t. sys_pc s t \<in> {InWaitFor, Expired, Recheck} \<longrightarrow> sys_call s t = CRecvFor)"

subsection \<open>The critical sections as equations on the queue\<close>

lemma send_closed_eq: "send_locked v q = (SendClosed, q') \<longleftrightarrow> mq_closed q \<and> q' = q"
  by (auto simp: send_locked_def split: list.splits)

lemma send_queued_eq:
  "send_locked v q = (SendQueued, q') \<longleftrightarrow>
     \<not> mq_closed q \<and> mq_waiters q = [] \<and> q' = q\<lparr>mq_queue := mq_queue q @ [v]\<rparr>"
  by (auto simp: send_locked_def split: list.splits)

lemma send_hand_eq:
  "send_locked v q = (SendHandTo w, q') \<longleftrightarrow>
     \<not> mq_closed q \<and> (\<exists>ws. mq_waiters q = w # ws \<and> q' = q\<lparr>mq_waiters := ws\<rparr>)"
  by (auto simp: send_locked_def split: list.splits)

lemma recv_locked_Await:
  "recv_locked t q = (Await p, q') \<longleftrightarrow>
     p = t \<and> mq_queue q = [] \<and> \<not> mq_closed q \<and> q' = q\<lparr>mq_waiters := mq_waiters q @ [t]\<rparr>"
  by (auto simp: recv_locked_def pop_front_unlocked_def split: list.splits)

lemma recv_for_expire_eq:
  "recv_for_expire t q = (b, q') \<longleftrightarrow> b = (t \<in> set (mq_waiters q)) \<and>
     q' = (if b then q\<lparr>mq_waiters := remove1 t (mq_waiters q)\<rparr> else q)"
  by (auto simp: recv_for_expire_def)

lemma close_locked_None: "close_locked q = (None, q') \<longleftrightarrow> mq_closed q \<and> q' = q"
  by (auto simp: close_locked_def)

lemma close_locked_Some:
  "close_locked q = (Some ws, q') \<longleftrightarrow> \<not> mq_closed q \<and> ws = mq_waiters q \<and>
     q' = q\<lparr>mq_closed := True, mq_waiters := []\<rparr>"
  by (auto simp: close_locked_def)

text \<open>A receive that does not suspend takes the front of the queue, if there is one.\<close>

definition takes :: "'v mqueue \<Rightarrow> 'v option \<Rightarrow> 'v mqueue \<Rightarrow> bool" where
  "takes q r q' \<longleftrightarrow> (\<exists>rest. q' = q\<lparr>mq_queue := rest\<rparr> \<and>
     mq_queue q = (case r of None \<Rightarrow> [] | Some v \<Rightarrow> [v]) @ rest)"

lemma recv_locked_takes: "recv_locked t q = (Return r, q') \<Longrightarrow> takes q r q'"
  by (auto simp: takes_def recv_locked_def pop_front_unlocked_def split: list.splits if_splits)

lemma recv_blocking_wake_takes: "recv_blocking_wake q = (r, q') \<Longrightarrow> takes q r q'"
  by (auto simp: takes_def recv_blocking_wake_def pop_front_unlocked_def split: list.splits if_splits)

lemma try_recv_takes: "try_recv q = (r, q') \<Longrightarrow> takes q r q'"
  by (auto simp: takes_def try_recv_def pop_front_unlocked_def split: list.splits if_splits)

lemmas section_eqs = send_closed_eq send_queued_eq send_hand_eq recv_locked_Await recv_for_expire_eq
  close_locked_None close_locked_Some

lemmas section_takes = recv_locked_takes recv_blocking_wake_takes try_recv_takes

lemma at_pc_simps [simp]:
  "sys_q (at_pc t c s) = sys_q s" "sys_call (at_pc t c s) = sys_call s"
  "sys_pc (at_pc t c s) = (sys_pc s)(t := c)" "sys_set (at_pc t c s) = sys_set s"
  "sys_sent (at_pc t c s) = sys_sent s" "sys_taken (at_pc t c s) = sys_taken s"
  by (simp_all add: at_pc_def)

lemma returned_simps [simp]:
  "sys_q (returned t r q' s) = q'" "sys_call (returned t r q' s) = sys_call s"
  "sys_pc (returned t r q' s) = (sys_pc s)(t := ReturnedRecv r)"
  "sys_set (returned t r q' s) = sys_set s" "sys_sent (returned t r q' s) = sys_sent s"
  "sys_taken (returned t r q' s) = sys_taken s @ (case r of None \<Rightarrow> [] | Some v \<Rightarrow> [(t, v)])"
  by (simp_all add: returned_def)


lemma suspended_not_early: "suspended c \<Longrightarrow> \<not> early c"
  by (cases c) simp_all

lemma suspended_owes: "suspended c \<Longrightarrow> owes c = []"
  by (cases c) simp_all

subsection \<open>The ledger\<close>

lemma ledger_internal:
  assumes "ledger W owe S E U" "E' t \<Longrightarrow> E t" "U' t \<or> t \<notin> W"
    and "\<And>u. u \<noteq> t \<Longrightarrow> E' u = E u \<and> U' u = U u"
  shows "ledger W owe S E' U'"
  using assms unfolding ledger_def by metis

lemma ledger_register:
  assumes "ledger W owe S E U" "E t" "U' t" "\<not> E' t"
    and "\<And>u. u \<noteq> t \<Longrightarrow> E' u = E u \<and> U' u = U u"
  shows "ledger (insert t W) owe S E' U'"
  using assms unfolding ledger_def by (metis insertE)

lemma ledger_withdraw:
  assumes "ledger W owe S E U" "\<not> E' t" "\<And>u. u \<noteq> t \<Longrightarrow> E' u = E u \<and> U' u = U u"
  shows "ledger (W - {t}) owe S E' U'"
  using assms unfolding ledger_def by (metis DiffE singletonI)

lemma ledger_take_over:
  assumes "ledger (set ws \<union> W) owe S E U" "set ws \<inter> W = {}" "distinct ws" "owe t = []" "E t" "E' t"
    and "\<And>u. u \<noteq> t \<Longrightarrow> E' u = E u \<and> U' u = U u"
  shows "ledger W (owe(t := ws)) S E' U'"
proof -
  have "w \<in> W \<Longrightarrow> U' w \<and> \<not> E' w" for w
    using assms(1,5) assms(7) [of w] unfolding ledger_def by (cases "w = t") auto
  moreover have "\<not> E w \<Longrightarrow> \<not> E' w" for w
    using assms(5) assms(7) [of w] by (cases "w = t") auto
  ultimately show ?thesis
    using assms(1-4) unfolding ledger_def by (simp add: disjoint_iff) blast
qed

lemma ledger_settle:
  assumes "ledger W owe S E U" "owe t = w # ws" "E t" "E' t"
    and "\<And>u. u \<noteq> t \<Longrightarrow> E' u = E u \<and> U' u = U u"
  shows "ledger W (owe(t := ws)) (S @ [w]) E' U'"
proof -
  have "x \<in> W \<Longrightarrow> U' x \<and> \<not> E' x" for x
    using assms(1,3) assms(5) [of x] unfolding ledger_def by (cases "x = t") auto
  moreover have "\<not> E x \<Longrightarrow> \<not> E' x" for x
    using assms(3) assms(5) [of x] by (cases "x = t") auto
  moreover have "w \<in> set (owe t)" "distinct (w # ws)" "set ws \<subseteq> set (owe t)"
    using assms(1,2) unfolding ledger_def by (auto, metis distinct.simps(2), metis distinct.simps(2))
  ultimately show ?thesis
    using assms(1) unfolding ledger_def by (simp add: subset_iff) blast
qed

subsection \<open>Every step keeps the ledger\<close>

lemma owed_upd:
  "sys_pc s' = (sys_pc s)(t := c) \<Longrightarrow> owed s' = (owed s)(t := map fst (owes c))"
  by auto

lemma owed_same:
  "sys_pc s' = (sys_pc s)(t := c) \<Longrightarrow> owes c = owes (sys_pc s t) \<Longrightarrow> owed s' = owed s"
  by (simp add: fun_eq_iff)

lemma promise_internal:
  assumes inv: "promise_inv s" and eq: "sys_set s' = sys_set s" "wset s' = wset s"
    and pc: "sys_pc s' = (sys_pc s)(t := c)" and o: "owes c = owes (sys_pc s t)"
    and c: "early c \<Longrightarrow> early (sys_pc s t)" "suspended c \<or> t \<notin> wset s"
  shows "promise_inv s'"
  using inv unfolding promise_inv_def eq owed_same [OF pc o]
  by (rule ledger_internal [where t = t]) (use pc c in simp_all)

lemma promise_register:
  assumes inv: "promise_inv s" and eq: "sys_set s' = sys_set s" "wset s' = insert t (wset s)"
    and pc: "sys_pc s' = (sys_pc s)(t := c)" and o: "owes c = owes (sys_pc s t)"
    and c: "suspended c" "early (sys_pc s t)"
  shows "promise_inv s'"
  using inv unfolding promise_inv_def eq owed_same [OF pc o]
  by (rule ledger_register) (use pc c suspended_not_early [OF c(1)] in simp_all)

lemma promise_withdraw:
  assumes inv: "promise_inv s" and eq: "sys_set s' = sys_set s" "wset s' = wset s - {t}"
    and pc: "sys_pc s' = (sys_pc s)(t := c)" and o: "owes c = owes (sys_pc s t)" and c: "\<not> early c"
  shows "promise_inv s'"
  using inv unfolding promise_inv_def eq owed_same [OF pc o]
  by (rule ledger_withdraw) (use pc c in simp_all)

lemma promise_take_over:
  assumes inv: "promise_inv s" and eq: "sys_set s' = sys_set s"
    and ws: "mq_waiters (sys_q s) = map fst (owes c) @ mq_waiters (sys_q s')"
      "distinct (mq_waiters (sys_q s))"
    and pc: "sys_pc s' = (sys_pc s)(t := c)" and c: "owes (sys_pc s t) = []" "early (sys_pc s t)" "early c"
  shows "promise_inv s'"
proof -
  have "wset s = set (map fst (owes c)) \<union> wset s'" "set (map fst (owes c)) \<inter> wset s' = {}"
    "distinct (map fst (owes c))"
    using ws by simp_all
  note w = this
  show ?thesis
    using inv unfolding promise_inv_def eq owed_upd [OF pc] w(1)
    by (rule ledger_take_over) (use w(2,3) pc c in simp_all)
qed

lemma promise_settle:
  assumes inv: "promise_inv s" and eq: "sys_set s' = sys_set s @ [(w, r)]" "wset s' = wset s"
    and pc: "sys_pc s' = (sys_pc s)(t := c)" and o: "owes (sys_pc s t) = (w, r) # owes c"
    and c: "early (sys_pc s t)" "early c"
  shows "promise_inv s'"
  using inv unfolding promise_inv_def eq owed_upd [OF pc] map_append list.map fst_conv
  by (rule ledger_settle) (use pc o c in simp_all)

lemma promise_inv_early: "promise_inv s \<Longrightarrow> early (sys_pc s t) \<Longrightarrow> t \<notin> wset s"
  unfolding promise_inv_def ledger_def by blast

lemma promise_inv_waiter: "promise_inv s \<Longrightarrow> t \<in> wset s \<Longrightarrow> suspended (sys_pc s t)"
  unfolding promise_inv_def ledger_def by blast

lemma promise_inv_set: "promise_inv s \<Longrightarrow> t \<in> fst ` set (sys_set s) \<Longrightarrow> t \<notin> wset s"
  unfolding promise_inv_def ledger_def set_map by blast

lemma promised_same:
  assumes "sys_pc s' = (sys_pc s)(t := c)" "owes c = owes (sys_pc s t)" "sys_set s' = sys_set s"
  shows "promised s' x r = promised s x r"
  using assms by (auto simp: promised_def split: if_splits)

lemma promised_owe:
  assumes "sys_pc s' = (sys_pc s)(t := c)" "owes (sys_pc s t) = []" "sys_set s' = sys_set s"
  shows "promised s' x r = (promised s x r \<or> (x, r) \<in> set (owes c))"
  using assms by (auto simp: promised_def split: if_splits) (metis empty_iff empty_set)

lemma promised_settle:
  assumes "sys_pc s' = (sys_pc s)(t := c)" "owes (sys_pc s t) = p # owes c" "sys_set s' = sys_set s @ [p]"
  shows "promised s' x r = promised s x r"
proof -
  have "(x, r) \<in> set (owes (sys_pc s u)) \<longleftrightarrow> (x, r) \<in> set (owes (sys_pc s' u)) \<or> u = t \<and> (x, r) = p" for u
    using assms(1,2) by auto
  then show ?thesis by (auto simp: promised_def assms(3))
qed

subsection \<open>The shapes of a step\<close>

text \<open>
  What a step does to the queue, the promises and the program counters, whichever operation it
  belongs to. The invariants are proved by cases over these shapes.
\<close>

lemma mq_step_shape [consumes 1, case_names internal expire queued hand close_all settle register
    withdraw returned ready giveup]:
  assumes "mq_step peek s s'"
    and internal: "\<And>t c. s' = at_pc t c s \<Longrightarrow> owes c = [] \<Longrightarrow> owes (sys_pc s t) = [] \<Longrightarrow>
      early c \<Longrightarrow> early (sys_pc s t) \<Longrightarrow> thesis"
    and expire: "\<And>t c. s' = at_pc t c s \<Longrightarrow>
      sys_pc s t = InWaitFor \<and> c = Expired \<or> sys_pc s t = Expired \<and> c = Recheck \<and> t \<notin> wset s \<Longrightarrow> thesis"
    and queued: "\<And>t v. s' = at_pc t (ReturnedSend True) (s\<lparr>sys_q := (sys_q s)\<lparr>mq_queue :=
      mq_queue (sys_q s) @ [v]\<rparr>, sys_sent := sys_sent s @ [v]\<rparr>) \<Longrightarrow> sys_pc s t = Calling \<Longrightarrow>
      mq_waiters (sys_q s) = [] \<Longrightarrow> thesis"
    and hand: "\<And>t v w ws. s' = at_pc t (SetWaiter w v) (s\<lparr>sys_q := (sys_q s)\<lparr>mq_waiters := ws\<rparr>,
      sys_sent := sys_sent s @ [v], sys_taken := sys_taken s @ [(w, v)]\<rparr>) \<Longrightarrow>
      sys_pc s t = Calling \<Longrightarrow> mq_waiters (sys_q s) = w # ws \<Longrightarrow> thesis"
    and close_all: "\<And>t. s' = at_pc t (SetClosed (mq_waiters (sys_q s)))
      (s\<lparr>sys_q := (sys_q s)\<lparr>mq_closed := True, mq_waiters := []\<rparr>\<rparr>) \<Longrightarrow> sys_pc s t = Calling \<Longrightarrow> thesis"
    and settle: "\<And>t c w r. s' = at_pc t c (s\<lparr>sys_set := sys_set s @ [(w, r)]\<rparr>) \<Longrightarrow>
      owes (sys_pc s t) = (w, r) # owes c \<Longrightarrow> early (sys_pc s t) \<Longrightarrow> early c \<Longrightarrow> thesis"
    and register: "\<And>t c. s' = at_pc t c (s\<lparr>sys_q := (sys_q s)\<lparr>mq_waiters := mq_waiters (sys_q s) @ [t]\<rparr>\<rparr>) \<Longrightarrow>
      sys_pc s t = Calling \<Longrightarrow> c = InGet \<or> c = InWaitFor \<and> sys_call s t = CRecvFor \<Longrightarrow>
      mq_queue (sys_q s) = [] \<Longrightarrow> \<not> mq_closed (sys_q s) \<Longrightarrow> thesis"
    and withdraw: "\<And>t. s' = at_pc t (ReturnedRecv None)
      (s\<lparr>sys_q := (sys_q s)\<lparr>mq_waiters := remove1 t (mq_waiters (sys_q s))\<rparr>\<rparr>) \<Longrightarrow>
      sys_pc s t = Expired \<Longrightarrow> t \<in> wset s \<Longrightarrow> thesis"
    and returned: "\<And>t r q'. s' = returned t r q' s \<Longrightarrow> sys_pc s t = Calling \<or> sys_pc s t = InCvWait \<Longrightarrow>
      takes (sys_q s) r q' \<Longrightarrow> thesis"
    and ready: "\<And>t r. s' = at_pc t (ReturnedRecv r) s \<Longrightarrow> sys_pc s t \<in> {InGet, InWaitFor, Recheck} \<Longrightarrow>
      peek (sys_set s) t = Some r \<Longrightarrow> thesis"
    and giveup: "\<And>t. s' = at_pc t (ReturnedRecv None) s \<Longrightarrow> sys_pc s t = Recheck \<Longrightarrow>
      peek (sys_set s) t = None \<Longrightarrow> thesis"
  shows thesis
  using assms(1)
proof (cases rule: mq_step.cases)
  case (send_queued t v q') then show ?thesis using queued by (auto simp: section_eqs)
next
  case (send_hand t v w q') then show ?thesis using hand by (auto simp: section_eqs)
next
  case (set_waiter t w v) then show ?thesis using settle by simp
next
  case (set_closed t w ws) then show ?thesis using settle by simp
next
  case (recv_return t r q') then show ?thesis using returned section_takes by blast
next
  case (recv_suspend t p q') then show ?thesis using register by (auto simp: section_eqs)
next
  case (recv_for_suspend t p q') then show ?thesis using register by (auto simp: section_eqs)
next
  case (expire_found t q') then show ?thesis using withdraw by (auto simp: section_eqs)
next
  case (close_first t ws q') then show ?thesis using close_all by (auto simp: section_eqs)
next
  case (cv_wake t r q') then show ?thesis using returned section_takes by blast
next
  case (cv_timeout t r q') then show ?thesis using returned section_takes by blast
next
  case (try_recv_now t r q') then show ?thesis using returned section_takes by blast
next
  case (get_ready t r) then show ?thesis using ready by simp
next
  case (wait_ready t r) then show ?thesis using ready by simp
next
  case (recheck_ready t r) then show ?thesis using ready by simp
next
  case (recheck_empty t) then show ?thesis using giveup by simp
next
  case (wait_timeout t) then show ?thesis using expire by simp
next
  case (expire_missed t q') then show ?thesis using expire by (simp add: section_eqs)
next
  case (call t) then show ?thesis by (intro internal [of t Calling]) simp_all
next
  case (send_closed t v q')
  then show ?thesis by (intro internal [of t "ReturnedSend False"]) (simp_all add: section_eqs)
next
  case (cv_block t) then show ?thesis by (intro internal [of t InCvWait]) simp_all
next
  case (close_again t q')
  then show ?thesis by (intro internal [of t ReturnedClose]) (simp_all add: section_eqs)
next
  case (close_done t) then show ?thesis by (intro internal [of t ReturnedClose]) simp_all
qed

lemma fifo_inv_step:
  assumes "mq_step peek s s'" "fifo_inv s" "promise_inv s"
  shows "fifo_inv s'"
  using assms(1)
proof (cases rule: mq_step_shape)
  case (register t c)
  then show ?thesis using assms(2) promise_inv_early [OF assms(3), of t] by (simp add: fifo_inv_def mq_inv_def)
next
  case (returned t r q')
  then show ?thesis using assms(2) by (auto simp: fifo_inv_def mq_inv_def takes_def split: option.splits)
qed (use assms(2) in \<open>auto simp: fifo_inv_def mq_inv_def\<close>)

text \<open>The futures of a message queue carry an optional payload.\<close>

locale mq_futures = fiber_promise peek
  for peek :: "(pid \<times> 'v option) list \<Rightarrow> pid \<Rightarrow> 'v option option"
begin

lemma promise_inv_step:
  assumes "mq_step peek s s'" "promise_inv s" "fifo_inv s"
  shows "promise_inv s'"
proof -
  note early = promise_inv_early [OF assms(2)] and waiter = promise_inv_waiter [OF assms(2)]
  have dist: "distinct (mq_waiters (sys_q s))" using assms(3) by (simp add: fifo_inv_def mq_inv_def)
  from assms(1) show ?thesis
  proof (cases rule: mq_step_shape)
    case (internal t c)
    then show ?thesis using early [of t] by (intro promise_internal [OF assms(2), of _ t c]) simp_all
  next
    case (expire t c)
    then show ?thesis by (intro promise_internal [OF assms(2), of _ t c]) auto
  next
    case (queued t v)
    then show ?thesis by (intro promise_internal [OF assms(2), of _ t "ReturnedSend True"]) simp_all
  next
    case (hand t v w ws)
    then show ?thesis using dist by (intro promise_take_over [OF assms(2), of _ "SetWaiter w v" t]) simp_all
  next
    case (close_all t)
    then show ?thesis using dist
      by (intro promise_take_over [OF assms(2), of _ "SetClosed (mq_waiters (sys_q s))" t])
        (simp_all add: comp_def)
  next
    case (settle t c w r)
    then show ?thesis by (intro promise_settle [OF assms(2), of _ w r t c]) simp_all
  next
    case (register t c)
    then show ?thesis by (intro promise_register [OF assms(2), of _ t c]) auto
  next
    case (withdraw t)
    then show ?thesis using dist by (intro promise_withdraw [OF assms(2), of _ t "ReturnedRecv None"]) simp_all
  next
    case (returned t r q')
    then show ?thesis using early [of t]
      by (intro promise_internal [OF assms(2), of _ t "ReturnedRecv r"]) (auto simp: takes_def)
  next
    case (ready t r)
    then show ?thesis using promise_inv_set [OF assms(2), of t] peek_unset [of t "sys_set s"]
      by (intro promise_internal [OF assms(2), of _ t "ReturnedRecv r"]) auto
  next
    case (giveup t)
    then show ?thesis using waiter [of t]
      by (intro promise_internal [OF assms(2), of _ t "ReturnedRecv None"]) auto
  qed
qed

lemma peek_promised: "promise_inv s \<Longrightarrow> peek (sys_set s) t = Some r \<Longrightarrow> promised s t r"
  by (simp add: promised_def promise_inv_def ledger_def peek_Some_iff)

lemma served_inv_step:
  assumes "mq_step peek s s'" "served_inv s" "promise_inv s"
  shows "served_inv s'"
  using assms(1)
proof (cases rule: mq_step_shape)
  case (internal t c)
  then have "promised s' = promised s" by (intro ext promised_same [of _ _ t c]) simp_all
  then show ?thesis using internal assms(2) by (auto simp: served_inv_def dest: suspended_not_early)
next
  case (expire t c)
  then have "promised s' = promised s" by (intro ext promised_same [of _ _ t c]) auto
  moreover have "t \<in> wset s \<or> (\<exists>r. promised s t r)"
    using expire assms(2) unfolding served_inv_def by (metis suspended.simps(2,3))
  ultimately show ?thesis using expire assms(2) by (auto simp: served_inv_def)
next
  case (queued t v)
  then have "promised s' = promised s" by (intro ext promised_same [of _ _ t "ReturnedSend True"]) simp_all
  then show ?thesis using queued assms(2) by (auto simp: served_inv_def)
next
  case (hand t v w ws)
  then have "promised s' = (\<lambda>x r. promised s x r \<or> (x, r) \<in> set (owes (SetWaiter w v)))"
    by (intro ext promised_owe [of _ _ t "SetWaiter w v"]) simp_all
  then show ?thesis using hand assms(2) by (fastforce simp: served_inv_def)
next
  case (close_all t)
  then have "promised s' = (\<lambda>x r. promised s x r \<or> (x, r) \<in> set (owes (SetClosed (mq_waiters (sys_q s)))))"
    by (intro ext promised_owe [of _ _ t]) simp_all
  then show ?thesis using close_all assms(2) by (fastforce simp: served_inv_def)
next
  case (settle t c w r)
  then have "promised s' = promised s" by (intro ext promised_settle [of _ _ t c "(w, r)"]) simp_all
  then show ?thesis using settle assms(2) by (auto simp: served_inv_def dest: suspended_not_early)
next
  case (register t c)
  then have "promised s' = promised s" by (intro ext promised_same [of _ _ t c]) auto
  then show ?thesis using register assms(2) by (auto simp: served_inv_def)
next
  case (withdraw t)
  then have "promised s' = promised s" by (intro ext promised_same [of _ _ t "ReturnedRecv None"]) auto
  then show ?thesis using withdraw assms(2) by (auto simp: served_inv_def)
next
  case (returned t r q')
  then have "promised s' = promised s" by (intro ext promised_same [of _ _ t "ReturnedRecv r"]) auto
  then show ?thesis using returned assms(2) by (auto simp: served_inv_def takes_def)
next
  case (ready t r)
  then have "promised s' = promised s" by (intro ext promised_same [of _ _ t "ReturnedRecv r"]) auto
  then show ?thesis using ready assms(2) by (auto simp: served_inv_def)
next
  case (giveup t)
  then have "promised s' = promised s" by (intro ext promised_same [of _ _ t "ReturnedRecv None"]) auto
  then show ?thesis using giveup assms(2) by (auto simp: served_inv_def)
qed

lemma taken_invD:
  assumes "taken_inv s"
  shows "distinct (map fst (sys_taken s))"
    and "promised s t (Some v) \<Longrightarrow> (t, v) \<in> set (sys_taken s)"
    and "sys_pc s t = ReturnedRecv (Some v) \<Longrightarrow> (t, v) \<in> set (sys_taken s)"
    and "promised s t None \<Longrightarrow> (t, v) \<notin> set (sys_taken s)"
    and "t \<in> wset s \<Longrightarrow> (t, v) \<notin> set (sys_taken s)"
    and "early (sys_pc s t) \<Longrightarrow> (t, v) \<notin> set (sys_taken s)"
    and "sys_call s t \<noteq> CRecvFor \<Longrightarrow> sys_pc s t = ReturnedRecv None \<Longrightarrow> (t, v) \<notin> set (sys_taken s)"
    and "(t, v) \<in> set (sys_taken s) \<Longrightarrow> promised s t (Some v) \<or> sys_pc s t = ReturnedRecv (Some v) \<or>
      sys_call s t = CRecvFor"
    and "sys_pc s t \<in> {InWaitFor, Expired, Recheck} \<Longrightarrow> sys_call s t = CRecvFor"
  using assms unfolding taken_inv_def by blast+

lemma taken_invI:
  assumes "distinct (map fst (sys_taken s))"
    and "\<And>t v. promised s t (Some v) \<Longrightarrow> (t, v) \<in> set (sys_taken s)"
    and "\<And>t v. sys_pc s t = ReturnedRecv (Some v) \<Longrightarrow> (t, v) \<in> set (sys_taken s)"
    and "\<And>t v. promised s t None \<Longrightarrow> (t, v) \<notin> set (sys_taken s)"
    and "\<And>t v. t \<in> wset s \<Longrightarrow> (t, v) \<notin> set (sys_taken s)"
    and "\<And>t v. early (sys_pc s t) \<Longrightarrow> (t, v) \<notin> set (sys_taken s)"
    and "\<And>t v. sys_call s t \<noteq> CRecvFor \<Longrightarrow> sys_pc s t = ReturnedRecv None \<Longrightarrow> (t, v) \<notin> set (sys_taken s)"
    and "\<And>t v. (t, v) \<in> set (sys_taken s) \<Longrightarrow> promised s t (Some v) \<or> sys_pc s t = ReturnedRecv (Some v) \<or>
      sys_call s t = CRecvFor"
    and "\<And>t. sys_pc s t \<in> {InWaitFor, Expired, Recheck} \<Longrightarrow> sys_call s t = CRecvFor"
  shows "taken_inv s"
  using assms unfolding taken_inv_def by blast

lemma not_promised:
  assumes "promise_inv s"
  shows "early (sys_pc s t) \<Longrightarrow> \<not> promised s t r" "t \<in> wset s \<Longrightarrow> \<not> promised s t r"
proof -
  have "promised s t r \<Longrightarrow> \<not> early (sys_pc s t) \<and> t \<notin> wset s"
    using assms unfolding promised_def promise_inv_def ledger_def set_map by (metis fst_conv image_eqI)
  then show "early (sys_pc s t) \<Longrightarrow> \<not> promised s t r" "t \<in> wset s \<Longrightarrow> \<not> promised s t r" by blast+
qed

lemma taken_inv_step:
  assumes "mq_step peek s s'" "taken_inv s" "promise_inv s" "fifo_inv s"
  shows "taken_inv s'"
proof -
  note d = taken_invD [OF assms(2)] and np = not_promised [OF assms(3)]
  have dist: "distinct (mq_waiters (sys_q s))" using assms(4) by (simp add: fifo_inv_def mq_inv_def)
  from assms(1) show ?thesis
  proof (cases rule: mq_step_shape)
    case (internal t c)
    then have "promised s' = promised s" by (intro ext promised_same [of _ _ t c]) simp_all
    then show ?thesis using internal d by (intro taken_invI) (auto split: if_splits dest: d(8))
  next
    case (expire t c)
    then have "promised s' = promised s" by (intro ext promised_same [of _ _ t c]) auto
    then show ?thesis using expire d by (intro taken_invI) (auto split: if_splits dest: d(8))
  next
    case (queued t v)
    then have "promised s' = promised s" by (intro ext promised_same [of _ _ t "ReturnedSend True"]) simp_all
    then show ?thesis using queued d by (intro taken_invI) (auto split: if_splits dest: d(8))
  next
    case (hand t v w ws)
    then have "promised s' = (\<lambda>x r. promised s x r \<or> (x, r) \<in> set (owes (SetWaiter w v)))"
      by (intro ext promised_owe [of _ _ t "SetWaiter w v"]) simp_all
    then show ?thesis using hand d np(2) [of w] dist promise_inv_waiter [OF assms(3), of w]
        suspended_not_early [of "sys_pc s w"]
      by (intro taken_invI) (auto split: if_splits dest: d(8))
  next
    case (close_all t)
    then have "promised s' = (\<lambda>x r. promised s x r \<or> (x, r) \<in> set (owes (SetClosed (mq_waiters (sys_q s)))))"
      by (intro ext promised_owe [of _ _ t]) simp_all
    then show ?thesis using close_all d by (intro taken_invI) (auto split: if_splits dest: d(8))
  next
    case (settle t c w r)
    then have "promised s' = promised s" by (intro ext promised_settle [of _ _ t c "(w, r)"]) simp_all
    then show ?thesis using settle d by (intro taken_invI) (auto split: if_splits dest: d(8))
  next
    case (register t c)
    then have "promised s' = promised s" by (intro ext promised_same [of _ _ t c]) auto
    then show ?thesis using register d by (intro taken_invI) (auto split: if_splits dest: d(8))
  next
    case (withdraw t)
    then have "promised s' = promised s" by (intro ext promised_same [of _ _ t "ReturnedRecv None"]) auto
    then show ?thesis using withdraw d dist by (intro taken_invI) (auto split: if_splits dest: d(8))
  next
    case (returned t r q')
    then have "promised s' = promised s" by (intro ext promised_same [of _ _ t "ReturnedRecv r"]) auto
    then show ?thesis using returned d np(1) [of t] promise_inv_early [OF assms(3), of t]
      by (intro taken_invI) (auto simp: takes_def split: if_splits option.splits dest: d(8))
  next
    case (ready t r)
    then have "promised s' = promised s" by (intro ext promised_same [of _ _ t "ReturnedRecv r"]) auto
    then show ?thesis using ready d peek_promised [OF assms(3), of t r]
      by (intro taken_invI) (auto split: if_splits dest: d(8))
  next
    case (giveup t)
    then have "promised s' = promised s" by (intro ext promised_same [of _ _ t "ReturnedRecv None"]) auto
    then show ?thesis using giveup d by (intro taken_invI) (auto split: if_splits dest: d(8))
  qed
qed

lemma mq_reachable_invs:
  "mq_reachable peek s \<Longrightarrow> fifo_inv s \<and> promise_inv s \<and> served_inv s \<and> taken_inv s"
proof (induction rule: mq_reachable.induct)
  case (start calls)
  show ?case
    by (auto simp: mq_sys_init_def fifo_inv_def promise_inv_def ledger_def served_inv_def taken_inv_def
        promised_def mq_init_def mq_inv_def)
next
  case (step s s')
  then show ?case
    using fifo_inv_step promise_inv_step served_inv_step taken_inv_step by blast
qed

lemma settings_once: "mq_reachable peek s \<Longrightarrow> distinct (map fst (sys_set s))"
  using mq_reachable_invs [of s] by (auto simp: promise_inv_def ledger_def)

lemma delivered_fifo:
  assumes "mq_reachable peek s"
  shows "sys_sent s = map snd (sys_taken s) @ mq_queue (sys_q s)"
    and "distinct (map fst (sys_taken s))"
    and "sys_pc s t = ReturnedRecv (Some v) \<Longrightarrow> (t, v) \<in> set (sys_taken s)"
proof -
  have inv: "fifo_inv s" "taken_inv s" using mq_reachable_invs [OF assms] by auto
  show "sys_sent s = map snd (sys_taken s) @ mq_queue (sys_q s)" using inv(1) by (simp add: fifo_inv_def)
  show "distinct (map fst (sys_taken s))" using inv(2) by (rule taken_invD)
  show "sys_pc s t = ReturnedRecv (Some v) \<Longrightarrow> (t, v) \<in> set (sys_taken s)" using inv(2) by (rule taken_invD)
qed

lemma taken_is_received:
  assumes "mq_reachable peek s" "(t, v) \<in> set (sys_taken s)" "sys_call s t \<noteq> CRecvFor"
    and "sys_pc s t = ReturnedRecv r"
  shows "r = Some v"
proof (cases r)
  case None
  have "taken_inv s" using mq_reachable_invs [OF assms(1)] by simp
  from taken_invD(7) [OF this assms(3), of v] show ?thesis using None assms(2,4) by simp
next
  case (Some x)
  then have "(t, x) \<in> set (sys_taken s)" using delivered_fifo(3) [OF assms(1)] assms(4) by simp
  then show ?thesis using assms(2) delivered_fifo(2) [OF assms(1)] Some
    by (metis eq_key_imp_eq_value)
qed

lemma closed_wakes_all:
  assumes "mq_reachable peek s" "mq_closed (sys_q s)" "\<And>u. owes (sys_pc s u) = []"
    and "suspended (sys_pc s t)"
  shows "\<exists>r. peek (sys_set s) t = Some r"
proof -
  have inv: "fifo_inv s" "promise_inv s" "served_inv s" using mq_reachable_invs [OF assms(1)] by auto
  have "t \<notin> wset s" using inv(1) assms(2) by (simp add: fifo_inv_def mq_inv_def)
  then obtain r where "promised s t r" using inv(3) assms(4) unfolding served_inv_def by blast
  then have "(t, r) \<in> set (sys_set s)" using assms(3) by (simp add: promised_def)
  then show ?thesis using settings_once [OF assms(1)] peek_Some_iff by blast
qed

end

interpretation mqf: mq_futures "map_of :: (pid \<times> 'v option) list \<Rightarrow> pid \<Rightarrow> 'v option option"
  by unfold_locales

subsection \<open>Two runs\<close>

text \<open>A fiber suspends in \<open>recv\<close>; the queue is closed and the closing thread sets its promise.\<close>

definition close_run_calls :: "nat \<Rightarrow> nat mq_call" where
  "close_run_calls t = (if t = 0 then CRecv else CClose)"

definition close_run_end :: "nat mq_sys" where
  "close_run_end =
     \<lparr>sys_q = \<lparr>mq_queue = [], mq_closed = True, mq_waiters = []\<rparr>, sys_call = close_run_calls,
      sys_pc = (\<lambda>_. NotCalled)(0 := InGet, 1 := ReturnedClose), sys_set = [(0, None)], sys_sent = [],
      sys_taken = []\<rparr>"

lemma close_run: "mq_reachable map_of close_run_end"
proof -
  define s0 where "s0 = mq_sys_init close_run_calls"
  define s1 where "s1 = at_pc 0 Calling s0"
  define s2 where "s2 = at_pc 0 InGet (s1\<lparr>sys_q := (sys_q s1)\<lparr>mq_waiters := [0]\<rparr>\<rparr>)"
  define s3 where "s3 = at_pc 1 Calling s2"
  define s4 where "s4 = at_pc 1 (SetClosed [0]) (s3\<lparr>sys_q := (sys_q s3)\<lparr>mq_closed := True, mq_waiters := []\<rparr>\<rparr>)"
  define s5 where "s5 = at_pc 1 (SetClosed []) (s4\<lparr>sys_set := [(0, None)]\<rparr>)"
  note d = s0_def s1_def s2_def s3_def s4_def s5_def mq_sys_init_def close_run_calls_def mq_init_def
    section_eqs
  note st = mq_reachable.step [where peek = map_of]
  have "mq_reachable map_of s0" unfolding s0_def by (rule mq_reachable.start)
  then have "mq_reachable map_of s1" by (rule st) (simp add: s1_def mq_step.call d)
  then have "mq_reachable map_of s2" by (rule st) (use mq_step.recv_suspend [of s1 0] in \<open>simp add: d\<close>)
  then have "mq_reachable map_of s3" by (rule st) (use mq_step.call [of s2 1] in \<open>simp add: d\<close>)
  then have "mq_reachable map_of s4" by (rule st) (use mq_step.close_first [of s3 1] in \<open>simp add: d\<close>)
  then have "mq_reachable map_of s5" by (rule st) (use mq_step.set_closed [of s4 1 0] in \<open>simp add: d\<close>)
  then have "mq_reachable map_of (at_pc 1 ReturnedClose s5)"
    by (rule st) (use mq_step.close_done [of s5 1] in \<open>simp add: d\<close>)
  then show ?thesis by (simp add: d close_run_end_def at_pc_def)
qed

text \<open>A fiber suspends in \<open>recv\<close>, a sender hands it 7 and the fiber returns with it.\<close>

definition send_run_calls :: "nat \<Rightarrow> nat mq_call" where
  "send_run_calls t = (if t = 0 then CRecv else CSend 7)"

definition send_run_end :: "nat mq_sys" where
  "send_run_end =
     \<lparr>sys_q = mq_init, sys_call = send_run_calls,
      sys_pc = (\<lambda>_. NotCalled)(0 := ReturnedRecv (Some 7), 1 := ReturnedSend True),
      sys_set = [(0, Some 7)], sys_sent = [7], sys_taken = [(0, 7)]\<rparr>"

lemma send_run: "mq_reachable map_of send_run_end"
proof -
  define s0 where "s0 = mq_sys_init send_run_calls"
  define s1 where "s1 = at_pc 0 Calling s0"
  define s2 where "s2 = at_pc 0 InGet (s1\<lparr>sys_q := (sys_q s1)\<lparr>mq_waiters := [0]\<rparr>\<rparr>)"
  define s3 where "s3 = at_pc 1 Calling s2"
  define s4 where "s4 = at_pc 1 (SetWaiter 0 7) (s3\<lparr>sys_q := mq_init, sys_sent := [7], sys_taken := [(0, 7)]\<rparr>)"
  define s5 where "s5 = at_pc 1 (ReturnedSend True) (s4\<lparr>sys_set := [(0, Some 7)]\<rparr>)"
  note d = s0_def s1_def s2_def s3_def s4_def s5_def mq_sys_init_def send_run_calls_def mq_init_def
    section_eqs
  note st = mq_reachable.step [where peek = map_of]
  have "mq_reachable map_of s0" unfolding s0_def by (rule mq_reachable.start)
  then have "mq_reachable map_of s1" by (rule st) (simp add: s1_def mq_step.call d)
  then have "mq_reachable map_of s2" by (rule st) (use mq_step.recv_suspend [of s1 0] in \<open>simp add: d\<close>)
  then have "mq_reachable map_of s3" by (rule st) (use mq_step.call [of s2 1] in \<open>simp add: d\<close>)
  then have "mq_reachable map_of s4" by (rule st) (use mq_step.send_hand [of s3 1 7 0] in \<open>simp add: d\<close>)
  then have "mq_reachable map_of s5" by (rule st) (use mq_step.set_waiter [of s4 1 0 7] in \<open>simp add: d\<close>)
  then have "mq_reachable map_of (at_pc 0 (ReturnedRecv (Some 7)) s5)"
    by (rule st) (use mq_step.get_ready [of s5 0 map_of "Some 7"] in \<open>simp add: d\<close>)
  then show ?thesis by (simp add: d send_run_end_def at_pc_def fun_upd_twist)
qed

text \<open>
  \<open>recv_for\<close> times out; before it takes the lock again a sender removes its promise from the waiters;
  the receiver does not find the promise, finds the future not ready and gives up; then the sender
  sets the promise.
\<close>

definition lost_run_calls :: "'v \<Rightarrow> nat \<Rightarrow> 'v mq_call" where
  "lost_run_calls v t = (if t = 0 then CRecvFor else CSend v)"

definition lost_run_end :: "'v \<Rightarrow> 'v mq_sys" where
  "lost_run_end v =
     \<lparr>sys_q = mq_init, sys_call = lost_run_calls v,
      sys_pc = (\<lambda>_. NotCalled)(0 := ReturnedRecv None, 1 := ReturnedSend True),
      sys_set = [(0, Some v)], sys_sent = [v], sys_taken = [(0, v)]\<rparr>"

context mq_futures
begin

lemma lost_run: "mq_reachable peek (lost_run_end v)"
proof -
  define s0 where "s0 = mq_sys_init (lost_run_calls v)"
  define s1 where "s1 = at_pc 0 Calling s0"
  define s2 where "s2 = at_pc 0 InWaitFor (s1\<lparr>sys_q := (sys_q s1)\<lparr>mq_waiters := [0]\<rparr>\<rparr>)"
  define s3 where "s3 = at_pc 0 Expired s2"
  define s4 where "s4 = at_pc 1 Calling s3"
  define s5 where "s5 = at_pc 1 (SetWaiter 0 v) (s4\<lparr>sys_q := mq_init, sys_sent := [v], sys_taken := [(0, v)]\<rparr>)"
  define s6 where "s6 = at_pc 0 Recheck (s5\<lparr>sys_q := mq_init\<rparr>)"
  define s7 where "s7 = at_pc 0 (ReturnedRecv None) s6"
  define s8 where "s8 = at_pc 1 (ReturnedSend True) (s7\<lparr>sys_set := [(0, Some v)]\<rparr>)"
  note d = s0_def s1_def s2_def s3_def s4_def s5_def s6_def s7_def s8_def mq_sys_init_def
    lost_run_calls_def mq_init_def section_eqs
  note st = mq_reachable.step [where peek = peek]
  have n: "peek [] 0 = None" by (simp add: peek_unset)
  have "mq_reachable peek s0" unfolding s0_def by (rule mq_reachable.start)
  then have "mq_reachable peek s1" by (rule st) (simp add: s1_def mq_step.call d)
  then have "mq_reachable peek s2" by (rule st) (use mq_step.recv_for_suspend [of s1 0] in \<open>simp add: d\<close>)
  then have "mq_reachable peek s3" by (rule st) (use mq_step.wait_timeout [of s2 0 peek] n in \<open>simp add: d\<close>)
  then have "mq_reachable peek s4" by (rule st) (use mq_step.call [of s3 1] in \<open>simp add: d\<close>)
  then have "mq_reachable peek s5" by (rule st) (use mq_step.send_hand [of s4 1 v 0] in \<open>simp add: d\<close>)
  then have "mq_reachable peek s6" by (rule st) (use mq_step.expire_missed [of s5 0] in \<open>simp add: d\<close>)
  then have "mq_reachable peek s7" by (rule st) (use mq_step.recheck_empty [of s6 0 peek] n in \<open>simp add: d\<close>)
  then have "mq_reachable peek s8" by (rule st) (use mq_step.set_waiter [of s7 1 0 v] in \<open>simp add: d\<close>)
  then show ?thesis by (simp add: d lost_run_end_def at_pc_def fun_upd_twist)
qed

end

subsection \<open>Properties\<close>

text \<open>
  C1. Under every interleaving, the payloads accepted by \<open>send\<close> are exactly the payloads
  assigned to receivers followed by the queued ones, in the order of acceptance; a receiver is
  assigned at most one payload and returns no other.
\<close>

theorem mq_exactly_once_fifo:
  assumes "mq_futures peek" "mq_reachable peek s"
  shows "sys_sent s = map snd (sys_taken s) @ mq_queue (sys_q s) \<and> distinct (map fst (sys_taken s)) \<and>
    (\<forall>t v. sys_pc s t = ReturnedRecv (Some v) \<longrightarrow> (t, v) \<in> set (sys_taken s))"
  using mq_futures.delivered_fifo [OF assms] by blast

theorem mq_exactly_once_fifo_witness:
  "sys_sent send_run_end = map snd (sys_taken send_run_end) @ mq_queue (sys_q send_run_end) \<and>
   sys_taken send_run_end = [(0, 7)]"
  using mq_exactly_once_fifo [OF mqf.mq_futures_axioms send_run] by (simp add: send_run_end_def)

text \<open>
  C2. No payload assigned to a receiver is lost unless the receiver called \<open>recv_for\<close>: when \<open>recv\<close>,
  \<open>recv_blocking\<close>, \<open>recv_blocking_for\<close> or \<open>try_recv\<close> returns, it returns the payload assigned to it.
\<close>

theorem mq_assigned_is_returned:
  assumes "mq_futures peek" "mq_reachable peek s" "(t, v) \<in> set (sys_taken s)"
    and "sys_call s t \<noteq> CRecvFor" "sys_pc s t = ReturnedRecv r"
  shows "r = Some v"
  using mq_futures.taken_is_received [OF assms] .

theorem mq_assigned_is_returned_witness:
  "(0, 7) \<in> set (sys_taken send_run_end) \<and> sys_pc send_run_end 0 = ReturnedRecv (Some 7)"
  using mq_assigned_is_returned [OF mqf.mq_futures_axioms send_run, of 0 7 "Some 7"]
  by (simp add: send_run_end_def send_run_calls_def)

text \<open>
  C3. No promise is set twice, by any sender or closer, so \<open>set_value\<close> never throws
  \<open>promise_already_satisfied\<close>.
\<close>

theorem mq_promise_set_once:
  assumes "mq_futures peek" "mq_reachable peek s"
  shows "distinct (map fst (sys_set s))"
  using mq_futures.settings_once [OF assms] .

theorem mq_promise_set_once_witness: "distinct (map fst (sys_set send_run_end)) \<and> sys_set send_run_end \<noteq> []"
  using mq_promise_set_once [OF mqf.mq_futures_axioms send_run] by (simp add: send_run_end_def)

text \<open>
  C4. Closing wakes everyone: once the queue is closed and no sender or closer is between its
  critical section and its \<open>set_value\<close>, the future of every suspended receiver is ready.
\<close>

theorem mq_close_wakes_all:
  assumes "mq_futures peek" "mq_reachable peek s" "mq_closed (sys_q s)" "\<And>u. owes (sys_pc s u) = []"
    and "suspended (sys_pc s t)"
  shows "\<exists>r. peek (sys_set s) t = Some r"
  using mq_futures.closed_wakes_all [OF assms] .

theorem mq_close_wakes_all_witness:
  "sys_pc close_run_end 0 = InGet \<and> (\<exists>r. map_of (sys_set close_run_end) 0 = Some r)"
  using mq_close_wakes_all [OF mqf.mq_futures_axioms close_run, of 0]
  by (simp add: close_run_end_def)

text \<open>
  \<open>recv_for\<close> can lose a payload: there is a run in which \<open>send(v)\<close> returns true, every
  invocation has returned, the queue is empty, and no receiver returned \<open>v\<close>.
\<close>

theorem mq_recv_for_loses_payload:
  assumes "mq_futures peek"
  shows "\<exists>s. mq_reachable peek s \<and> sys_call s 1 = CSend v \<and> sys_pc s 1 = ReturnedSend True \<and>
    sys_call s 0 = CRecvFor \<and> sys_pc s 0 = ReturnedRecv None \<and> (\<forall>t. t \<notin> {0, 1} \<longrightarrow> sys_pc s t = NotCalled) \<and>
    mq_queue (sys_q s) = []"
  using mq_futures.lost_run [OF assms, of v]
  by (intro exI [of _ "lost_run_end v"]) (simp add: lost_run_end_def lost_run_calls_def mq_init_def)

theorem mq_recv_for_loses_payload_witness:
  "\<exists>s :: nat mq_sys. mq_reachable map_of s \<and> sys_pc s 1 = ReturnedSend True \<and> sys_pc s 0 = ReturnedRecv None"
  using mq_recv_for_loses_payload [OF mqf.mq_futures_axioms, of 5] by blast

end
