(* ===== verification/Ipc_Channel.thy ===== *)
theory Ipc_Channel
  imports Prelude
begin

text \<open>
  \<open>ipc::ProcessChannel\<close> (src/ipc.cpp, include/fiberuv/fiberuv.hpp): frames over a pair of pipes. A
  frame is the payload size as the object representation of a \<open>std::uint64_t\<close>, then the payload.

  The operating system is a parameter: a state \<open>'os\<close> and the functions of the record \<open>ipc_env\<close>, one per
  libuv call. A call that libuv refuses to start yields \<open>Inl rc\<close>, otherwise \<open>Inr\<close> of the result the
  callback reports. The loops \<open>write_exact\<close> and \<open>read_exact\<close> retry for as long as the system answers
  \<open>UV_EINTR\<close> or \<open>UV_EAGAIN\<close>, so they are partial functions into \<open>option\<close>, \<open>None\<close> meaning that they do
  not return. The locale \<open>ipc_pipe\<close> states what a pipe promises; its lemmas show that the loops
  return and move exactly the bytes asked for, however the system splits the transfers.
\<close>

record 'os ipc_env =
  env_write :: "int \<Rightarrow> byte list \<Rightarrow> 'os \<Rightarrow> (int + int) \<times> 'os"
  env_read :: "int \<Rightarrow> nat \<Rightarrow> 'os \<Rightarrow> (int + int \<times> byte list) \<times> 'os"
  env_pipe :: "'os \<Rightarrow> (int + int \<times> int) \<times> 'os"

text \<open>\<open>fs_write_once\<close>, \<open>fs_read_once\<close>: an empty request returns 0 without a system call.\<close>

definition fs_write_once :: "'os ipc_env \<Rightarrow> int \<Rightarrow> byte list \<Rightarrow> ('os, int) closure" where
  "fs_write_once env fd data os =
     (if data = [] then (Inr 0, False, os)
      else case env_write env fd data os of
        (Inl rc, os') \<Rightarrow> (Inl (uv_error ''uv_fs_write(start)'' rc), False, os')
      | (Inr result, os') \<Rightarrow> (Inr result, True, os'))"

definition fs_read_once :: "'os ipc_env \<Rightarrow> int \<Rightarrow> nat \<Rightarrow> ('os, int \<times> byte list) closure" where
  "fs_read_once env fd sz os =
     (if sz = 0 then (Inr (0, []), False, os)
      else case env_read env fd sz os of
        (Inl rc, os') \<Rightarrow> (Inl (uv_error ''uv_fs_read(start)'' rc), False, os')
      | (Inr result, os') \<Rightarrow> (Inr result, True, os'))"

definition kChunkBytes :: nat where
  "kChunkBytes = 64 * 1024"

partial_function (option) write_exact ::
  "uv_codes \<Rightarrow> 'os ipc_env \<Rightarrow> bool \<Rightarrow> int \<Rightarrow> byte list \<Rightarrow> nat \<Rightarrow> 'os \<Rightarrow> ((err + bool) \<times> 'os) option" where
  "write_exact c env on_loop fd data offset os =
     (if offset < length data then
        (let chunk = min kChunkBytes (length data - offset) in
         Option.bind (invoke_on_loop on_loop (fs_write_once env fd (take chunk (drop offset data))) os)
           (\<lambda>(r, os').
             (case r of
                Inl ex \<Rightarrow> Some (Inl ex, os')
              | Inr wrote \<Rightarrow>
                  (if wrote > 0 then write_exact c env on_loop fd data (offset + nat wrote) os'
                   else if wrote = 0 \<or> wrote = uv_epipe c \<or> wrote = uv_econnreset c \<or> wrote = uv_eof c
                   then Some (Inr False, os')
                   else if wrote = uv_eintr c \<or> wrote = uv_eagain c
                   then write_exact c env on_loop fd data offset os'
                   else Some (Inl (uv_error ''uv_fs_write'' wrote), os')))))
      else Some (Inr True, os))"

text \<open>The memory \<open>[data, data + size)\<close> is the list \<open>buf\<close>; a transfer overwrites a slice of it.\<close>

definition store :: "byte list \<Rightarrow> nat \<Rightarrow> byte list \<Rightarrow> byte list" where
  "store buf offset bs = take offset buf @ bs @ drop (offset + length bs) buf"

partial_function (option) read_exact ::
  "uv_codes \<Rightarrow> 'os ipc_env \<Rightarrow> bool \<Rightarrow> int \<Rightarrow> byte list \<Rightarrow> bool \<Rightarrow> nat \<Rightarrow> 'os \<Rightarrow>
   ((err + bool) \<times> byte list \<times> 'os) option" where
  "read_exact c env on_loop fd buf allow_eof_at_start offset os =
     (if offset < length buf then
        (let chunk = min kChunkBytes (length buf - offset) in
         Option.bind (invoke_on_loop on_loop (fs_read_once env fd chunk) os)
           (\<lambda>(r, os').
             (case r of
                Inl ex \<Rightarrow> Some (Inl ex, buf, os')
              | Inr nb \<Rightarrow>
                  (if fst nb > 0
                   then read_exact c env on_loop fd (store buf offset (snd nb)) allow_eof_at_start
                          (offset + nat (fst nb)) os'
                   else if fst nb = 0 \<or> fst nb = uv_eof c
                   then (if allow_eof_at_start \<and> offset = 0 then Some (Inr False, buf, os')
                         else Some (Inl (RuntimeError ''ipc recv truncated payload''), buf, os'))
                   else if fst nb = uv_eintr c \<or> fst nb = uv_eagain c
                   then read_exact c env on_loop fd buf allow_eof_at_start offset os'
                   else Some (Inl (uv_error ''uv_fs_read'' (fst nb)), buf, os')))))
      else Some (Inr True, buf, os))"

text \<open>
  The object representation of a \<open>std::uint64_t\<close>: its eight bytes, least significant first on a
  little-endian machine, reversed on a big-endian one.
\<close>

fun le_encode :: "nat \<Rightarrow> 64 word \<Rightarrow> byte list" where
  "le_encode 0 w = []"
| "le_encode (Suc k) w = ucast w # le_encode k (drop_bit 8 w)"

fun le_decode :: "byte list \<Rightarrow> 64 word" where
  "le_decode [] = 0"
| "le_decode (b # bs) = or (ucast b) (push_bit 8 (le_decode bs))"

definition u64_bytes :: "bool \<Rightarrow> 64 word \<Rightarrow> byte list" where
  "u64_bytes little w = (if little then le_encode 8 w else rev (le_encode 8 w))"

definition bytes_u64 :: "bool \<Rightarrow> byte list \<Rightarrow> 64 word" where
  "bytes_u64 little bs = le_decode (if little then bs else rev bs)"

text \<open>
  The channel object. \<open>pch_loop\<close> is \<open>None\<close> for the null pointer. The lifetime token is read when an
  operation checks it, so its reading is an argument of the operations.
\<close>

record channel =
  pch_loop :: "nat option"
  pch_read_fd :: int
  pch_write_fd :: int

definition default_channel :: channel where
  "default_channel = \<lparr>pch_loop = None, pch_read_fd = -1, pch_write_fd = -1\<rparr>"

definition channel_usable :: "loop_lifetime_token \<Rightarrow> channel \<Rightarrow> bool" where
  "channel_usable token ch \<longleftrightarrow>
     \<not> (\<not> is_loop_alive token \<or> pch_loop ch = None \<or> pch_read_fd ch < 0 \<or> pch_write_fd ch < 0)"

definition valid :: "loop_lifetime_token \<Rightarrow> channel \<Rightarrow> bool" where
  "valid token ch \<longleftrightarrow> pch_loop ch \<noteq> None \<and> is_loop_alive token \<and> pch_read_fd ch \<ge> 0 \<and> pch_write_fd ch \<ge> 0"

definition size_max :: nat where
  "size_max = 2 ^ 64 - 1"

definition send_blob ::
  "uv_codes \<Rightarrow> 'os ipc_env \<Rightarrow> bool \<Rightarrow> bool \<Rightarrow> loop_lifetime_token \<Rightarrow> channel \<Rightarrow> byte list \<Rightarrow> 'os \<Rightarrow>
   ((err + bool) \<times> 'os) option" where
  "send_blob c env on_loop little token ch data os =
     (if \<not> channel_usable token ch then Some (Inl (RuntimeError ''invalid ipc process channel''), os)
      else if length data > size_max then Some (Inl (RuntimeError ''ipc send_blob payload too large''), os)
      else let frame_size = word_of_nat (length data) :: 64 word in
        Option.bind (write_exact c env on_loop (pch_write_fd ch) (u64_bytes little frame_size) 0 os)
          (\<lambda>(r, os1). case r of
             Inl ex \<Rightarrow> Some (Inl ex, os1)
           | Inr False \<Rightarrow> Some (Inr False, os1)
           | Inr True \<Rightarrow>
               (if length data = 0 then Some (Inr True, os1)
                else write_exact c env on_loop (pch_write_fd ch) data 0 os1)))"

text \<open>
  \<open>recv_blob\<close>. The vector of \<open>frame_size\<close> bytes is allocated before the payload is read;
  \<open>alloc_limit\<close> is the size beyond which that allocation throws.
\<close>

definition recv_blob ::
  "uv_codes \<Rightarrow> 'os ipc_env \<Rightarrow> bool \<Rightarrow> bool \<Rightarrow> nat \<Rightarrow> loop_lifetime_token \<Rightarrow> channel \<Rightarrow> 'os \<Rightarrow>
   ((err + byte list option) \<times> 'os) option" where
  "recv_blob c env on_loop little alloc_limit token ch os =
     (if \<not> channel_usable token ch then Some (Inl (RuntimeError ''invalid ipc process channel''), os)
      else Option.bind
        (read_exact c env on_loop (pch_read_fd ch) (u64_bytes little 0) True 0 os)
        (\<lambda>(r, frame, os1). case r of
           Inl ex \<Rightarrow> Some (Inl ex, os1)
         | Inr False \<Rightarrow> Some (Inr None, os1)
         | Inr True \<Rightarrow>
             (let frame_size = unat (bytes_u64 little frame) in
              if frame_size > size_max then Some (Inl (RuntimeError ''ipc recv frame too large''), os1)
              else if frame_size > alloc_limit then Some (Inl (RuntimeError ''bad_alloc''), os1)
              else if frame_size = 0 then Some (Inr (Some []), os1)
              else Option.bind
                (read_exact c env on_loop (pch_read_fd ch) (replicate frame_size 0) False 0 os1)
                (\<lambda>(r2, payload, os2). case r2 of
                   Inl ex \<Rightarrow> Some (Inl ex, os2)
                 | Inr b \<Rightarrow> Some (Inr (Some payload), os2)))))"

definition send_stream where
  "send_stream = send_blob"

definition recv_stream where
  "recv_stream = recv_blob"

text \<open>\<open>send<T>\<close> and \<open>recv<T>\<close>: a value of type \<open>T\<close> is its object representation, \<open>sizeof(T)\<close> bytes.\<close>

definition send_typed where
  "send_typed c env on_loop little token ch obj os = send_blob c env on_loop little token ch obj os"

definition recv_typed ::
  "uv_codes \<Rightarrow> 'os ipc_env \<Rightarrow> bool \<Rightarrow> bool \<Rightarrow> nat \<Rightarrow> loop_lifetime_token \<Rightarrow> channel \<Rightarrow> nat \<Rightarrow> 'os \<Rightarrow>
   ((err + byte list option) \<times> 'os) option" where
  "recv_typed c env on_loop little alloc_limit token ch sizeof_T os =
     Option.bind (recv_blob c env on_loop little alloc_limit token ch os)
       (\<lambda>(r, os1). case r of
          Inl ex \<Rightarrow> Some (Inl ex, os1)
        | Inr None \<Rightarrow> Some (Inr None, os1)
        | Inr (Some frame) \<Rightarrow>
            (if length frame \<noteq> sizeof_T
             then Some (Inl (RuntimeError ''ipc recv<T>: payload size mismatch''), os1)
             else Some (Inr (Some frame), os1)))"

text \<open>
  Closing and moving. An effect is a close request for a descriptor, on the channel's loop or on a
  temporary loop; negative descriptors are skipped by both helpers. \<open>close_fd_best_effort\<close> goes through
  \<open>invoke_on_loop\<close> and its closure waits for the callback, so on a foreign thread the request is made
  and the call does not return: \<open>Hangs\<close>, after which nothing more happens.
\<close>

datatype fd_close = CloseOnLoop int | CloseTempLoop int | Hangs

definition then_do :: "fd_close list \<Rightarrow> fd_close list \<Rightarrow> fd_close list" where
  "then_do xs ys = (if Hangs \<in> set xs then xs else xs @ ys)"

definition close_fd_best_effort :: "bool \<Rightarrow> int \<Rightarrow> fd_close list" where
  "close_fd_best_effort on_loop fd =
     (if fd < 0 then [] else CloseOnLoop fd # (if on_loop then [] else [Hangs]))"

definition close_fd_with_temp_loop :: "int \<Rightarrow> fd_close list" where
  "close_fd_with_temp_loop fd = (if fd < 0 then [] else [CloseTempLoop fd])"

definition close_channel :: "bool \<Rightarrow> loop_lifetime_token \<Rightarrow> channel \<Rightarrow> channel \<times> fd_close list" where
  "close_channel on_loop token ch =
     (let loop = pch_loop ch; read_fd = pch_read_fd ch; write_fd = pch_write_fd ch;
          ch' = \<lparr>pch_loop = None, pch_read_fd = -1, pch_write_fd = -1\<rparr>
      in if loop = None then
           (ch', then_do (close_fd_with_temp_loop read_fd)
             (if write_fd \<ge> 0 \<and> write_fd \<noteq> read_fd then close_fd_with_temp_loop write_fd else []))
         else if is_loop_alive token then
           (ch', then_do (close_fd_best_effort on_loop read_fd)
             (if write_fd \<ge> 0 \<and> write_fd \<noteq> read_fd then close_fd_best_effort on_loop write_fd else []))
         else
           (ch', then_do (close_fd_with_temp_loop read_fd)
             (if write_fd \<ge> 0 \<and> write_fd \<noteq> read_fd then close_fd_with_temp_loop write_fd else [])))"

text \<open>The move constructor returns the new object and what is left of the source.\<close>

definition move_construct :: "channel \<Rightarrow> channel \<times> channel" where
  "move_construct other =
     (\<lparr>pch_loop = pch_loop other, pch_read_fd = pch_read_fd other, pch_write_fd = pch_write_fd other\<rparr>,
      other\<lparr>pch_loop := None, pch_read_fd := -1, pch_write_fd := -1\<rparr>)"

definition move_assign ::
  "bool \<Rightarrow> loop_lifetime_token \<Rightarrow> bool \<Rightarrow> channel \<Rightarrow> channel \<Rightarrow> channel \<times> channel \<times> fd_close list" where
  "move_assign on_loop token self this other =
     (if self then (this, other, [])
      else let (_, closes) = close_channel on_loop token this in
        (\<lparr>pch_loop = pch_loop other, pch_read_fd = pch_read_fd other, pch_write_fd = pch_write_fd other\<rparr>,
         other\<lparr>pch_loop := None, pch_read_fd := -1, pch_write_fd := -1\<rparr>, closes))"

definition destroy_channel :: "bool \<Rightarrow> loop_lifetime_token \<Rightarrow> channel \<Rightarrow> fd_close list" where
  "destroy_channel on_loop token ch = snd (close_channel on_loop token ch)"

definition adopt :: "nat \<Rightarrow> int \<Rightarrow> int \<Rightarrow> err + channel" where
  "adopt loop read_fd write_fd =
     (if read_fd < 0 \<or> write_fd < 0
      then Inl (RuntimeError ''ipc::ProcessChannel::adopt requires valid read/write fds'')
      else Inr \<lparr>pch_loop = Some loop, pch_read_fd = read_fd, pch_write_fd = write_fd\<rparr>)"

text \<open>\<open>pair\<close>: \<open>ab\<close> carries A to B, \<open>ba\<close> carries B to A; element 0 of a pipe is its reading end.\<close>

definition pair :: "bool \<Rightarrow> 'os ipc_env \<Rightarrow> nat \<Rightarrow> 'os \<Rightarrow> (err + channel \<times> channel) \<times> fd_close list \<times> 'os" where
  "pair on_loop env loop os =
     (case env_pipe env os of
        (Inl rc_ab, os1) \<Rightarrow> (Inl (uv_error ''uv_pipe(A->B)'' rc_ab), [], os1)
      | (Inr (ab0, ab1), os1) \<Rightarrow>
          (case env_pipe env os1 of
             (Inl rc_ba, os2) \<Rightarrow>
               (Inl (uv_error ''uv_pipe(B->A)'' rc_ba),
                then_do (close_fd_best_effort on_loop ab0) (close_fd_best_effort on_loop ab1), os2)
           | (Inr (ba0, ba1), os2) \<Rightarrow>
               (Inr (\<lparr>pch_loop = Some loop, pch_read_fd = ba0, pch_write_fd = ab1\<rparr>,
                     \<lparr>pch_loop = Some loop, pch_read_fd = ab0, pch_write_fd = ba1\<rparr>), [], os2)))"

text \<open>The specification of the wire format, and a session of several frames.\<close>

definition frame_of :: "bool \<Rightarrow> byte list \<Rightarrow> byte list" where
  "frame_of little data = u64_bytes little (word_of_nat (length data)) @ data"

fun send_frames ::
  "uv_codes \<Rightarrow> 'os ipc_env \<Rightarrow> bool \<Rightarrow> bool \<Rightarrow> loop_lifetime_token \<Rightarrow> channel \<Rightarrow> byte list list \<Rightarrow> 'os \<Rightarrow>
   'os option" where
  "send_frames c env on_loop little token ch [] os = Some os"
| "send_frames c env on_loop little token ch (d # ds) os =
     (case send_blob c env on_loop little token ch d os of
        Some (Inr True, os1) \<Rightarrow> send_frames c env on_loop little token ch ds os1
      | _ \<Rightarrow> None)"

fun recv_frames ::
  "uv_codes \<Rightarrow> 'os ipc_env \<Rightarrow> bool \<Rightarrow> bool \<Rightarrow> nat \<Rightarrow> loop_lifetime_token \<Rightarrow> channel \<Rightarrow> nat \<Rightarrow> 'os \<Rightarrow>
   (byte list list \<times> 'os) option" where
  "recv_frames c env on_loop little alloc_limit token ch 0 os = Some ([], os)"
| "recv_frames c env on_loop little alloc_limit token ch (Suc n) os =
     (case recv_blob c env on_loop little alloc_limit token ch os of
        Some (Inr (Some d), os1) \<Rightarrow>
          map_option (\<lambda>(ds, os2). (d # ds, os2))
            (recv_frames c env on_loop little alloc_limit token ch n os1)
      | _ \<Rightarrow> None)"

subsection \<open>The size header\<close>

lemma length_le_encode [simp]: "length (le_encode k w) = k"
  by (induction k arbitrary: w) simp_all

lemma le_decode_encode: "k \<le> 8 \<Longrightarrow> le_decode (le_encode k w) = take_bit (8 * k) w"
proof (induction k arbitrary: w)
  case 0
  then show ?case by simp
next
  case (Suc k)
  have "or (ucast (ucast w :: 8 word)) (push_bit 8 (take_bit (8 * k) (drop_bit 8 w))) =
      take_bit (8 * Suc k) (w :: 64 word)"
    by (rule bit_word_eqI) (auto simp: bit_simps)
  then show ?case using Suc by simp
qed

lemma length_u64_bytes [simp]: "length (u64_bytes little w) = 8"
  by (simp add: u64_bytes_def)

lemma u64_bytes_neq_Nil [simp]: "u64_bytes little w \<noteq> []"
  by (metis length_0_conv length_u64_bytes zero_neq_numeral)

lemma bytes_u64_u64_bytes [simp]: "bytes_u64 little (u64_bytes little w) = w"
  by (simp add: bytes_u64_def u64_bytes_def le_decode_encode take_bit_word_eq_self)

lemma header_size: "n < 2 ^ 64 \<Longrightarrow> unat (bytes_u64 little (u64_bytes little (word_of_nat n))) = n"
  by (simp add: unat_of_nat)

subsection \<open>One round of the loops\<close>

lemma write_exact_step:
  assumes "offset < length data"
    and "env_write env fd (take (min kChunkBytes (length data - offset)) (drop offset data)) os = (r, os1)"
  shows "write_exact c env True fd data offset os =
    (case r of Inl rc \<Rightarrow> Some (Inl (uv_error ''uv_fs_write(start)'' rc), os1)
     | Inr wrote \<Rightarrow>
        (if wrote > 0 then write_exact c env True fd data (offset + nat wrote) os1
         else if wrote = 0 \<or> wrote = uv_epipe c \<or> wrote = uv_econnreset c \<or> wrote = uv_eof c
         then Some (Inr False, os1)
         else if wrote = uv_eintr c \<or> wrote = uv_eagain c
         then write_exact c env True fd data offset os1
         else Some (Inl (uv_error ''uv_fs_write'' wrote), os1)))"
proof -
  let ?part = "take (min kChunkBytes (length data - offset)) (drop offset data)"
  have "?part \<noteq> []" using assms(1) by (simp add: kChunkBytes_def)
  then have "fs_write_once env fd ?part os =
      (case r of Inl rc \<Rightarrow> (Inl (uv_error ''uv_fs_write(start)'' rc), False, os1) | Inr n \<Rightarrow> (Inr n, True, os1))"
    unfolding fs_write_once_def using assms(2) by (auto split: sum.split)
  then show ?thesis using assms(1) by (subst write_exact.simps) (simp add: Let_def split: sum.split)
qed

lemma write_exact_done: "\<not> offset < length data \<Longrightarrow> write_exact c env True fd data offset os = Some (Inr True, os)"
  by (subst write_exact.simps) simp

lemma read_exact_step:
  assumes "offset < length buf"
    and "env_read env fd (min kChunkBytes (length buf - offset)) os = (r, os1)"
  shows "read_exact c env True fd buf allow offset os =
    (case r of Inl rc \<Rightarrow> Some (Inl (uv_error ''uv_fs_read(start)'' rc), buf, os1)
     | Inr (n, bs) \<Rightarrow>
        (if n > 0 then read_exact c env True fd (store buf offset bs) allow (offset + nat n) os1
         else if n = 0 \<or> n = uv_eof c
         then (if allow \<and> offset = 0 then Some (Inr False, buf, os1)
               else Some (Inl (RuntimeError ''ipc recv truncated payload''), buf, os1))
         else if n = uv_eintr c \<or> n = uv_eagain c
         then read_exact c env True fd buf allow offset os1
         else Some (Inl (uv_error ''uv_fs_read'' n), buf, os1)))"
proof -
  let ?k = "min kChunkBytes (length buf - offset)"
  have "?k \<noteq> 0" using assms(1) by (simp add: kChunkBytes_def)
  then have "fs_read_once env fd ?k os =
      (case r of Inl rc \<Rightarrow> (Inl (uv_error ''uv_fs_read(start)'' rc), False, os1) | Inr nb \<Rightarrow> (Inr nb, True, os1))"
    unfolding fs_read_once_def using assms(2) by (auto split: sum.split)
  note once = this
  show ?thesis
  proof (cases r)
    case (Inl rc)
    then show ?thesis using assms(1) once by (subst read_exact.simps) (simp add: Let_def)
  next
    case (Inr nb)
    obtain n bs where nb: "nb = (n, bs)" by fastforce
    have "fs_read_once env fd ?k os = (Inr (n, bs), True, os1)" using once Inr nb by simp
    then have call: "invoke_on_loop True (fs_read_once env fd ?k) os = Some (Inr (n, bs), os1)" by simp
    show ?thesis unfolding Inr nb sum.case prod.case
      by (subst read_exact.simps)
        (simp only: assms(1) if_True Let_def call Option.bind.simps prod.case sum.case fst_conv snd_conv)
  qed
qed

lemma read_exact_done:
  "\<not> offset < length buf \<Longrightarrow> read_exact c env True fd buf allow offset os = Some (Inr True, buf, os)"
  by (subst read_exact.simps) simp

lemma length_store [simp]:
  "offset + length bs \<le> length buf \<Longrightarrow> length (store buf offset bs) = length buf"
  by (simp add: store_def)

lemma take_store:
  "offset + length bs \<le> length buf \<Longrightarrow> take (offset + length bs) (store buf offset bs) = take offset buf @ bs"
  by (auto simp: store_def)

subsection \<open>What a pipe promises to each of its ends\<close>

text \<open>
  The two ends are used by two processes (or two fibers), each of which sees the system through its own
  calls, between which the other one works. The writer sees \<open>sent os\<close>, all the bytes the pipe has ever
  accepted: a write to an open pipe accepts a non-empty prefix of the request, as soon as the reader has
  made room for it. The reader sees \<open>coming os\<close>, the bytes that are in the pipe or that will still be
  written before the writing ends are closed: a read while there are some returns a non-empty prefix of
  them, as soon as it is there. A read of an empty pipe reports the end of the stream only when
  \<open>hung_up os\<close>, that is when all the writing ends are closed (or will be, with nothing more
  written); nothing is promised of it otherwise, when it blocks. \<open>budget os\<close> bounds how many more times
  the system may answer with a transient status.
\<close>

lemma transient:
  assumes "uv_codes_ok c"
  shows "uv_eintr c < 0" "uv_eagain c < 0"
    "uv_eintr c \<notin> {0, uv_epipe c, uv_econnreset c, uv_eof c}"
    "uv_eagain c \<notin> {0, uv_epipe c, uv_econnreset c, uv_eof c}"
  using assms by (auto simp: uv_codes_ok_def)

locale ipc_writer =
  fixes c :: uv_codes and env :: "'os ipc_env" and wfd :: int
    and sent :: "'os \<Rightarrow> byte list" and budget :: "'os \<Rightarrow> nat"
  assumes codes: "uv_codes_ok c"
    and pipe_write: "data \<noteq> [] \<Longrightarrow> env_write env wfd data os = (r, os') \<Longrightarrow>
      (\<exists>n. r = Inr n \<and> 0 < n \<and> nat n \<le> length data \<and> sent os' = sent os @ take (nat n) data \<and>
         budget os' \<le> budget os) \<or>
      ((r = Inr (uv_eintr c) \<or> r = Inr (uv_eagain c)) \<and> sent os' = sent os \<and> budget os' < budget os)"
begin

lemma write_exact_complete:
  "offset \<le> length data \<Longrightarrow>
   \<exists>os'. write_exact c env True wfd data offset os = Some (Inr True, os') \<and>
     sent os' = sent os @ drop offset data"
proof (induction "length data - offset + budget os" arbitrary: offset os rule: less_induct)
  case less
  show ?case
  proof (cases "offset < length data")
    case False
    then show ?thesis using less.prems by (simp add: write_exact_done)
  next
    case True
    define part where "part = take (min kChunkBytes (length data - offset)) (drop offset data)"
    have part: "part \<noteq> []" using True by (simp add: part_def kChunkBytes_def)
    obtain r os1 where w: "env_write env wfd part os = (r, os1)" by fastforce
    note step = write_exact_step [OF True w [unfolded part_def], of c]
    from pipe_write [OF part w] show ?thesis
    proof (elim disjE exE conjE)
      fix n assume n: "r = Inr n" "0 < n" "nat n \<le> length part" "sent os1 = sent os @ take (nat n) part"
        "budget os1 \<le> budget os"
      have "nat n \<le> min kChunkBytes (length data - offset)" using n(3) by (auto simp: part_def)
      then have "take (nat n) part = take (nat n) (drop offset data)"
        by (simp add: part_def take_take min.absorb1)
      then have "sent os1 @ drop (offset + nat n) data = sent os @ drop offset data"
        using n(4) by (metis append.assoc append_take_drop_id drop_drop add.commute)
      moreover have "offset + nat n \<le> length data" using n(3) True by (auto simp: part_def)
      ultimately show ?thesis
        using less.hyps [of "offset + nat n" os1] n(1,2,5) True step by auto
    qed (use less.hyps [of offset os1] less.prems step transient [OF codes] in auto)
  qed
qed

text \<open>A frame written is the size header followed by the payload.\<close>

lemma send_blob_complete:
  assumes "channel_usable token tx" "pch_write_fd tx = wfd" "length data < 2 ^ 64"
  shows "\<exists>os'. send_blob c env True little token tx data os = Some (Inr True, os') \<and>
    sent os' = sent os @ frame_of little data"
proof -
  obtain os1 where 1: "write_exact c env True wfd (u64_bytes little (word_of_nat (length data))) 0 os =
      Some (Inr True, os1)" "sent os1 = sent os @ u64_bytes little (word_of_nat (length data))"
    using write_exact_complete [of 0 "u64_bytes little (word_of_nat (length data))" os] by auto
  obtain os2 where 2: "write_exact c env True wfd data 0 os1 = Some (Inr True, os2)"
    "sent os2 = sent os1 @ data"
    using write_exact_complete [of 0 data os1] by auto
  have "\<not> size_max < length data" using assms(3) by (simp add: size_max_def)
  then show ?thesis using assms(1,2) 1 2
    by (cases "data = []") (simp_all add: send_blob_def frame_of_def Let_def)
qed

lemma send_frames_complete:
  assumes "channel_usable token tx" "pch_write_fd tx = wfd" "\<forall>d \<in> set ds. length d < 2 ^ 64"
  shows "\<exists>os'. send_frames c env True little token tx ds os = Some os' \<and>
    sent os' = sent os @ concat (map (frame_of little) ds)"
  using assms(3)
proof (induction ds arbitrary: os)
  case (Cons d ds)
  obtain os1 where 1: "send_blob c env True little token tx d os = Some (Inr True, os1)"
    "sent os1 = sent os @ frame_of little d"
    using send_blob_complete [OF assms(1,2)] Cons.prems by force
  then show ?case using Cons.IH [of os1] Cons.prems by auto
qed simp

end

locale ipc_reader =
  fixes c :: uv_codes and env :: "'os ipc_env" and rfd :: int
    and coming :: "'os \<Rightarrow> byte list" and hung_up :: "'os \<Rightarrow> bool" and budget :: "'os \<Rightarrow> nat"
  assumes codes: "uv_codes_ok c"
    and pipe_read: "0 < k \<Longrightarrow> coming os \<noteq> [] \<Longrightarrow> env_read env rfd k os = (rd, os') \<Longrightarrow>
      ((\<exists>n bs. rd = Inr (n, bs) \<and> 0 < n \<and> nat n = length bs \<and> length bs \<le> k \<and>
         coming os = bs @ coming os' \<and> budget os' \<le> budget os) \<or>
       ((\<exists>bs. rd = Inr (uv_eintr c, bs) \<or> rd = Inr (uv_eagain c, bs)) \<and> coming os' = coming os \<and>
         budget os' < budget os)) \<and> (hung_up os' \<longleftrightarrow> hung_up os)"
    and pipe_eof: "0 < k \<Longrightarrow> coming os = [] \<Longrightarrow> hung_up os \<Longrightarrow> env_read env rfd k os = (rd, os') \<Longrightarrow>
      ((\<exists>bs. rd = Inr (0, bs)) \<or>
       ((\<exists>bs. rd = Inr (uv_eintr c, bs) \<or> rd = Inr (uv_eagain c, bs)) \<and> budget os' < budget os)) \<and>
      coming os' = [] \<and> hung_up os'"
begin

lemma read_exact_complete:
  "offset \<le> length buf \<Longrightarrow> length buf - offset \<le> length (coming os) \<Longrightarrow>
   \<exists>os'. read_exact c env True rfd buf allow offset os =
       Some (Inr True, take offset buf @ take (length buf - offset) (coming os), os') \<and>
     coming os' = drop (length buf - offset) (coming os) \<and> (hung_up os' \<longleftrightarrow> hung_up os)"
proof (induction "length buf - offset + budget os" arbitrary: offset buf os rule: less_induct)
  case less
  show ?case
  proof (cases "offset < length buf")
    case False
    then show ?thesis using less.prems by (simp add: read_exact_done)
  next
    case True
    define k where "k = min kChunkBytes (length buf - offset)"
    have k: "0 < k" using True by (simp add: k_def kChunkBytes_def)
    obtain r os1 where w: "env_read env rfd k os = (r, os1)" by fastforce
    note step = read_exact_step [OF True w [unfolded k_def], of c allow]
    have ne: "coming os \<noteq> []" using True less.prems by auto
    have hup: "hung_up os1 \<longleftrightarrow> hung_up os" using pipe_read [OF k ne w] by blast
    from conjunct1 [OF pipe_read [OF k ne w]] show ?thesis
    proof (elim disjE exE conjE)
      fix n bs assume n: "r = Inr (n, bs)" "0 < n" "nat n = length bs" "length bs \<le> k"
        "coming os = bs @ coming os1" "budget os1 \<le> budget os"
      have le: "offset + length bs \<le> length buf" using n(4) True unfolding k_def by linarith
      have "\<exists>os'. read_exact c env True rfd (store buf offset bs) allow (offset + nat n) os1 =
          Some (Inr True, take (offset + nat n) (store buf offset bs) @
            take (length buf - (offset + nat n)) (coming os1), os') \<and>
          coming os' = drop (length buf - (offset + nat n)) (coming os1) \<and> (hung_up os' \<longleftrightarrow> hung_up os1)"
        using less.hyps [of "store buf offset bs" "offset + nat n" os1] n(2,3,5,6) le less.prems by auto
      then show ?thesis using step n(1,2,3,5) le hup by (auto simp: take_store)
    qed (use less.hyps [of buf offset os1] less.prems step transient [OF codes] hup in auto)
  qed
qed

lemma read_exact_short:
  "offset \<le> length buf \<Longrightarrow> length (coming os) < length buf - offset \<Longrightarrow> hung_up os \<Longrightarrow>
   \<exists>buf' os'. read_exact c env True rfd buf allow offset os =
     Some (if allow \<and> offset = 0 \<and> coming os = [] then Inr False
           else Inl (RuntimeError ''ipc recv truncated payload''), buf', os') \<and> coming os' = []"
proof (induction "length buf - offset + budget os" arbitrary: offset buf os rule: less_induct)
  case less
  then have lt: "offset < length buf" by simp
  define k where "k = min kChunkBytes (length buf - offset)"
  have k: "0 < k" using lt by (simp add: k_def kChunkBytes_def)
  obtain r os1 where w: "env_read env rfd k os = (r, os1)" by fastforce
  note step = read_exact_step [OF lt w [unfolded k_def], of c allow]
  show ?case
  proof (cases "coming os = []")
    case True
    then show ?thesis using pipe_eof [OF k True less.prems(3) w] step less.hyps [of buf offset os1] less.prems
        transient [OF codes] by auto
  next
    case False
    have hup: "hung_up os1" using pipe_read [OF k False w] less.prems(3) by blast
    from conjunct1 [OF pipe_read [OF k False w]] show ?thesis
    proof (elim disjE exE conjE)
      fix n bs assume n: "r = Inr (n, bs)" "0 < n" "nat n = length bs" "length bs \<le> k"
        "coming os = bs @ coming os1" "budget os1 \<le> budget os"
      have le: "offset + length bs \<le> length buf" using n(4) lt unfolding k_def by linarith
      then show ?thesis
        using less.hyps [of "store buf offset bs" "offset + nat n" os1] n less.prems step False hup by auto
    qed (use less.hyps [of buf offset os1] less.prems step transient [OF codes] False hup in auto)
  qed
qed

text \<open>A frame is read back whole.\<close>

lemma recv_blob_complete:
  assumes "channel_usable token rx" "pch_read_fd rx = rfd" "length data < 2 ^ 64" "length data \<le> alloc_limit"
    and "coming os = frame_of little data @ rest"
  shows "\<exists>os'. recv_blob c env True little alloc_limit token rx os = Some (Inr (Some data), os') \<and>
    coming os' = rest \<and> (hung_up os' \<longleftrightarrow> hung_up os)"
proof -
  let ?h = "u64_bytes little (word_of_nat (length data))"
  obtain os1 where 1: "read_exact c env True rfd (u64_bytes little 0) True 0 os =
      Some (Inr True, ?h, os1)" "coming os1 = data @ rest" "hung_up os1 \<longleftrightarrow> hung_up os"
    using read_exact_complete [of 0 "u64_bytes little 0" os True] assms(5)
    by (auto simp: frame_of_def)
  obtain os2 where 2: "read_exact c env True rfd (replicate (length data) 0) False 0 os1 =
      Some (Inr True, data, os2)" "coming os2 = rest" "hung_up os2 \<longleftrightarrow> hung_up os1"
    using read_exact_complete [of 0 "replicate (length data) 0" os1 False] 1(2) by auto
  note len = header_size [OF assms(3), of little]
  have "\<not> size_max < length data" using assms(3) by (simp add: size_max_def)
  then show ?thesis using assms(1,2,4) 1 2 len
    by (cases "data = []") (auto simp: recv_blob_def Let_def)
qed

lemma recv_blob_eof:
  assumes "channel_usable token rx" "pch_read_fd rx = rfd" "coming os = []" "hung_up os"
  shows "\<exists>os'. recv_blob c env True little alloc_limit token rx os = Some (Inr None, os') \<and> coming os' = []"
  using read_exact_short [of 0 "u64_bytes little 0" os True] assms
  by (auto simp: recv_blob_def)

lemma recv_blob_truncated:
  assumes "channel_usable token rx" "pch_read_fd rx = rfd" "length data < 2 ^ 64" "length data \<le> alloc_limit"
    and "coming os = take n (frame_of little data)" "0 < n" "n < length (frame_of little data)" "hung_up os"
  shows "\<exists>os'. recv_blob c env True little alloc_limit token rx os =
    Some (Inl (RuntimeError ''ipc recv truncated payload''), os')"
proof (cases "n < 8")
  case True
  have "coming os \<noteq> []" "length (coming os) = n" using assms(5,6,7) True by (auto simp: frame_of_def)
  then show ?thesis
    using read_exact_short [of 0 "u64_bytes little 0" os True] assms(1,2,8) True
    by (auto simp: recv_blob_def)
next
  case False
  let ?h = "u64_bytes little (word_of_nat (length data))"
  have c: "coming os = ?h @ take (n - 8) data" using assms(5) False by (simp add: frame_of_def)
  obtain os1 where 1: "read_exact c env True rfd (u64_bytes little 0) True 0 os =
      Some (Inr True, ?h, os1)" "coming os1 = take (n - 8) data" "hung_up os1"
    using read_exact_complete [of 0 "u64_bytes little 0" os True] c assms(8) by auto
  have n: "n - 8 < length data" using assms(7) False by (simp add: frame_of_def)
  then obtain buf' os2 where 2: "read_exact c env True rfd (replicate (length data) 0) False 0 os1 =
      Some (Inl (RuntimeError ''ipc recv truncated payload''), buf', os2)"
    using read_exact_short [of 0 "replicate (length data) 0" os1 False] 1(2,3) by auto
  note len = header_size [OF assms(3), of little]
  have "\<not> size_max < length data" using assms(3) by (simp add: size_max_def)
  then show ?thesis using assms(1,2,4) 1 2 len n by (auto simp: recv_blob_def Let_def)
qed

lemma recv_frames_complete:
  assumes "channel_usable token rx" "pch_read_fd rx = rfd"
    and "\<forall>d \<in> set ds. length d < 2 ^ 64 \<and> length d \<le> alloc_limit"
    and "coming os = concat (map (frame_of little) ds) @ rest"
  shows "\<exists>os'. recv_frames c env True little alloc_limit token rx (length ds) os = Some (ds, os') \<and>
    coming os' = rest \<and> (hung_up os' \<longleftrightarrow> hung_up os)"
  using assms(3,4)
proof (induction ds arbitrary: os)
  case (Cons d ds)
  obtain os1 where 1: "recv_blob c env True little alloc_limit token rx os = Some (Inr (Some d), os1)"
    "coming os1 = concat (map (frame_of little) ds) @ rest" "hung_up os1 \<longleftrightarrow> hung_up os"
    using recv_blob_complete [OF assms(1,2), of d alloc_limit os] Cons.prems by force
  then show ?case using Cons.IH [of os1] Cons.prems by auto
qed simp

end

subsection \<open>A bounded pipe\<close>

text \<open>
  A pipe of \<open>cap + 1\<close> bytes that moves at most \<open>m + 1\<close> of them per call and answers \<open>UV_EAGAIN\<close>
  (writes) or \<open>UV_EINTR\<close> (reads) a bounded number of times. A write to a full pipe completes when
  the reader has emptied it into \<open>po_taken\<close>. A read of an empty pipe completes when the writer has put in
  the next bytes of \<open>po_script\<close>, those it will still write; with none left it reports the end once the
  writing ends are closed, and otherwise answers for ever that there is nothing to read.
\<close>

record pipe_os =
  po_taken :: "byte list"
  po_buf :: "byte list"
  po_script :: "byte list"
  po_writers :: bool
  po_stalls :: nat

definition po_sent :: "pipe_os \<Rightarrow> byte list" where
  "po_sent os = po_taken os @ po_buf os"

definition po_coming :: "pipe_os \<Rightarrow> byte list" where
  "po_coming os = po_buf os @ po_script os"

definition po_hung_up :: "pipe_os \<Rightarrow> bool" where
  "po_hung_up os \<longleftrightarrow> \<not> po_writers os"

definition reader_makes_room :: "nat \<Rightarrow> pipe_os \<Rightarrow> pipe_os" where
  "reader_makes_room cap os =
     (if length (po_buf os) < Suc cap then os else os\<lparr>po_taken := po_taken os @ po_buf os, po_buf := []\<rparr>)"

definition writer_goes_on :: "nat \<Rightarrow> pipe_os \<Rightarrow> pipe_os" where
  "writer_goes_on cap os =
     (if po_buf os \<noteq> [] then os
      else os\<lparr>po_buf := take (Suc cap) (po_script os), po_script := drop (Suc cap) (po_script os)\<rparr>)"

definition bounded_write ::
  "uv_codes \<Rightarrow> nat \<Rightarrow> nat \<Rightarrow> byte list \<Rightarrow> pipe_os \<Rightarrow> (int + int) \<times> pipe_os" where
  "bounded_write c cap m data os =
     (if po_stalls os > 0 then (Inr (uv_eagain c), os\<lparr>po_stalls := po_stalls os - 1\<rparr>)
      else let os1 = reader_makes_room cap os;
               part = take (min (Suc m) (Suc cap - length (po_buf os1))) data
           in (Inr (int (length part)), os1\<lparr>po_buf := po_buf os1 @ part\<rparr>))"

definition bounded_read ::
  "uv_codes \<Rightarrow> nat \<Rightarrow> nat \<Rightarrow> nat \<Rightarrow> pipe_os \<Rightarrow> (int + int \<times> byte list) \<times> pipe_os" where
  "bounded_read c cap m k os =
     (if po_stalls os > 0 then (Inr (uv_eintr c, []), os\<lparr>po_stalls := po_stalls os - 1\<rparr>)
      else let os1 = writer_goes_on cap os; part = take (min (Suc m) k) (po_buf os1)
           in if po_buf os1 = [] then (Inr (if po_writers os1 then uv_eagain c else 0, []), os1)
              else (Inr (int (length part), part), os1\<lparr>po_buf := drop (min (Suc m) k) (po_buf os1)\<rparr>))"

definition pipe_env :: "uv_codes \<Rightarrow> nat \<Rightarrow> nat \<Rightarrow> pipe_os ipc_env" where
  "pipe_env c cap m =
     \<lparr>env_write = (\<lambda>fd. bounded_write c cap m), env_read = (\<lambda>fd. bounded_read c cap m),
      env_pipe = (\<lambda>os. (Inr (10, 11), os))\<rparr>"

lemmas pipe_defs = pipe_env_def bounded_write_def bounded_read_def reader_makes_room_def writer_goes_on_def
  po_sent_def po_coming_def po_hung_up_def Let_def

interpretation bw: ipc_writer linux_codes "pipe_env linux_codes cap m" wfd po_sent po_stalls for cap m wfd
proof
  fix data os r os'
  assume "data \<noteq> []" and e: "env_write (pipe_env linux_codes cap m) wfd data os = (r, os')"
  show "(\<exists>n. r = Inr n \<and> 0 < n \<and> nat n \<le> length data \<and> po_sent os' = po_sent os @ take (nat n) data \<and>
         po_stalls os' \<le> po_stalls os) \<or>
      ((r = Inr (uv_eintr linux_codes) \<or> r = Inr (uv_eagain linux_codes)) \<and> po_sent os' = po_sent os \<and>
         po_stalls os' < po_stalls os)"
  proof (cases "po_stalls os > 0")
    case False
    let ?os1 = "reader_makes_room cap os"
    define part where "part = take (min (Suc m) (Suc cap - length (po_buf ?os1))) data"
    have room: "length (po_buf ?os1) < Suc cap" "po_sent ?os1 = po_sent os" "po_stalls ?os1 = po_stalls os"
      by (simp_all add: reader_makes_room_def po_sent_def)
    have "part \<noteq> []" using \<open>data \<noteq> []\<close> room(1) by (simp add: part_def)
    moreover have "take (length part) data = part" "length part \<le> length data" by (simp_all add: part_def min_def)
    moreover have "r = Inr (int (length part))" "os' = ?os1\<lparr>po_buf := po_buf ?os1 @ part\<rparr>"
      using e False by (simp_all add: pipe_env_def bounded_write_def part_def Let_def)
    ultimately show ?thesis using room(2,3) by (simp add: po_sent_def)
  qed (use e in \<open>auto simp: pipe_defs\<close>)
qed simp

interpretation br: ipc_reader linux_codes "pipe_env linux_codes cap m" rfd po_coming po_hung_up po_stalls for cap m rfd
proof
  fix k os rd os'
  assume k: "0 < k" and c: "po_coming os \<noteq> []"
    and e: "env_read (pipe_env linux_codes cap m) rfd k os = (rd, os')"
  show "((\<exists>n bs. rd = Inr (n, bs) \<and> 0 < n \<and> nat n = length bs \<and> length bs \<le> k \<and>
         po_coming os = bs @ po_coming os' \<and> po_stalls os' \<le> po_stalls os) \<or>
       ((\<exists>bs. rd = Inr (uv_eintr linux_codes, bs) \<or> rd = Inr (uv_eagain linux_codes, bs)) \<and>
         po_coming os' = po_coming os \<and> po_stalls os' < po_stalls os)) \<and> (po_hung_up os' \<longleftrightarrow> po_hung_up os)"
  proof (cases "po_stalls os > 0")
    case False
    have ne: "po_buf (writer_goes_on cap os) \<noteq> []" and c': "po_coming (writer_goes_on cap os) = po_coming os"
      using c by (auto simp: writer_goes_on_def po_coming_def)
    let ?b = "po_buf (writer_goes_on cap os)"
    have "rd = Inr (int (length (take (min (Suc m) k) ?b)), take (min (Suc m) k) ?b)"
      "os' = writer_goes_on cap os\<lparr>po_buf := drop (min (Suc m) k) ?b\<rparr>"
      using e ne False by (auto simp: pipe_env_def bounded_read_def Let_def)
    moreover have "po_stalls (writer_goes_on cap os) = po_stalls os" "po_writers (writer_goes_on cap os) = po_writers os"
      by (simp_all add: writer_goes_on_def)
    moreover have "po_coming os = ?b @ po_script (writer_goes_on cap os)" using c' by (simp add: po_coming_def)
    ultimately show ?thesis using k ne by (auto simp: po_coming_def po_hung_up_def)
  qed (use e in \<open>auto simp: pipe_defs\<close>)
qed (auto simp: pipe_defs split: if_splits)

lemmas bounded_pipe_laws = bw.ipc_writer_axioms br.ipc_reader_axioms

subsection \<open>Properties\<close>

text \<open>
  C5. Round trip between the two ends of a pipe of any capacity: whatever frames are sent, as long as the other end goes on
  reading the writes complete however the system splits and interrupts them; and a reader to which the bytes they made come
  receives, however its reads are split, exactly these frames, in order, and leaves what comes after them; when nothing
  does and the writing ends are closed, the next receive reports the end of the stream.
\<close>

theorem ipc_roundtrip:
  assumes "ipc_writer c wenv (pch_write_fd tx) sent wbudget" "ipc_reader c renv (pch_read_fd rx) coming hung_up rbudget"
    and "channel_usable wtoken tx" "channel_usable rtoken rx"
    and "\<forall>d \<in> set ds. length d < 2 ^ 64 \<and> length d \<le> alloc_limit"
  shows "\<exists>wos' bs. send_frames c wenv True little wtoken tx ds wos = Some wos' \<and> sent wos' = sent wos @ bs \<and>
    (\<forall>ros rest. coming ros = bs @ rest \<longrightarrow>
      (\<exists>ros1. recv_frames c renv True little alloc_limit rtoken rx (length ds) ros = Some (ds, ros1) \<and>
         coming ros1 = rest \<and>
         (rest = [] \<and> hung_up ros \<longrightarrow>
           (\<exists>ros2. recv_blob c renv True little alloc_limit rtoken rx ros1 = Some (Inr None, ros2)))))"
proof -
  let ?bs = "concat (map (frame_of little) ds)"
  obtain wos' where 1: "send_frames c wenv True little wtoken tx ds wos = Some wos'" "sent wos' = sent wos @ ?bs"
    using ipc_writer.send_frames_complete [OF assms(1,3) refl] assms(5) by blast
  have "\<exists>ros1. recv_frames c renv True little alloc_limit rtoken rx (length ds) ros = Some (ds, ros1) \<and>
      coming ros1 = rest \<and> (rest = [] \<and> hung_up ros \<longrightarrow>
        (\<exists>ros2. recv_blob c renv True little alloc_limit rtoken rx ros1 = Some (Inr None, ros2)))"
    if "coming ros = ?bs @ rest" for ros rest
    using ipc_reader.recv_frames_complete [OF assms(2,4) refl assms(5) that]
      ipc_reader.recv_blob_eof [OF assms(2,4) refl] by metis
  with 1 show ?thesis by blast
qed

definition demo_tx :: channel where
  "demo_tx = \<lparr>pch_loop = Some 0, pch_read_fd = 3, pch_write_fd = 11\<rparr>"

definition demo_rx :: channel where
  "demo_rx = \<lparr>pch_loop = Some 0, pch_read_fd = 10, pch_write_fd = 4\<rparr>"

lemma demo_usable [simp]: "channel_usable (Some True) demo_tx" "channel_usable (Some True) demo_rx"
  by (simp_all add: channel_usable_def demo_tx_def demo_rx_def)

text \<open>Two ends of a pipe of three bytes, smaller than a frame, that moves two bytes at a time.\<close>

definition demo_writer :: pipe_os where
  "demo_writer = \<lparr>po_taken = [], po_buf = [], po_script = [], po_writers = True, po_stalls = 5\<rparr>"

definition demo_reader :: "byte list \<Rightarrow> bool \<Rightarrow> pipe_os" where
  "demo_reader bs open_ends = \<lparr>po_taken = [], po_buf = [], po_script = bs, po_writers = open_ends, po_stalls = 4\<rparr>"

lemma demo_ends [simp]:
  "po_sent demo_writer = []" "po_coming (demo_reader bs b) = bs" "po_hung_up (demo_reader bs b) \<longleftrightarrow> \<not> b"
  by (simp_all add: pipe_defs demo_writer_def demo_reader_def)

theorem ipc_roundtrip_witness:
  "\<exists>wos'. send_frames linux_codes (pipe_env linux_codes 2 1) True True (Some True) demo_tx
      [[1, 2, 3, 4], []] demo_writer = Some wos' \<and>
    (\<exists>ros1 ros2. recv_frames linux_codes (pipe_env linux_codes 2 1) True True 100 (Some True) demo_rx 2
        (demo_reader (po_sent wos') False) = Some ([[1, 2, 3, 4], []], ros1) \<and>
      recv_blob linux_codes (pipe_env linux_codes 2 1) True True 100 (Some True) demo_rx ros1 = Some (Inr None, ros2))"
proof -
  let ?ds = "[[1, 2, 3, 4], []] :: byte list list"
  obtain wos' bs where 1: "send_frames linux_codes (pipe_env linux_codes 2 1) True True (Some True) demo_tx
      ?ds demo_writer = Some wos'" "po_sent wos' = po_sent demo_writer @ bs"
    "\<forall>ros rest. po_coming ros = bs @ rest \<longrightarrow>
      (\<exists>ros1. recv_frames linux_codes (pipe_env linux_codes 2 1) True True 100 (Some True) demo_rx (length ?ds) ros =
           Some (?ds, ros1) \<and> po_coming ros1 = rest \<and>
         (rest = [] \<and> po_hung_up ros \<longrightarrow>
           (\<exists>ros2. recv_blob linux_codes (pipe_env linux_codes 2 1) True True 100 (Some True) demo_rx ros1 =
              Some (Inr None, ros2))))"
    using ipc_roundtrip [OF bounded_pipe_laws demo_usable, of ?ds 100] by fastforce
  from 1(3) [rule_format, of "demo_reader bs False" "[]"] 1(1,2) show ?thesis
    by (simp del: send_frames.simps recv_frames.simps add: numeral_2_eq_2) blast
qed

text \<open>
  Typed round trip: what \<open>send<T>\<close> sends, \<open>recv<U>\<close> returns bit for bit when \<open>U\<close> has the size of \<open>T\<close>; when it has another
  size the receive throws, the frame is consumed, and the values sent after it are received.
\<close>

theorem ipc_typed_roundtrip:
  assumes "ipc_writer c wenv (pch_write_fd tx) sent wbudget" "ipc_reader c renv (pch_read_fd rx) coming hung_up rbudget"
    and "channel_usable wtoken tx" "channel_usable rtoken rx"
    and "length x < 2 ^ 64" "length x \<le> alloc_limit" "length y < 2 ^ 64" "length y \<le> alloc_limit"
  shows "\<exists>wos1 wos2 bs. send_typed c wenv True little wtoken tx x wos = Some (Inr True, wos1) \<and>
    send_typed c wenv True little wtoken tx y wos1 = Some (Inr True, wos2) \<and> sent wos2 = sent wos @ bs \<and>
    (\<forall>ros rest. coming ros = bs @ rest \<longrightarrow>
      (\<exists>ros1 ros2. recv_typed c renv True little alloc_limit rtoken rx n ros =
         Some (if length x = n then Inr (Some x) else Inl (RuntimeError ''ipc recv<T>: payload size mismatch''), ros1) \<and>
       recv_typed c renv True little alloc_limit rtoken rx (length y) ros1 = Some (Inr (Some y), ros2)))"
proof -
  note send = ipc_writer.send_blob_complete [OF assms(1,3) refl]
  note recv = ipc_reader.recv_blob_complete [OF assms(2,4) refl]
  obtain wos1 where 1: "send_blob c wenv True little wtoken tx x wos = Some (Inr True, wos1)"
    "sent wos1 = sent wos @ frame_of little x" using send [OF assms(5)] by blast
  obtain wos2 where 2: "send_blob c wenv True little wtoken tx y wos1 = Some (Inr True, wos2)"
    "sent wos2 = sent wos1 @ frame_of little y" using send [OF assms(7)] by blast
  have "\<exists>ros1 ros2. recv_typed c renv True little alloc_limit rtoken rx n ros =
         Some (if length x = n then Inr (Some x) else Inl (RuntimeError ''ipc recv<T>: payload size mismatch''), ros1) \<and>
       recv_typed c renv True little alloc_limit rtoken rx (length y) ros1 = Some (Inr (Some y), ros2)"
    if ros: "coming ros = (frame_of little x @ frame_of little y) @ rest" for ros rest
  proof -
    obtain ros1 where 3: "recv_blob c renv True little alloc_limit rtoken rx ros = Some (Inr (Some x), ros1)"
      "coming ros1 = frame_of little y @ rest" using recv [OF assms(5,6), of ros little] ros by auto
    obtain ros2 where "recv_blob c renv True little alloc_limit rtoken rx ros1 = Some (Inr (Some y), ros2)"
      using recv [OF assms(7,8) 3(2)] by blast
    then show ?thesis using 3(1) by (simp add: recv_typed_def)
  qed
  then show ?thesis using 1 2 by (fastforce simp: send_typed_def)
qed

theorem ipc_typed_roundtrip_witness:
  "\<exists>wos1 wos2 ros1. send_typed linux_codes (pipe_env linux_codes 2 1) True True (Some True) demo_tx [1, 2, 3, 4]
      demo_writer = Some (Inr True, wos1) \<and>
    send_typed linux_codes (pipe_env linux_codes 2 1) True True (Some True) demo_tx [7] wos1 = Some (Inr True, wos2) \<and>
    recv_typed linux_codes (pipe_env linux_codes 2 1) True True 100 (Some True) demo_rx 8
      (demo_reader (po_sent wos2) True) = Some (Inl (RuntimeError ''ipc recv<T>: payload size mismatch''), ros1)"
proof -
  obtain wos1 wos2 bs where 1: "send_typed linux_codes (pipe_env linux_codes 2 1) True True (Some True) demo_tx
      [1, 2, 3, 4] demo_writer = Some (Inr True, wos1)"
    "send_typed linux_codes (pipe_env linux_codes 2 1) True True (Some True) demo_tx [7] wos1 = Some (Inr True, wos2)"
    "po_sent wos2 = po_sent demo_writer @ bs"
    "\<forall>ros rest. po_coming ros = bs @ rest \<longrightarrow>
      (\<exists>ros1 ros2. recv_typed linux_codes (pipe_env linux_codes 2 1) True True 100 (Some True) demo_rx 8 ros =
         Some (if length [1, 2, 3, 4 :: byte] = 8 then Inr (Some [1, 2, 3, 4])
               else Inl (RuntimeError ''ipc recv<T>: payload size mismatch''), ros1) \<and>
       recv_typed linux_codes (pipe_env linux_codes 2 1) True True 100 (Some True) demo_rx (length [7 :: byte]) ros1 =
         Some (Inr (Some [7]), ros2))"
    using ipc_typed_roundtrip [OF bounded_pipe_laws demo_usable, of "[1, 2, 3, 4]" 100 "[7]" 2 1 True demo_writer 2 1 8]
    by (auto simp del: One_nat_def)
  from 1(4) [rule_format, of "demo_reader bs True" "[]"] 1(1,2,3) show ?thesis by auto
qed

text \<open>
  A stream that ends inside a frame, in its header or in its payload, makes the receive throw
  \<open>ipc recv truncated payload\<close>; no partial payload is ever returned.
\<close>

theorem ipc_truncated:
  assumes "ipc_reader c env (pch_read_fd rx) coming hung_up budget" "channel_usable token rx"
    and "length data < 2 ^ 64" "length data \<le> alloc_limit"
    and "coming os = take n (frame_of little data)" "0 < n" "n < length (frame_of little data)" "hung_up os"
  shows "\<exists>os'. recv_blob c env True little alloc_limit token rx os =
    Some (Inl (RuntimeError ''ipc recv truncated payload''), os')"
  using ipc_reader.recv_blob_truncated [OF assms(1,2) refl assms(3-8)] .

theorem ipc_truncated_witness:
  "\<exists>os'. recv_blob linux_codes (pipe_env linux_codes 2 1) True True 100 (Some True) demo_rx
      (demo_reader (take 9 (frame_of True [7, 8])) False) =
    Some (Inl (RuntimeError ''ipc recv truncated payload''), os')"
  using ipc_truncated [OF bounded_pipe_laws(2) demo_usable(2), of "[7, 8]" 100
      "demo_reader (take 9 (frame_of True [7, 8])) False" 9 True 2 1]
  by (simp add: frame_of_def)

fun closed_fd :: "fd_close \<Rightarrow> int" where
  "closed_fd (CloseOnLoop fd) = fd"
| "closed_fd (CloseTempLoop fd) = fd"
| "closed_fd Hangs = -1"

definition owned_fds :: "channel \<Rightarrow> int set" where
  "owned_fds ch = {fd. 0 \<le> fd \<and> (fd = pch_read_fd ch \<or> fd = pch_write_fd ch)}"

lemma close_both_fds:
  assumes "\<And>fd. closed_fd (f fd) = fd" "\<And>fd. f fd \<noteq> Hangs"
  shows "set (map closed_fd (then_do (if r < 0 then [] else [f r])
      (if 0 \<le> w \<and> w \<noteq> r then (if w < 0 then [] else [f w]) else []))) = {fd. 0 \<le> fd \<and> (fd = r \<or> fd = w)}"
    and "distinct (map closed_fd (then_do (if r < 0 then [] else [f r])
      (if 0 \<le> w \<and> w \<noteq> r then (if w < 0 then [] else [f w]) else [])))"
proof -
  have "Hangs \<noteq> f r" "Hangs \<noteq> f w" using assms(2) [of r] assms(2) [of w] by metis+
  then show "set (map closed_fd (then_do (if r < 0 then [] else [f r])
      (if 0 \<le> w \<and> w \<noteq> r then (if w < 0 then [] else [f w]) else []))) = {fd. 0 \<le> fd \<and> (fd = r \<or> fd = w)}"
    "distinct (map closed_fd (then_do (if r < 0 then [] else [f r])
      (if 0 \<le> w \<and> w \<noteq> r then (if w < 0 then [] else [f w]) else [])))"
    using assms(1) [of r] assms(1) [of w] by (auto simp: then_do_def)
qed

lemma close_channel_fds:
  "set (map closed_fd (snd (close_channel True token ch))) = owned_fds ch"
  "distinct (map closed_fd (snd (close_channel True token ch)))"
  unfolding close_channel_def owned_fds_def close_fd_best_effort_def close_fd_with_temp_loop_def Let_def
  by (cases "pch_loop ch = None"; cases "is_loop_alive token";
      simp only: if_True if_False snd_conv close_both_fds [of CloseOnLoop, OF closed_fd.simps(1) fd_close.distinct(3)]
        close_both_fds [of CloseTempLoop, OF closed_fd.simps(2) fd_close.distinct(5)])+

lemma close_channel_twice: "snd (close_channel on_loop' token' (fst (close_channel on_loop token ch))) = []"
  by (simp add: close_channel_def Let_def close_fd_best_effort_def close_fd_with_temp_loop_def then_do_def)

text \<open>
  Closing a channel on its loop's thread requests the closing of each of its descriptors exactly
  once, also when both ends are the same descriptor, and leaves nothing to close for a second call or
  the destructor.
\<close>

theorem ipc_close_each_fd_once:
  shows "set (map closed_fd (snd (close_channel True token ch))) = owned_fds ch \<and>
    distinct (map closed_fd (snd (close_channel True token ch))) \<and>
    snd (close_channel on_loop token' (fst (close_channel True token ch))) = []"
  by (simp only: close_channel_fds close_channel_twice simp_thms)

text \<open>
  A move assignment between different channels neither leaks nor shares a descriptor: the
  target's own descriptors are closed, it then owns exactly the source's, and the source owns none.
\<close>

theorem ipc_move_assign_ownership:
  assumes "move_assign True token False this other = (this', other', closes)"
  shows "set (map closed_fd closes) = owned_fds this \<and> owned_fds this' = owned_fds other \<and>
    owned_fds other' = {}"
proof -
  have "closes = snd (close_channel True token this)" using assms by (auto simp: move_assign_def split: prod.splits)
  moreover have "owned_fds this' = owned_fds other" "owned_fds other' = {}"
    using assms by (auto simp: move_assign_def owned_fds_def split: prod.splits)
  ultimately show ?thesis by (simp only: close_channel_fds simp_thms)
qed

theorem ipc_move_assign_ownership_witness:
  "set (map closed_fd [CloseOnLoop 3, CloseOnLoop 11]) = owned_fds demo_tx"
  using ipc_move_assign_ownership [of "Some True" demo_tx demo_rx demo_rx default_channel
      "[CloseOnLoop 3, CloseOnLoop 11]"]
  by (simp add: move_assign_def close_channel_def demo_tx_def demo_rx_def default_channel_def
      close_fd_best_effort_def then_do_def Let_def)

text \<open>
  On a thread other than the loop's the channel does not work: sending, and receiving, never
  return as soon as the system accepts the first transfer, and \<open>close\<close> never returns and leaves the
  writing end open.
\<close>

theorem ipc_foreign_thread_hangs:
  assumes "channel_usable token ch" "\<And>data r os'. env_write env (pch_write_fd ch) data os = (r, os') \<Longrightarrow> \<exists>n. r = Inr n"
    and "\<And>k r os'. env_read env (pch_read_fd ch) k os = (r, os') \<Longrightarrow> \<exists>n. r = Inr n"
    and "pch_write_fd ch \<noteq> pch_read_fd ch" "length data < 2 ^ 64"
  shows "send_blob c env False little token ch data os = None \<and>
    recv_blob c env False little alloc_limit token ch os = None \<and>
    snd (close_channel False token ch) = [CloseOnLoop (pch_read_fd ch), Hangs]"
proof -
  obtain l where u: "pch_loop ch = Some l" "is_loop_alive token" "0 \<le> pch_read_fd ch" "0 \<le> pch_write_fd ch"
    using assms(1) by (force simp: channel_usable_def)
  have w: "write_exact c env False (pch_write_fd ch) (u64_bytes little x) 0 os = None" for x
    using assms(2) [of "take (min kChunkBytes 8) (u64_bytes little x)"]
    by (subst write_exact.simps) (auto simp: fs_write_once_def kChunkBytes_def Let_def split: prod.splits sum.splits)
  have r: "read_exact c env False (pch_read_fd ch) (u64_bytes little 0) True 0 os = None"
    using assms(3) [of "min kChunkBytes 8"]
    by (subst read_exact.simps) (auto simp: fs_read_once_def kChunkBytes_def Let_def split: prod.splits sum.splits)
  have "\<not> size_max < length data" using assms(5) by (simp add: size_max_def)
  then show ?thesis using assms(1) u w r
    by (simp add: send_blob_def recv_blob_def close_channel_def close_fd_best_effort_def then_do_def Let_def)
qed

theorem ipc_foreign_thread_hangs_witness:
  "send_blob linux_codes (pipe_env linux_codes 2 1) False True (Some True) demo_tx [1]
     demo_writer = None"
  by (rule conjunct1 [OF ipc_foreign_thread_hangs [OF demo_usable(1)]])
    (auto simp: pipe_env_def bounded_write_def bounded_read_def demo_tx_def Let_def split: if_splits)

text \<open>
  The endpoints made by \<open>pair\<close> are crossed: each endpoint writes into the pipe the other one
  reads, and both are valid while the loop is alive; when the second pipe cannot be made, both ends
  of the first are closed.
\<close>

theorem ipc_pair_crossed:
  assumes "env_pipe env os = (Inr (ab0, ab1), os1)" "\<forall>fd \<in> {ab0, ab1}. 0 \<le> fd"
  shows "(\<forall>ba0 ba1 os2. env_pipe env os1 = (Inr (ba0, ba1), os2) \<and> 0 \<le> ba0 \<and> 0 \<le> ba1 \<longrightarrow>
      (\<exists>a b. pair True env loop os = (Inr (a, b), [], os2) \<and> pch_write_fd a = ab1 \<and> pch_read_fd b = ab0 \<and>
        pch_write_fd b = ba1 \<and> pch_read_fd a = ba0 \<and> valid (Some True) a \<and> valid (Some True) b)) \<and>
    (\<forall>rc os2. env_pipe env os1 = (Inl rc, os2) \<longrightarrow>
      pair True env loop os = (Inl (UvError ''uv_pipe(B->A)'' rc), [CloseOnLoop ab0, CloseOnLoop ab1], os2))"
  using assms by (auto simp: pair_def valid_def uv_error_def close_fd_best_effort_def then_do_def)

theorem ipc_pair_crossed_witness:
  "\<exists>a b. pair True (pipe_env linux_codes 0 0) 0 demo_writer =
     (Inr (a, b), [], demo_writer) \<and> pch_write_fd a = 11 \<and> pch_read_fd b = 10"
  using ipc_pair_crossed [of "pipe_env linux_codes 0 0" demo_writer 10 11
      demo_writer 0]
  by (simp add: pipe_env_def) blast

end
