(* ===== verification/File_Io.thy ===== *)
theory File_Io
  imports Prelude
begin

text \<open>
  \<open>EventLoop::read_file\<close> and \<open>EventLoop::write_file\<close> (src/file_io.cpp): chains of libuv file requests,
  each callback starting the next request until the promise of the caller is settled.

  A callback is a function of the heap state (\<open>ReadFileState\<close>, \<open>WriteFileState\<close>) that returns what the
  chain does next: \<open>Waiting req st\<close> when a request is pending and its callback will find \<open>st\<close>, or
  \<open>Settled r\<close> when the promise was set and the state deleted. The operating system is a parameter, the
  record \<open>fs_env\<close>: the code returned when a request is started and the result its callback finds. The
  world carries, beside the state of the system, the log of these events; the code does
  not read it. \<open>run_fs\<close> delivers results until the promise is settled. A file that
  grows as it is read is read forever, so \<open>run_fs\<close> is partial.
\<close>

datatype open_flag = UV_FS_O_RDONLY | UV_FS_O_WRONLY | UV_FS_O_CREAT | UV_FS_O_APPEND | UV_FS_O_TRUNC

datatype fs_req =
    FsOpen string "open_flag list" nat
  | FsRead int nat int
  | FsWrite int "byte list" int
  | FsClose int

datatype fs_event = Started fs_req int | Finished fs_req int

record 'os fs_env =
  fs_start :: "fs_req \<Rightarrow> 'os \<Rightarrow> int \<times> 'os"
  fs_finish :: "fs_req \<Rightarrow> 'os \<Rightarrow> (int \<times> byte list) \<times> 'os"

record 'os fs_world =
  w_os :: 'os
  w_log :: "fs_event list"

definition issue :: "'os fs_env \<Rightarrow> fs_req \<Rightarrow> 'os fs_world \<Rightarrow> int \<times> 'os fs_world" where
  "issue env req w =
     (case fs_start env req (w_os w) of
        (rc, os) \<Rightarrow> (rc, \<lparr>w_os = os, w_log = w_log w @ [Started req rc]\<rparr>))"

definition complete :: "'os fs_env \<Rightarrow> fs_req \<Rightarrow> 'os fs_world \<Rightarrow> (int \<times> byte list) \<times> 'os fs_world" where
  "complete env req w =
     (case fs_finish env req (w_os w) of
        ((result, bytes), os) \<Rightarrow> ((result, bytes), \<lparr>w_os = os, w_log = w_log w @ [Finished req result]\<rparr>))"

datatype ('s, 'a) fs_step = Waiting fs_req 's | Settled "'a outcome"

type_synonym ('s, 'a, 'os) callback =
  "fs_req \<Rightarrow> int \<Rightarrow> byte list \<Rightarrow> 's \<Rightarrow> 'os fs_world \<Rightarrow> ('s, 'a) fs_step \<times> 'os fs_world"

partial_function (option) run_fs ::
  "('s, 'a, 'os) callback \<Rightarrow> 'os fs_env \<Rightarrow> ('s, 'a) fs_step \<Rightarrow> 'os fs_world \<Rightarrow>
   ('a outcome \<times> 'os fs_world) option" where
  "run_fs callback env step w =
     (case step of
        Settled r \<Rightarrow> Some (r, w)
      | Waiting req st \<Rightarrow>
          (case complete env req w of
             (res, w1) \<Rightarrow>
               (case callback req (fst res) (snd res) st w1 of
                  (step', w2) \<Rightarrow> run_fs callback env step' w2)))"

subsection \<open>Reading a file\<close>

text \<open>
  \<open>ReadFileState\<close>; the array \<open>chunk\<close> is the byte list that comes with the result of a read.
\<close>

record read_file_state =
  rf_file :: int
  rf_offset :: nat
  rf_out :: "byte list"
  rf_error :: "err option"

definition read_file_state_init :: read_file_state where
  "read_file_state_init = \<lparr>rf_file = -1, rf_offset = 0, rf_out = [], rf_error = None\<rparr>"

definition chunk_size :: nat where
  "chunk_size = 64 * 1024"

type_synonym read_step = "(read_file_state, byte list) fs_step"

definition finalize_read :: "read_file_state \<Rightarrow> read_step" where
  "finalize_read state =
     (case rf_error state of
        Some error \<Rightarrow> Settled (Exception error)
      | None \<Rightarrow> Settled (Value (rf_out state)))"

definition on_read_close :: "int \<Rightarrow> read_file_state \<Rightarrow> 'os fs_world \<Rightarrow> read_step \<times> 'os fs_world" where
  "on_read_close result state w =
     (let state' = (if result < 0 \<and> rf_error state = None
                    then state\<lparr>rf_error := Some (uv_error ''uv_fs_close(read)'' result)\<rparr> else state)
      in (finalize_read state', w))"

definition close_read_file ::
  "'os fs_env \<Rightarrow> read_file_state \<Rightarrow> 'os fs_world \<Rightarrow> read_step \<times> 'os fs_world" where
  "close_read_file env state w =
     (if rf_file state < 0 then (finalize_read state, w)
      else case issue env (FsClose (rf_file state)) w of
        (rc, w') \<Rightarrow>
          (if rc < 0 then
             (finalize_read (if rf_error state = None
                then state\<lparr>rf_error := Some (uv_error ''uv_fs_close(read)'' rc)\<rparr> else state), w')
           else (Waiting (FsClose (rf_file state)) state, w')))"

definition read_next_chunk ::
  "'os fs_env \<Rightarrow> read_file_state \<Rightarrow> 'os fs_world \<Rightarrow> read_step \<times> 'os fs_world" where
  "read_next_chunk env state w =
     (let req = FsRead (rf_file state) chunk_size (int (rf_offset state)) in
      case issue env req w of
        (rc, w') \<Rightarrow>
          (if rc < 0
           then close_read_file env (state\<lparr>rf_error := Some (uv_error ''uv_fs_read(start)'' rc)\<rparr>) w'
           else (Waiting req state, w')))"

definition on_file_read ::
  "'os fs_env \<Rightarrow> int \<Rightarrow> byte list \<Rightarrow> read_file_state \<Rightarrow> 'os fs_world \<Rightarrow> read_step \<times> 'os fs_world" where
  "on_file_read env nread chunk state w =
     (if nread > 0 then
        read_next_chunk env
          (state\<lparr>rf_out := rf_out state @ take (nat nread) chunk, rf_offset := rf_offset state + nat nread\<rparr>) w
      else if nread = 0 then close_read_file env state w
      else close_read_file env (state\<lparr>rf_error := Some (uv_error ''uv_fs_read'' nread)\<rparr>) w)"

definition on_file_open_for_read ::
  "'os fs_env \<Rightarrow> int \<Rightarrow> read_file_state \<Rightarrow> 'os fs_world \<Rightarrow> read_step \<times> 'os fs_world" where
  "on_file_open_for_read env result state w =
     (if result < 0
      then close_read_file env (state\<lparr>rf_error := Some (uv_error ''uv_fs_open(read)'' result)\<rparr>) w
      else read_next_chunk env (state\<lparr>rf_file := result\<rparr>) w)"

text \<open>The callback libuv calls is the one registered with the pending request.\<close>

fun read_callback :: "'os fs_env \<Rightarrow> (read_file_state, byte list, 'os) callback" where
  "read_callback env (FsOpen path flags mode) result bytes state w = on_file_open_for_read env result state w"
| "read_callback env (FsRead fd n off) result bytes state w = on_file_read env result bytes state w"
| "read_callback env (FsWrite fd bs off) result bytes state w = (Waiting (FsWrite fd bs off) state, w)"
| "read_callback env (FsClose fd) result bytes state w = on_read_close result state w"

definition read_file ::
  "'os fs_env \<Rightarrow> string \<Rightarrow> 'os fs_world \<Rightarrow> ((err + byte list) \<times> 'os fs_world) option" where
  "read_file env path w =
     (let req = FsOpen path [UV_FS_O_RDONLY] 0 in
      case issue env req w of
        (rc, w') \<Rightarrow>
          (if rc < 0 then Some (Inl (uv_error ''uv_fs_open(read/start)'' rc), w')
           else map_option (\<lambda>(r, w''). (future_get r, w''))
             (run_fs (read_callback env) env (Waiting req read_file_state_init) w')))"

subsection \<open>Writing a file\<close>

record write_file_state =
  wf_file :: int
  wf_data :: "byte list"
  wf_offset :: nat
  wf_append :: bool
  wf_error :: "err option"

type_synonym write_step = "(write_file_state, unit) fs_step"

definition finalize_write :: "write_file_state \<Rightarrow> write_step" where
  "finalize_write state =
     (case wf_error state of
        Some error \<Rightarrow> Settled (Exception error)
      | None \<Rightarrow> Settled (Value ()))"

definition on_write_close :: "int \<Rightarrow> write_file_state \<Rightarrow> 'os fs_world \<Rightarrow> write_step \<times> 'os fs_world" where
  "on_write_close result state w =
     (let state' = (if result < 0 \<and> wf_error state = None
                    then state\<lparr>wf_error := Some (uv_error ''uv_fs_close(write)'' result)\<rparr> else state)
      in (finalize_write state', w))"

definition close_write_file ::
  "'os fs_env \<Rightarrow> write_file_state \<Rightarrow> 'os fs_world \<Rightarrow> write_step \<times> 'os fs_world" where
  "close_write_file env state w =
     (if wf_file state < 0 then (finalize_write state, w)
      else case issue env (FsClose (wf_file state)) w of
        (rc, w') \<Rightarrow>
          (if rc < 0 then
             (finalize_write (if wf_error state = None
                then state\<lparr>wf_error := Some (uv_error ''uv_fs_close(write)'' rc)\<rparr> else state), w')
           else (Waiting (FsClose (wf_file state)) state, w')))"

text \<open>\<open>static_cast<unsigned int>(remaining)\<close> keeps the low 32 bits of the remaining size.\<close>

definition to_uint :: "nat \<Rightarrow> nat" where
  "to_uint n = n mod 2 ^ 32"

definition write_next_chunk ::
  "'os fs_env \<Rightarrow> write_file_state \<Rightarrow> 'os fs_world \<Rightarrow> write_step \<times> 'os fs_world" where
  "write_next_chunk env state w =
     (if wf_offset state \<ge> length (wf_data state) then close_write_file env state w
      else
        let remaining = length (wf_data state) - wf_offset state;
            buf = take (to_uint remaining) (drop (wf_offset state) (wf_data state));
            req = FsWrite (wf_file state) buf (if wf_append state then -1 else int (wf_offset state))
        in case issue env req w of
          (rc, w') \<Rightarrow>
            (if rc < 0
             then close_write_file env (state\<lparr>wf_error := Some (uv_error ''uv_fs_write(start)'' rc)\<rparr>) w'
             else (Waiting req state, w')))"

definition on_file_write ::
  "'os fs_env \<Rightarrow> int \<Rightarrow> write_file_state \<Rightarrow> 'os fs_world \<Rightarrow> write_step \<times> 'os fs_world" where
  "on_file_write env wrote state w =
     (if wrote > 0 then write_next_chunk env (state\<lparr>wf_offset := wf_offset state + nat wrote\<rparr>) w
      else close_write_file env (state\<lparr>wf_error := Some (uv_error ''uv_fs_write'' wrote)\<rparr>) w)"

definition on_file_open_for_write ::
  "'os fs_env \<Rightarrow> int \<Rightarrow> write_file_state \<Rightarrow> 'os fs_world \<Rightarrow> write_step \<times> 'os fs_world" where
  "on_file_open_for_write env result state w =
     (if result < 0
      then close_write_file env (state\<lparr>wf_error := Some (uv_error ''uv_fs_open(write)'' result)\<rparr>) w
      else write_next_chunk env (state\<lparr>wf_file := result\<rparr>) w)"

fun write_callback :: "'os fs_env \<Rightarrow> (write_file_state, unit, 'os) callback" where
  "write_callback env (FsOpen path flags mode) result bytes state w = on_file_open_for_write env result state w"
| "write_callback env (FsWrite fd bs off) result bytes state w = on_file_write env result state w"
| "write_callback env (FsRead fd n off) result bytes state w = (Waiting (FsRead fd n off) state, w)"
| "write_callback env (FsClose fd) result bytes state w = on_write_close result state w"

definition write_flags :: "bool \<Rightarrow> open_flag list" where
  "write_flags app =
     [UV_FS_O_WRONLY, UV_FS_O_CREAT] @ (if app then [UV_FS_O_APPEND] else [UV_FS_O_TRUNC])"

definition write_file ::
  "'os fs_env \<Rightarrow> string \<Rightarrow> byte list \<Rightarrow> bool \<Rightarrow> 'os fs_world \<Rightarrow> ((err + unit) \<times> 'os fs_world) option" where
  "write_file env path data app w =
     (let state = \<lparr>wf_file = -1, wf_data = data, wf_offset = 0, wf_append = app, wf_error = None\<rparr>;
          req = FsOpen path (write_flags app) 420
      in case issue env req w of
        (rc, w') \<Rightarrow>
          (if rc < 0 then Some (Inl (uv_error ''uv_fs_open(write/start)'' rc), w')
           else map_option (\<lambda>(r, w''). (future_get r, w''))
             (run_fs (write_callback env) env (Waiting req state) w')))"

subsection \<open>What the log tells\<close>

text \<open>
  \<open>opened\<close>: the descriptors returned by successful opens. \<open>closes\<close>: the descriptors a close was
  requested for. \<open>first_failure\<close>: the exception of the first event that reports a failure; a write
  that moves nothing counts as one.
\<close>

fun opened :: "fs_event list \<Rightarrow> int list" where
  "opened [] = []"
| "opened (Finished (FsOpen path flags mode) result # es) = (if result < 0 then opened es else result # opened es)"
| "opened (e # es) = opened es"

fun closes :: "fs_event list \<Rightarrow> int list" where
  "closes [] = []"
| "closes (Started (FsClose fd) rc # es) = fd # closes es"
| "closes (e # es) = closes es"

fun failure_of :: "string \<Rightarrow> fs_event \<Rightarrow> err option" where
  "failure_of m (Started (FsOpen path flags mode) rc) =
     (if rc < 0 then Some (uv_error (''uv_fs_open('' @ m @ ''/start)'') rc) else None)"
| "failure_of m (Finished (FsOpen path flags mode) rc) =
     (if rc < 0 then Some (uv_error (''uv_fs_open('' @ m @ '')'') rc) else None)"
| "failure_of m (Started (FsRead fd n off) rc) = (if rc < 0 then Some (uv_error ''uv_fs_read(start)'' rc) else None)"
| "failure_of m (Finished (FsRead fd n off) rc) = (if rc < 0 then Some (uv_error ''uv_fs_read'' rc) else None)"
| "failure_of m (Started (FsWrite fd bs off) rc) = (if rc < 0 then Some (uv_error ''uv_fs_write(start)'' rc) else None)"
| "failure_of m (Finished (FsWrite fd bs off) rc) = (if rc \<le> 0 then Some (uv_error ''uv_fs_write'' rc) else None)"
| "failure_of m (Started (FsClose fd) rc) = (if rc < 0 then Some (uv_error (''uv_fs_close('' @ m @ '')'') rc) else None)"
| "failure_of m (Finished (FsClose fd) rc) = (if rc < 0 then Some (uv_error (''uv_fs_close('' @ m @ '')'') rc) else None)"

fun first_failure :: "string \<Rightarrow> fs_event list \<Rightarrow> err option" where
  "first_failure m [] = None"
| "first_failure m (e # es) = (case failure_of m e of Some x \<Rightarrow> Some x | None \<Rightarrow> first_failure m es)"

lemma opened_append [simp]: "opened (xs @ ys) = opened xs @ opened ys"
  by (induction xs rule: opened.induct) auto

lemma closes_append [simp]: "closes (xs @ ys) = closes xs @ closes ys"
  by (induction xs rule: closes.induct) auto

lemma first_failure_append [simp]:
  "first_failure m (xs @ ys) = (case first_failure m xs of Some x \<Rightarrow> Some x | None \<Rightarrow> first_failure m ys)"
  by (induction xs) (auto split: option.splits)

lemma issue_log:
  "issue env req w = (rc, w') \<Longrightarrow> w_log w' = w_log w @ [Started req rc]"
  by (auto simp: issue_def split: prod.splits)

lemma complete_log:
  "complete env req w = (res, w') \<Longrightarrow> w_log w' = w_log w @ [Finished req (fst res)]"
  by (auto simp: complete_def split: prod.splits)

subsection \<open>Chains of callbacks\<close>

lemma run_fs_waiting:
  "complete env req w = (res, w1) \<Longrightarrow> run_fs callback env (Waiting req st) w =
     (case callback req (fst res) (snd res) st w1 of (s, w2) \<Rightarrow> run_fs callback env s w2)"
  by (subst run_fs.simps) simp

text \<open>Rule induction over the results delivered until the promise is settled.\<close>

lemma run_fs_induct [consumes 1, case_names settled waiting]:
  assumes run: "run_fs callback env step w = Some (r, w')"
    and settled: "\<And>r w. P (Settled r) w r w"
    and waiting: "\<And>req st w res w1 step' w2 r w'. complete env req w = (res, w1) \<Longrightarrow>
      callback req (fst res) (snd res) st w1 = (step', w2) \<Longrightarrow> P step' w2 r w' \<Longrightarrow> P (Waiting req st) w r w'"
  shows "P step w r w'"
proof -
  have "cb = callback \<longrightarrow> e = env \<longrightarrow> P s w (fst y) (snd y)" if "run_fs cb e s w = Some y" for cb e s w y
  proof (rule run_fs.raw_induct [OF _ that])
    fix f cb e s w y
    assume IH: "\<And>cb e s w y. f cb e s w = Some y \<Longrightarrow> cb = callback \<longrightarrow> e = env \<longrightarrow> P s w (fst y) (snd y)"
      and body: "(case s of
          Waiting req st \<Rightarrow> case complete e req w of (res, w1) \<Rightarrow>
            case cb req (fst res) (snd res) st w1 of (step', w2) \<Rightarrow> f cb e step' w2
        | Settled r \<Rightarrow> Some (r, w)) = Some y"
    show "cb = callback \<longrightarrow> e = env \<longrightarrow> P s w (fst y) (snd y)"
    proof (cases s)
      case (Waiting req st)
      obtain res w1 where c: "complete e req w = (res, w1)" by fastforce
      obtain step' w2 where cb: "cb req (fst res) (snd res) st w1 = (step', w2)" by fastforce
      show ?thesis using IH [of cb e step' w2 y] body Waiting c cb waiting [of req w res w1 st step' w2] by auto
    qed (use body settled in auto)
  qed
  from this [OF run] show ?thesis by simp
qed

text \<open>
  A chain keeps an invariant \<open>pend\<close> at every pending request, and reaches \<open>post\<close> when its promise is
  settled, if every callback does so after one more event.
\<close>

fun step_ok ::
  "(fs_req \<Rightarrow> 's \<Rightarrow> fs_event list \<Rightarrow> bool) \<Rightarrow> ('a outcome \<Rightarrow> fs_event list \<Rightarrow> bool) \<Rightarrow>
   ('s, 'a) fs_step \<times> 'os fs_world \<Rightarrow> bool" where
  "step_ok pend post (Waiting req st, w) = pend req st (w_log w)"
| "step_ok pend post (Settled r, w) = post r (w_log w)"

locale fs_chain =
  fixes callback :: "('s, 'a, 'os) callback"
    and pend :: "fs_req \<Rightarrow> 's \<Rightarrow> fs_event list \<Rightarrow> bool"
    and post :: "'a outcome \<Rightarrow> fs_event list \<Rightarrow> bool"
  assumes callback_ok: "pend req st log \<Longrightarrow> w_log w = log @ [Finished req result] \<Longrightarrow>
      step_ok pend post (callback req result bytes st w)"
begin

lemma run_fs_post:
  assumes "run_fs callback env step w = Some (r, w')" "step_ok pend post (step, w)"
  shows "post r (w_log w')"
  using assms
proof (induction rule: run_fs_induct)
  case (waiting req st w res w1 step' w2 r w')
  then show ?case
    using callback_ok [of req st "w_log w" w1 "fst res" "snd res"] complete_log [of env req w res w1] by simp
qed simp

end

text \<open>
  The invariant shared by both chains: \<open>file\<close> is the only descriptor opened, the error kept is the
  first failure, and the pending request is the one the state calls for.
\<close>

definition chain_inv :: "string \<Rightarrow> fs_req \<Rightarrow> int \<Rightarrow> err option \<Rightarrow> fs_event list \<Rightarrow> bool" where
  "chain_inv m req file error log \<longleftrightarrow>
     opened log = (if file < 0 then [] else [file]) \<and> error = first_failure m log \<and>
     (case req of
        FsOpen path flags mode \<Rightarrow> file < 0 \<and> error = None \<and> closes log = []
      | FsClose fd \<Rightarrow> \<not> file < 0 \<and> fd = file \<and> closes log = [fd]
      | _ \<Rightarrow> \<not> file < 0 \<and> error = None \<and> closes log = [])"

definition chain_post :: "string \<Rightarrow> 'a outcome \<Rightarrow> fs_event list \<Rightarrow> bool" where
  "chain_post m r log \<longleftrightarrow> closes log = opened log \<and> length (opened log) \<le> 1 \<and>
     (case r of Exception e \<Rightarrow> first_failure m log = Some e | Value v \<Rightarrow> first_failure m log = None)"

definition read_inv :: "fs_req \<Rightarrow> read_file_state \<Rightarrow> fs_event list \<Rightarrow> bool" where
  "read_inv req st log \<longleftrightarrow> chain_inv ''read'' req (rf_file st) (rf_error st) log \<and>
     (case req of FsWrite fd bs off \<Rightarrow> False | _ \<Rightarrow> True)"

definition write_inv :: "fs_req \<Rightarrow> write_file_state \<Rightarrow> fs_event list \<Rightarrow> bool" where
  "write_inv req st log \<longleftrightarrow> chain_inv ''write'' req (wf_file st) (wf_error st) log \<and>
     (case req of FsRead fd n off \<Rightarrow> False | _ \<Rightarrow> True)"

lemma close_read_file_ok:
  assumes "opened (w_log w) = (if rf_file st < 0 then [] else [rf_file st])"
    and "rf_error st = first_failure ''read'' (w_log w)" "closes (w_log w) = []"
  shows "step_ok read_inv (chain_post ''read'') (close_read_file env st w)"
  using assms
  by (auto simp: close_read_file_def finalize_read_def chain_post_def read_inv_def chain_inv_def
      split: prod.splits option.splits dest!: issue_log)

lemma read_next_chunk_ok:
  assumes "opened (w_log w) = [rf_file st]" "\<not> rf_file st < 0" "rf_error st = None"
    and "first_failure ''read'' (w_log w) = None" "closes (w_log w) = []"
  shows "step_ok read_inv (chain_post ''read'') (read_next_chunk env st w)"
  using assms
  by (auto simp: read_next_chunk_def Let_def read_inv_def chain_inv_def
      split: prod.splits dest!: issue_log intro!: close_read_file_ok)

lemma close_write_file_ok:
  assumes "opened (w_log w) = (if wf_file st < 0 then [] else [wf_file st])"
    and "wf_error st = first_failure ''write'' (w_log w)" "closes (w_log w) = []"
  shows "step_ok write_inv (chain_post ''write'') (close_write_file env st w)"
  using assms
  by (auto simp: close_write_file_def finalize_write_def chain_post_def write_inv_def chain_inv_def
      split: prod.splits option.splits dest!: issue_log)

lemma write_next_chunk_ok:
  assumes "opened (w_log w) = [wf_file st]" "\<not> wf_file st < 0" "wf_error st = None"
    and "first_failure ''write'' (w_log w) = None" "closes (w_log w) = []"
  shows "step_ok write_inv (chain_post ''write'') (write_next_chunk env st w)"
  using assms
  by (auto simp: write_next_chunk_def Let_def write_inv_def chain_inv_def
      split: prod.splits dest!: issue_log intro!: close_write_file_ok)

interpretation read_chain: fs_chain "read_callback env" read_inv "chain_post ''read''" for env
proof
  fix req st log result bytes and w :: "'a fs_world"
  assume inv: "read_inv req st log" and log: "w_log w = log @ [Finished req result]"
  show "step_ok read_inv (chain_post ''read'') (read_callback env req result bytes st w)"
  proof (cases req)
    case FsClose
    then show ?thesis using inv log
      by (auto simp: read_inv_def chain_inv_def chain_post_def on_read_close_def finalize_read_def
          split: option.splits)
  qed (use inv log in \<open>auto simp: read_inv_def chain_inv_def on_file_open_for_read_def on_file_read_def
      intro!: close_read_file_ok read_next_chunk_ok\<close>)
qed

interpretation write_chain: fs_chain "write_callback env" write_inv "chain_post ''write''" for env
proof
  fix req st log result bytes and w :: "'a fs_world"
  assume inv: "write_inv req st log" and log: "w_log w = log @ [Finished req result]"
  show "step_ok write_inv (chain_post ''write'') (write_callback env req result bytes st w)"
  proof (cases req)
    case FsClose
    then show ?thesis using inv log
      by (auto simp: write_inv_def chain_inv_def chain_post_def on_write_close_def finalize_write_def
          split: option.splits)
  qed (use inv log in \<open>auto simp: write_inv_def chain_inv_def on_file_open_for_write_def on_file_write_def
      intro!: close_write_file_ok write_next_chunk_ok\<close>)
qed

definition chain_result :: "string \<Rightarrow> err + 'a \<Rightarrow> fs_event list \<Rightarrow> bool" where
  "chain_result m r log \<longleftrightarrow> closes log = opened log \<and> length (opened log) \<le> 1 \<and>
     first_failure m log = (case r of Inl e \<Rightarrow> Some e | Inr v \<Rightarrow> None)"

lemma chain_post_result: "chain_post m r log \<Longrightarrow> chain_result m (future_get r) log"
  by (cases r) (simp_all add: chain_post_def chain_result_def)

lemma read_file_result:
  assumes "read_file env path \<lparr>w_os = os, w_log = []\<rparr> = Some (r, w')"
  shows "chain_result ''read'' r (w_log w')"
proof -
  obtain rc w1 where i: "issue env (FsOpen path [UV_FS_O_RDONLY] 0) \<lparr>w_os = os, w_log = []\<rparr> = (rc, w1)" by fastforce
  note log = issue_log [OF i]
  show ?thesis
    using assms i log read_chain.run_fs_post [of env env "Waiting (FsOpen path [UV_FS_O_RDONLY] 0) read_file_state_init" w1 _ w']
    by (auto simp: read_file_def Let_def read_inv_def chain_inv_def read_file_state_init_def chain_result_def
        split: if_splits dest!: chain_post_result)
qed

lemma write_file_result:
  assumes "write_file env path data app \<lparr>w_os = os, w_log = []\<rparr> = Some (r, w')"
  shows "chain_result ''write'' r (w_log w')"
proof -
  let ?req = "FsOpen path (write_flags app) 420"
  obtain rc w1 where i: "issue env ?req \<lparr>w_os = os, w_log = []\<rparr> = (rc, w1)" by fastforce
  note log = issue_log [OF i]
  show ?thesis
    using assms i log write_chain.run_fs_post [of env env "Waiting ?req
        \<lparr>wf_file = -1, wf_data = data, wf_offset = 0, wf_append = app, wf_error = None\<rparr>" w1 _ w']
    by (auto simp: write_file_def Let_def write_inv_def chain_inv_def chain_result_def
        split: if_splits dest!: chain_post_result)
qed

subsection \<open>Regular files\<close>

text \<open>Data stored at an offset; bytes between the old end and the offset become zero.\<close>

definition splice :: "nat \<Rightarrow> byte list \<Rightarrow> byte list \<Rightarrow> byte list" where
  "splice off data bs =
     (if data = [] then bs else take off bs @ replicate (off - length bs) 0 @ data @ drop (off + length data) bs)"

lemma splice_nil [simp]: "splice off [] bs = bs"
  by (simp add: splice_def)

lemma splice_inside: "off \<le> length bs \<Longrightarrow> splice off data bs = take off bs @ data @ drop (off + length data) bs"
  by (simp add: splice_def)

lemma splice_splice: "splice (off + length a) b (splice off a bs) = splice off (a @ b) bs"
proof (cases "a = []")
  case False
  have len: "length (take off bs) + (off - length bs) = off" by (simp add: min_def)
  have inside: "off + length a \<le> length (splice off a bs)" using False len by (simp add: splice_def)
  have "drop (off + length a + length b) (splice off a bs) = drop (off + length a + length b) bs"
    using False by (auto simp: splice_def min_def ac_simps)
  then show ?thesis unfolding splice_inside [OF inside] using False
    by (auto simp: splice_def min_def add.assoc)
qed simp

text \<open>
  What a regular file promises, however many bytes each call moves. \<open>content\<close> is the file at \<open>path\<close>;
  \<open>refers os fd a\<close>: the descriptor refers to it and was opened with access \<open>a\<close>. Reads are promised to succeed on a
  descriptor opened for reading, writes on one opened for writing or appending.
  A write at offset -1 goes to the current position, which for appending is the end.
\<close>

datatype access = ForReading | ForWriting | ForAppending

definition write_access :: "bool \<Rightarrow> access" where
  "write_access app = (if app then ForAppending else ForWriting)"

definition access_of :: "open_flag list \<Rightarrow> access" where
  "access_of flags = (if UV_FS_O_WRONLY \<in> set flags then write_access (UV_FS_O_APPEND \<in> set flags) else ForReading)"

lemma write_access_simps [simp]: "write_access True = ForAppending" "write_access False = ForWriting"
  by (simp_all add: write_access_def)

locale regular_file =
  fixes env :: "'os fs_env" and path :: string
    and content :: "'os \<Rightarrow> byte list" and refers :: "'os \<Rightarrow> int \<Rightarrow> access \<Rightarrow> bool"
  assumes start_law: "fs_start env req os = (rc, os') \<Longrightarrow>
        0 \<le> rc \<and> content os' = content os \<and> refers os' = refers os"
    and open_law: "fs_finish env (FsOpen path flags mode) os = ((r, bs), os') \<Longrightarrow>
        0 \<le> r \<and> refers os' r (access_of flags) \<and>
        content os' = (if UV_FS_O_TRUNC \<in> set flags then [] else content os)"
    and read_law: "refers os fd ForReading \<Longrightarrow> 0 < n \<Longrightarrow> fs_finish env (FsRead fd n (int off)) os = ((r, bs), os') \<Longrightarrow>
        refers os' = refers os \<and> content os' = content os \<and>
        (if off < length (content os)
         then 0 < r \<and> off + nat r \<le> length (content os) \<and> nat r \<le> n \<and>
           take (nat r) bs = take (nat r) (drop off (content os))
         else r = 0)"
    and write_law: "refers os fd ForWriting \<Longrightarrow> data \<noteq> [] \<Longrightarrow>
        fs_finish env (FsWrite fd data (int off)) os = ((r, bs), os') \<Longrightarrow>
        0 < r \<and> nat r \<le> length data \<and> refers os' = refers os \<and>
        content os' = splice off (take (nat r) data) (content os)"
    and append_law: "refers os fd ForAppending \<Longrightarrow> data \<noteq> [] \<Longrightarrow>
        fs_finish env (FsWrite fd data (-1)) os = ((r, bs), os') \<Longrightarrow>
        0 < r \<and> nat r \<le> length data \<and> refers os' = refers os \<and> content os' = content os @ take (nat r) data"
    and write_empty_law: "refers os fd (write_access app) \<Longrightarrow> fs_finish env (FsWrite fd [] pos) os = ((r, bs), os') \<Longrightarrow>
        r = 0 \<and> refers os' = refers os \<and> content os' = content os"
    and close_law: "refers os fd a \<Longrightarrow> fs_finish env (FsClose fd) os = ((r, bs), os') \<Longrightarrow>
        0 \<le> r \<and> content os' = content os"
begin

lemma issue_ok:
  obtains rc w' where "issue env req w = (rc, w')" "0 \<le> rc" "content (w_os w') = content (w_os w)"
    "refers (w_os w') = refers (w_os w)"
  using start_law [of req "w_os w"] by (cases "fs_start env req (w_os w)") (simp add: issue_def)

lemma complete_finish:
  obtains r bs w' where "complete env req w = ((r, bs), w')" "fs_finish env req (w_os w) = ((r, bs), w_os w')"
proof -
  obtain r bs os where f: "fs_finish env req (w_os w) = ((r, bs), os)" by (metis surj_pair)
  show thesis by (rule that [of r bs "\<lparr>w_os = os, w_log = w_log w @ [Finished req r]\<rparr>"])
    (simp_all add: complete_def f)
qed

text \<open>Closing settles the promise with the error kept, if any.\<close>

lemma close_read_run:
  assumes "refers (w_os w) (rf_file st) a" "0 \<le> rf_file st"
  shows "\<exists>w'. (case close_read_file env st w of (s, w1) \<Rightarrow> run_fs (read_callback env) env s w1) =
      Some (case rf_error st of None \<Rightarrow> Value (rf_out st) | Some e \<Rightarrow> Exception e, w') \<and>
    content (w_os w') = content (w_os w)"
proof -
  obtain rc w1 where i: "issue env (FsClose (rf_file st)) w = (rc, w1)" "0 \<le> rc"
    "content (w_os w1) = content (w_os w)" "refers (w_os w1) = refers (w_os w)" by (rule issue_ok)
  obtain r bs w2 where c: "complete env (FsClose (rf_file st)) w1 = ((r, bs), w2)"
    "fs_finish env (FsClose (rf_file st)) (w_os w1) = ((r, bs), w_os w2)" by (rule complete_finish)
  note law = close_law [OF _ c(2), of a]
  show ?thesis using assms i c(1) law
    by (auto simp: close_read_file_def on_read_close_def finalize_read_def run_fs.simps split: option.splits)
qed

lemma read_run:
  assumes "refers (w_os w) (rf_file st) ForReading" "0 \<le> rf_file st" "rf_error st = None"
    and "rf_offset st \<le> length (content (w_os w))" "rf_out st = take (rf_offset st) (content (w_os w))"
  shows "\<exists>w'. (case read_next_chunk env st w of (s, w1) \<Rightarrow> run_fs (read_callback env) env s w1) =
      Some (Value (content (w_os w)), w') \<and> content (w_os w') = content (w_os w)"
  using assms
proof (induction "length (content (w_os w)) - rf_offset st" arbitrary: st w rule: less_induct)
  case less
  let ?req = "FsRead (rf_file st) chunk_size (int (rf_offset st))"
  obtain rc w1 where i: "issue env ?req w = (rc, w1)" "0 \<le> rc"
    "content (w_os w1) = content (w_os w)" "refers (w_os w1) = refers (w_os w)" by (rule issue_ok)
  obtain r bs w2 where c: "complete env ?req w1 = ((r, bs), w2)"
    "fs_finish env ?req (w_os w1) = ((r, bs), w_os w2)" by (rule complete_finish)
  have law: "refers (w_os w2) = refers (w_os w)" "content (w_os w2) = content (w_os w)"
    "if rf_offset st < length (content (w_os w)) then 0 < r \<and> rf_offset st + nat r \<le> length (content (w_os w)) \<and>
       take (nat r) bs = take (nat r) (drop (rf_offset st) (content (w_os w))) else r = 0"
    using read_law [OF _ _ c(2)] less.prems(1) i by (auto simp: chunk_size_def split: if_splits)
  have unfold: "(case read_next_chunk env st w of (s, w1) \<Rightarrow> run_fs (read_callback env) env s w1) =
      (case on_file_read env r bs st w2 of (s, w1) \<Rightarrow> run_fs (read_callback env) env s w1)"
    using i(1,2) run_fs_waiting [OF c(1), of "read_callback env" st] by (simp add: read_next_chunk_def Let_def)
  show ?case
  proof (cases "rf_offset st < length (content (w_os w))")
    case True
    let ?st = "st\<lparr>rf_out := rf_out st @ take (nat r) bs, rf_offset := rf_offset st + nat r\<rparr>"
    have out: "rf_out ?st = take (rf_offset ?st) (content (w_os w2))"
      using less.prems(5) law True by (simp add: take_add)
    have "length (content (w_os w2)) - rf_offset ?st < length (content (w_os w)) - rf_offset st"
      using law True by auto
    then show ?thesis using less.hyps [of w2 ?st] less.prems law True out unfold
      by (simp add: on_file_read_def)
  next
    case False
    then show ?thesis using close_read_run [of w2 st ForReading] less.prems law unfold
      by (simp add: on_file_read_def)
  qed
qed

lemma read_file_complete:
  "\<exists>w'. read_file env path w = Some (Inr (content (w_os w)), w') \<and> content (w_os w') = content (w_os w)"
proof -
  let ?req = "FsOpen path [UV_FS_O_RDONLY] 0"
  obtain rc w1 where i: "issue env ?req w = (rc, w1)" "0 \<le> rc"
    "content (w_os w1) = content (w_os w)" "refers (w_os w1) = refers (w_os w)" by (rule issue_ok)
  obtain r bs w2 where c: "complete env ?req w1 = ((r, bs), w2)"
    "fs_finish env ?req (w_os w1) = ((r, bs), w_os w2)" by (rule complete_finish)
  have law: "0 \<le> r" "refers (w_os w2) r ForReading" "content (w_os w2) = content (w_os w)"
    using open_law [OF c(2)] i by (simp_all add: access_of_def)
  have "read_file env path w =
      map_option (\<lambda>(r, w''). (future_get r, w''))
        (case read_next_chunk env (read_file_state_init\<lparr>rf_file := r\<rparr>) w2 of (s, w1) \<Rightarrow>
          run_fs (read_callback env) env s w1)"
    using i c(1) law(1)
    by (simp add: read_file_def Let_def run_fs_waiting [OF c(1)] on_file_open_for_read_def)
  then show ?thesis
    using read_run [of w2 "read_file_state_init\<lparr>rf_file := r\<rparr>"] law
    by (auto simp: read_file_state_init_def)
qed

lemma close_write_run:
  assumes "refers (w_os w) (wf_file st) a" "0 \<le> wf_file st"
  shows "\<exists>w'. (case close_write_file env st w of (s, w1) \<Rightarrow> run_fs (write_callback env) env s w1) =
      Some (case wf_error st of None \<Rightarrow> Value () | Some e \<Rightarrow> Exception e, w') \<and>
    content (w_os w') = content (w_os w)"
proof -
  obtain rc w1 where i: "issue env (FsClose (wf_file st)) w = (rc, w1)" "0 \<le> rc"
    "content (w_os w1) = content (w_os w)" "refers (w_os w1) = refers (w_os w)" by (rule issue_ok)
  obtain r bs w2 where c: "complete env (FsClose (wf_file st)) w1 = ((r, bs), w2)"
    "fs_finish env (FsClose (wf_file st)) (w_os w1) = ((r, bs), w_os w2)" by (rule complete_finish)
  note law = close_law [OF _ c(2), of a]
  show ?thesis using assms i c(1) law
    by (auto simp: close_write_file_def on_write_close_def finalize_write_def run_fs.simps split: option.splits)
qed

text \<open>One round of writing: the request started and the result its callback finds.\<close>

lemma write_round:
  assumes "wf_offset st < length (wf_data st)"
    and "req = FsWrite (wf_file st)
      (take (to_uint (length (wf_data st) - wf_offset st)) (drop (wf_offset st) (wf_data st)))
      (if wf_append st then -1 else int (wf_offset st))"
  obtains w1 r bs w2 where "content (w_os (w1 :: 'os fs_world)) = content (w_os w)" "refers (w_os w1) = refers (w_os w)"
    "fs_finish env req (w_os w1) = ((r, bs), w_os w2)"
    "(case write_next_chunk env st w of (s, w1) \<Rightarrow> run_fs (write_callback env) env s w1) =
     (case on_file_write env r st w2 of (s, w1) \<Rightarrow> run_fs (write_callback env) env s w1)"
proof -
  obtain rc w1 where i: "issue env req w = (rc, w1)" "0 \<le> rc"
    "content (w_os w1) = content (w_os w)" "refers (w_os w1) = refers (w_os w)" by (rule issue_ok)
  obtain r bs w2 where c: "complete env req w1 = ((r, bs), w2)"
    "fs_finish env req (w_os w1) = ((r, bs), w_os w2)" by (rule complete_finish)
  have next_req: "write_next_chunk env st w = (Waiting req st, w1)"
    using i(1,2) assms by (simp add: write_next_chunk_def Let_def)
  have "(case write_next_chunk env st w of (s, w1) \<Rightarrow> run_fs (write_callback env) env s w1) =
      (case on_file_write env r st w2 of (s, w1) \<Rightarrow> run_fs (write_callback env) env s w1)"
    using next_req run_fs_waiting [OF c(1), of "write_callback env" st] assms(2) by simp
  then show thesis using that i c by blast
qed

lemma write_run:
  assumes "refers (w_os w) (wf_file st) (write_access (wf_append st))" "0 \<le> wf_file st" "wf_error st = None"
    and "wf_offset st \<le> length (wf_data st)" "length (wf_data st) < 2 ^ 32"
    and "content (w_os w) = old @ take (wf_offset st) (wf_data st)" "wf_append st \<or> old = []"
  shows "\<exists>w'. (case write_next_chunk env st w of (s, w1) \<Rightarrow> run_fs (write_callback env) env s w1) =
      Some (Value (), w') \<and> content (w_os w') = old @ wf_data st"
  using assms
proof (induction "length (wf_data st) - wf_offset st" arbitrary: st w rule: less_induct)
  case less
  show ?case
  proof (cases "wf_offset st < length (wf_data st)")
    case True
    let ?buf = "take (to_uint (length (wf_data st) - wf_offset st)) (drop (wf_offset st) (wf_data st))"
    let ?off = "if wf_append st then -1 else int (wf_offset st)"
    obtain w1 r bs w2 where c: "content (w_os (w1 :: 'os fs_world)) = content (w_os w)" "refers (w_os w1) = refers (w_os w)"
      and f: "fs_finish env (FsWrite (wf_file st) ?buf ?off) (w_os w1) = ((r, bs), w_os w2)"
      and run: "(case write_next_chunk env st w of (s, w1) \<Rightarrow> run_fs (write_callback env) env s w1) =
        (case on_file_write env r st w2 of (s, w1) \<Rightarrow> run_fs (write_callback env) env s w1)"
      by (rule write_round [OF True refl])
    have buf: "?buf = drop (wf_offset st) (wf_data st)" using less.prems(5) by (simp add: to_uint_def)
    have law: "0 < r" "nat r \<le> length (wf_data st) - wf_offset st" "refers (w_os w2) = refers (w_os w)"
      "content (w_os w2) = old @ take (wf_offset st + nat r) (wf_data st)"
    proof -
      have "0 < r \<and> nat r \<le> length (wf_data st) - wf_offset st \<and> refers (w_os w2) = refers (w_os w) \<and>
        content (w_os w2) = old @ take (wf_offset st + nat r) (wf_data st)"
      proof (cases "wf_append st")
        case True
        then show ?thesis
          using append_law [of "w_os w1" "wf_file st" "drop (wf_offset st) (wf_data st)" r bs "w_os w2"]
            f c buf less.prems \<open>wf_offset st < length (wf_data st)\<close> by (simp add: take_add)
      next
        case False
        then show ?thesis
          using write_law [of "w_os w1" "wf_file st" "drop (wf_offset st) (wf_data st)" "wf_offset st" r bs "w_os w2"]
            f c buf less.prems \<open>wf_offset st < length (wf_data st)\<close> by (auto simp: take_add splice_inside)
      qed
      then show "0 < r" "nat r \<le> length (wf_data st) - wf_offset st" "refers (w_os w2) = refers (w_os w)"
        "content (w_os w2) = old @ take (wf_offset st + nat r) (wf_data st)" by blast+
    qed
    let ?st = "st\<lparr>wf_offset := wf_offset st + nat r\<rparr>"
    have "length (wf_data ?st) - wf_offset ?st < length (wf_data st) - wf_offset st" using law True by simp
    then show ?thesis using less.hyps [of ?st w2] less.prems law True run by (simp add: on_file_write_def)
  next
    case False
    then show ?thesis using close_write_run [of w st "write_access (wf_append st)"] less.prems
      by (simp add: write_next_chunk_def)
  qed
qed

lemma write_file_open:
  obtains r w2 where "0 \<le> r" "refers (w_os w2) r (write_access app)" "content (w_os w2) = (if app then content (w_os w) else [])"
    "write_file env path data app w = map_option (\<lambda>(r, w''). (future_get r, w''))
      (case write_next_chunk env \<lparr>wf_file = r, wf_data = data, wf_offset = 0, wf_append = app, wf_error = None\<rparr> w2 of
        (s, w1) \<Rightarrow> run_fs (write_callback env) env s w1)"
proof -
  let ?req = "FsOpen path (write_flags app) 420"
  obtain rc w1 where i: "issue env ?req w = (rc, w1)" "0 \<le> rc"
    "content (w_os w1) = content (w_os w)" "refers (w_os w1) = refers (w_os w)" by (rule issue_ok)
  obtain r bs w2 where c: "complete env ?req w1 = ((r, bs), w2)"
    "fs_finish env ?req (w_os w1) = ((r, bs), w_os w2)" by (rule complete_finish)
  have law: "0 \<le> r" "refers (w_os w2) r (write_access app)" "content (w_os w2) = (if app then content (w_os w) else [])"
    using open_law [OF c(2)] i by (auto simp: write_flags_def access_of_def split: if_splits)
  have "write_file env path data app w = map_option (\<lambda>(r, w''). (future_get r, w''))
      (case write_next_chunk env \<lparr>wf_file = r, wf_data = data, wf_offset = 0, wf_append = app, wf_error = None\<rparr> w2 of
        (s, w1) \<Rightarrow> run_fs (write_callback env) env s w1)"
    using i c(1) law(1)
    by (simp add: write_file_def Let_def run_fs_waiting [OF c(1)] on_file_open_for_write_def)
  then show thesis using that law by blast
qed

lemma write_file_complete:
  assumes "length data < 2 ^ 32"
  shows "\<exists>w'. write_file env path data app w = Some (Inr (), w') \<and>
    content (w_os w') = (if app then content (w_os w) else []) @ data"
proof -
  obtain r w2 where o: "0 \<le> r" "refers (w_os w2) r (write_access app)" "content (w_os w2) = (if app then content (w_os w) else [])"
    "write_file env path data app w = map_option (\<lambda>(r, w''). (future_get r, w''))
      (case write_next_chunk env \<lparr>wf_file = r, wf_data = data, wf_offset = 0, wf_append = app, wf_error = None\<rparr> w2 of
        (s, w1) \<Rightarrow> run_fs (write_callback env) env s w1)" by (rule write_file_open)
  show ?thesis
    using write_run [of w2 "\<lparr>wf_file = r, wf_data = data, wf_offset = 0, wf_append = app, wf_error = None\<rparr>"
        "if app then content (w_os w) else []"] o assms by auto
qed

lemma write_file_wrapped:
  assumes "0 < length data" "2 ^ 32 dvd length data"
  shows "\<exists>w'. write_file env path data app w = Some (Inl (UvError ''uv_fs_write'' 0), w') \<and>
    content (w_os w') = (if app then content (w_os w) else [])"
proof -
  obtain fd w2 where o: "0 \<le> fd" "refers (w_os w2) fd (write_access app)" "content (w_os w2) = (if app then content (w_os w) else [])"
    "write_file env path data app w = map_option (\<lambda>(r, w''). (future_get r, w''))
      (case write_next_chunk env \<lparr>wf_file = fd, wf_data = data, wf_offset = 0, wf_append = app, wf_error = None\<rparr> w2 of
        (s, w1) \<Rightarrow> run_fs (write_callback env) env s w1)" by (rule write_file_open)
  let ?st = "\<lparr>wf_file = fd, wf_data = data, wf_offset = 0, wf_append = app, wf_error = None\<rparr>"
  have z: "to_uint (length data) = 0" using assms(2) by (simp add: to_uint_def)
  have off: "wf_offset ?st < length (wf_data ?st)" using assms(1) by simp
  have req: "FsWrite fd [] (if app then -1 else 0) = FsWrite (wf_file ?st)
      (take (to_uint (length (wf_data ?st) - wf_offset ?st)) (drop (wf_offset ?st) (wf_data ?st)))
      (if wf_append ?st then -1 else int (wf_offset ?st))" using z by simp
  obtain w3 r bs w4 where c: "content (w_os (w3 :: 'os fs_world)) = content (w_os w2)" "refers (w_os w3) = refers (w_os w2)"
    and f: "fs_finish env (FsWrite fd [] (if app then -1 else 0)) (w_os w3) = ((r, bs), w_os w4)"
    and run: "(case write_next_chunk env ?st w2 of (s, w1) \<Rightarrow> run_fs (write_callback env) env s w1) =
      (case on_file_write env r ?st w4 of (s, w1) \<Rightarrow> run_fs (write_callback env) env s w1)"
    by (rule write_round [OF off req, of w2])
  show ?thesis
    using write_empty_law [OF _ f] c o run
      close_write_run [of w4 "?st\<lparr>wf_error := Some (uv_error ''uv_fs_write'' 0)\<rparr>" "write_access app"]
    by (auto simp: on_file_write_def uv_error_def)
qed

end

subsection \<open>A file in memory\<close>

text \<open>A file held in memory; every call moves at most \<open>m + 1\<close> bytes.\<close>

fun mem_finish :: "nat \<Rightarrow> fs_req \<Rightarrow> byte list \<Rightarrow> (int \<times> byte list) \<times> byte list" where
  "mem_finish m (FsOpen path flags mode) file = ((3, []), if UV_FS_O_TRUNC \<in> set flags then [] else file)"
| "mem_finish m (FsRead fd n off) file =
     (let bs = take (min n (Suc m)) (drop (nat off) file) in ((int (length bs), bs), file))"
| "mem_finish m (FsWrite fd data off) file =
     (let bs = take (Suc m) data in
      ((int (length bs), []),
       if off = -1 then file @ bs
       else splice (nat off) bs file))"
| "mem_finish m (FsClose fd) file = ((0, []), file)"

definition mem_fs :: "nat \<Rightarrow> byte list fs_env" where
  "mem_fs m = \<lparr>fs_start = (\<lambda>req file. (0, file)), fs_finish = mem_finish m\<rparr>"

interpretation mem_file: regular_file "mem_fs m" path "\<lambda>file. file" "\<lambda>file fd a. True" for m path
proof
  fix os data r bs os' and fd :: int and off :: nat
  assume "data \<noteq> []" "fs_finish (mem_fs m) (FsWrite fd data (int off)) os = ((r, bs), os')"
  then show "0 < r \<and> nat r \<le> length data \<and> (\<lambda>fd a. True) = (\<lambda>fd a. True) \<and>
      os' = splice off (take (nat r) data) os"
    by (cases "Suc m \<le> length data") (auto simp: mem_fs_def Let_def min_def nat_add_distrib)
next
  fix os n r bs os' and fd :: int and off :: nat
  assume "0 < n" "fs_finish (mem_fs m) (FsRead fd n (int off)) os = ((r, bs), os')"
  then show "(\<lambda>fd a. True) = (\<lambda>fd a. True) \<and> os' = os \<and>
      (if off < length os then 0 < r \<and> off + nat r \<le> length os \<and> nat r \<le> n \<and>
         take (nat r) bs = take (nat r) (drop off os) else r = 0)"
    by (auto simp: mem_fs_def Let_def min.coboundedI2)
qed (auto simp: mem_fs_def Let_def min_def)

lemma mem_fs_law: "regular_file (mem_fs m) path (\<lambda>file. file) (\<lambda>file fd a. True)"
  by (rule mem_file.regular_file_axioms)

text \<open>A broken disk: opening succeeds, every transfer fails with -5 and closing with -9.\<close>

fun broken_finish :: "fs_req \<Rightarrow> unit \<Rightarrow> (int \<times> byte list) \<times> unit" where
  "broken_finish (FsOpen path flags mode) file = ((3, []), ())"
| "broken_finish (FsClose fd) file = ((-9, []), ())"
| "broken_finish req file = ((-5, []), ())"

definition broken_fs :: "unit fs_env" where
  "broken_fs = \<lparr>fs_start = (\<lambda>req file. (0, file)), fs_finish = broken_finish\<rparr>"

definition broken_log :: "string \<Rightarrow> open_flag list \<Rightarrow> nat \<Rightarrow> fs_req \<Rightarrow> fs_event list" where
  "broken_log path flags mode req =
     [Started (FsOpen path flags mode) 0, Finished (FsOpen path flags mode) 3, Started req 0, Finished req (-5),
      Started (FsClose 3) 0, Finished (FsClose 3) (-9)]"

lemma broken_read:
  "read_file broken_fs path \<lparr>w_os = (), w_log = []\<rparr> =
     Some (Inl (UvError ''uv_fs_read'' (-5)),
       \<lparr>w_os = (), w_log = broken_log path [UV_FS_O_RDONLY] 0 (FsRead 3 chunk_size 0)\<rparr>)"
  by (simp add: read_file_def issue_def complete_def broken_fs_def broken_log_def run_fs.simps
      on_file_open_for_read_def read_next_chunk_def on_file_read_def close_read_file_def on_read_close_def
      finalize_read_def read_file_state_init_def uv_error_def Let_def)

lemma broken_write:
  "write_file broken_fs path [7] False \<lparr>w_os = (), w_log = []\<rparr> =
     Some (Inl (UvError ''uv_fs_write'' (-5)),
       \<lparr>w_os = (), w_log = broken_log path (write_flags False) 420 (FsWrite 3 [7] 0)\<rparr>)"
  by (simp add: write_file_def issue_def complete_def broken_fs_def broken_log_def run_fs.simps
      on_file_open_for_write_def write_next_chunk_def on_file_write_def close_write_file_def on_write_close_def
      finalize_write_def to_uint_def uv_error_def Let_def)

subsection \<open>Properties\<close>

text \<open>
  C18. \<open>read_file\<close> returns, and returns the whole content of a regular file however the system splits
  the reads.
\<close>

theorem read_file_whole_content:
  assumes "regular_file env path content refers"
  shows "\<exists>w'. read_file env path w = Some (Inr (content (w_os w)), w') \<and> content (w_os w') = content (w_os w)"
  by (rule regular_file.read_file_complete [OF assms])

theorem read_file_whole_content_witness:
  "\<exists>w'. read_file (mem_fs 1) ''/a'' \<lparr>w_os = [1, 2, 3, 4, 5], w_log = []\<rparr> = Some (Inr [1, 2, 3, 4, 5], w')"
  using read_file_whole_content [OF mem_fs_law, of 1 "''/a''" "\<lparr>w_os = [1, 2, 3, 4, 5], w_log = []\<rparr>"] by auto

text \<open>
  C19. \<open>write_file\<close> returns, and leaves in a regular file exactly the data (or, appending, the old
  content followed by the data) for data below 4 GiB, however the system splits the writes.
\<close>

theorem write_file_stores_data:
  assumes "regular_file env path content refers" "length data < 2 ^ 32"
  shows "\<exists>w'. write_file env path data app w = Some (Inr (), w') \<and>
    content (w_os w') = (if app then content (w_os w) else []) @ data"
  by (rule regular_file.write_file_complete [OF assms])

theorem write_file_stores_data_witness:
  "\<exists>w'. write_file (mem_fs 1) ''/a'' [4, 5, 6] True \<lparr>w_os = [1, 2, 3], w_log = []\<rparr> = Some (Inr (), w') \<and>
     w_os w' = [1, 2, 3, 4, 5, 6]"
  using write_file_stores_data [OF mem_fs_law, of "[4, 5, 6]" 1 "''/a''" True "\<lparr>w_os = [1, 2, 3], w_log = []\<rparr>"]
  by simp

text \<open>
  Data whose size is a positive multiple of 4 GiB is never written: the buffer length is cut to
  32 bits, the empty write is taken for an error, and \<open>write_file\<close> throws; without \<open>append\<close> the old
  content is lost as well.
\<close>

theorem write_file_4gib_fails:
  assumes "regular_file env path content refers" "0 < length data" "2 ^ 32 dvd length data"
  shows "\<exists>w'. write_file env path data app w = Some (Inl (UvError ''uv_fs_write'' 0), w') \<and>
    content (w_os w') = (if app then content (w_os w) else [])"
  by (rule regular_file.write_file_wrapped [OF assms])

theorem write_file_4gib_fails_witness:
  "\<exists>w'. write_file (mem_fs 9) ''/a'' (replicate (2 ^ 32) 0) False \<lparr>w_os = [1, 2, 3], w_log = []\<rparr> =
     Some (Inl (UvError ''uv_fs_write'' 0), w') \<and> w_os w' = []"
  using write_file_4gib_fails [OF mem_fs_law, of "replicate (2 ^ 32) 0" 9 "''/a''" False
      "\<lparr>w_os = [1, 2, 3], w_log = []\<rparr>"]
  by simp

text \<open>
  C39. Whatever the system answers, a \<open>read_file\<close> that returns has opened at most one descriptor and
  requested its close exactly once, and the exception it throws, if any, is that of the first failing
  step: a later failure, of the close included, never hides it, and no failure is swallowed.
\<close>

theorem read_file_first_failure:
  assumes "read_file env path \<lparr>w_os = os, w_log = []\<rparr> = Some (r, w')"
  shows "closes (w_log w') = opened (w_log w') \<and> length (opened (w_log w')) \<le> 1 \<and>
    first_failure ''read'' (w_log w') = (case r of Inl e \<Rightarrow> Some e | Inr v \<Rightarrow> None)"
  using read_file_result [OF assms] by (simp add: chain_result_def)

theorem read_file_first_failure_witness:
  "\<exists>w'. read_file broken_fs ''/a'' \<lparr>w_os = (), w_log = []\<rparr> = Some (Inl (UvError ''uv_fs_read'' (-5)), w') \<and>
     first_failure ''read'' (w_log w') = Some (UvError ''uv_fs_read'' (-5)) \<and> closes (w_log w') = opened (w_log w') \<and> opened (w_log w') = [3]"
  using read_file_first_failure [OF broken_read, of "''/a''"] broken_read [of "''/a''"] by (simp add: broken_log_def)

text \<open>
  C20. Whatever the system answers, a \<open>write_file\<close> that returns has opened at most one descriptor and requested its close exactly once, and
  throws the failure of the first failing step, if any; a write that moves no byte counts as a failure.
\<close>

theorem write_file_first_failure:
  assumes "write_file env path data app \<lparr>w_os = os, w_log = []\<rparr> = Some (r, w')"
  shows "closes (w_log w') = opened (w_log w') \<and> length (opened (w_log w')) \<le> 1 \<and>
    first_failure ''write'' (w_log w') = (case r of Inl e \<Rightarrow> Some e | Inr v \<Rightarrow> None)"
  using write_file_result [OF assms] by (simp add: chain_result_def)

theorem write_file_first_failure_witness:
  "first_failure ''write'' (broken_log ''/a'' (write_flags False) 420 (FsWrite 3 [7] 0)) =
     Some (UvError ''uv_fs_write'' (-5)) \<and>
   closes (broken_log ''/a'' (write_flags False) 420 (FsWrite 3 [7] 0)) = [3]"
  using write_file_first_failure [OF broken_write, of "''/a''"] by (simp add: broken_log_def)

end
