(* ===== verification/Closable.thy ===== *)
theory Closable
  imports Prelude "HOL-Library.Multiset"
begin

text \<open>
  The closing contract. A TCP connection and a UDP socket are closed in the same way: a close call
  may bring a promise; the handle is given to \<open>uv_close\<close> once; the promises collected meanwhile are
  set by the close callback, or at once when the handle is gone or its loop is no longer alive.
  libuv aborts the process when a handle is closed twice, so the number of \<open>uv_close\<close> calls matters.

  An operation returns the new state, the promises it set, in order, and the number of \<open>uv_close\<close>
  calls it made. The lemmas hold for any sequence of close calls and close callbacks.
\<close>

datatype close_op = CloseCall bool "pid option" | CloseDone

definition close_step ::
  "(bool \<Rightarrow> pid option \<Rightarrow> 's \<Rightarrow> 's \<times> pid list \<times> nat) \<Rightarrow> ('s \<Rightarrow> 's \<times> pid list) \<Rightarrow>
   close_op \<Rightarrow> 's \<Rightarrow> 's \<times> pid list \<times> nat" where
  "close_step start finish a s =
     (case a of
        CloseCall alive p \<Rightarrow> start alive p s
      | CloseDone \<Rightarrow> (let (s', ds) = finish s in (s', ds, 0)))"

fun close_run ::
  "(bool \<Rightarrow> pid option \<Rightarrow> 's \<Rightarrow> 's \<times> pid list \<times> nat) \<Rightarrow> ('s \<Rightarrow> 's \<times> pid list) \<Rightarrow>
   close_op list \<Rightarrow> 's \<Rightarrow> 's \<times> pid list \<times> nat" where
  "close_run start finish [] s = (s, [], 0)"
| "close_run start finish (a # ops) s =
     (let (s', ds, n) = close_step start finish a s;
          (t, ds', n') = close_run start finish ops s'
      in (t, ds @ ds', n + n'))"

text \<open>The close callback runs only after \<open>uv_close\<close>.\<close>

fun close_ok ::
  "('s \<Rightarrow> bool) \<Rightarrow> (bool \<Rightarrow> pid option \<Rightarrow> 's \<Rightarrow> 's \<times> pid list \<times> nat) \<Rightarrow> ('s \<Rightarrow> 's \<times> pid list) \<Rightarrow>
   close_op list \<Rightarrow> 's \<Rightarrow> bool" where
  "close_ok uv_closing start finish [] s = True"
| "close_ok uv_closing start finish (a # ops) s =
     ((a = CloseDone \<longrightarrow> uv_closing s) \<and>
      close_ok uv_closing start finish ops (fst (close_step start finish a s)))"

fun close_promises :: "close_op list \<Rightarrow> pid list" where
  "close_promises [] = []"
| "close_promises (CloseCall alive (Some p) # ops) = p # close_promises ops"
| "close_promises (a # ops) = close_promises ops"

lemma close_promises_Cons: "close_promises (a # ops) = close_promises [a] @ close_promises ops"
  by (cases "a # ops" rule: close_promises.cases) auto

locale closable =
  fixes inv :: "'s \<Rightarrow> bool"
    and waiting :: "'s \<Rightarrow> pid list"
    and uv_closing :: "'s \<Rightarrow> bool"
    and start :: "bool \<Rightarrow> pid option \<Rightarrow> 's \<Rightarrow> 's \<times> pid list \<times> nat"
    and finish :: "'s \<Rightarrow> 's \<times> pid list"
  assumes start_inv: "inv s \<Longrightarrow> inv (fst (start alive p s))"
    and finish_inv: "inv s \<Longrightarrow> uv_closing s \<Longrightarrow> inv (fst (finish s))"
    and start_settles: "inv s \<Longrightarrow> start alive p s = (s', ds, n) \<Longrightarrow>
          mset (waiting s) + mset (case p of None \<Rightarrow> [] | Some q \<Rightarrow> [q]) = mset ds + mset (waiting s')"
    and start_uv: "inv s \<Longrightarrow> start alive p s = (s', ds, n) \<Longrightarrow>
          (uv_closing s \<longrightarrow> uv_closing s') \<and> n = (if uv_closing s' \<and> \<not> uv_closing s then 1 else 0)"
    and finish_settles: "inv s \<Longrightarrow> uv_closing s \<Longrightarrow> finish s = (s', ds) \<Longrightarrow>
          ds = waiting s \<and> waiting s' = [] \<and> uv_closing s'"
    and not_stranded: "inv s \<Longrightarrow> waiting s \<noteq> [] \<Longrightarrow> uv_closing s"
begin

lemma step_facts:
  assumes "inv s" "a = CloseDone \<longrightarrow> uv_closing s" "close_step start finish a s = (s', ds, n)"
  shows "inv s'" "mset (waiting s) + mset (close_promises [a]) = mset ds + mset (waiting s')"
    "(uv_closing s \<longrightarrow> uv_closing s') \<and> n = (if uv_closing s' \<and> \<not> uv_closing s then 1 else 0)"
proof -
  have "inv s' \<and> mset (waiting s) + mset (close_promises [a]) = mset ds + mset (waiting s') \<and>
    (uv_closing s \<longrightarrow> uv_closing s') \<and> n = (if uv_closing s' \<and> \<not> uv_closing s then 1 else 0)"
  proof (cases a)
    case (CloseCall alive p)
    then show ?thesis
      using assms start_inv [of s alive p] start_settles [of s alive p s' ds n] start_uv [of s alive p s' ds n]
      by (cases p) (simp_all add: close_step_def)
  next
    case CloseDone
    then obtain s1 d1 where f: "finish s = (s1, d1)" "s' = s1" "ds = d1" "n = 0"
      using assms(3) by (cases "finish s") (simp add: close_step_def)
    show ?thesis
      using assms(1,2) CloseDone f finish_inv [of s] finish_settles [of s s1 d1] by simp
  qed
  then show "inv s'" "mset (waiting s) + mset (close_promises [a]) = mset ds + mset (waiting s')"
    "(uv_closing s \<longrightarrow> uv_closing s') \<and> n = (if uv_closing s' \<and> \<not> uv_closing s then 1 else 0)" by blast+
qed

text \<open>Every promise is set exactly once or still waits, and then the close callback is due.\<close>

lemma run_facts:
  assumes "inv s" "close_ok uv_closing start finish ops s" "close_run start finish ops s = (t, ds, n)"
  shows "inv t \<and> mset (waiting s) + mset (close_promises ops) = mset ds + mset (waiting t) \<and>
    (uv_closing s \<longrightarrow> uv_closing t) \<and> n = (if uv_closing t \<and> \<not> uv_closing s then 1 else 0)"
  using assms
proof (induction ops arbitrary: s ds n)
  case (Cons a ops)
  obtain s1 d1 n1 where st: "close_step start finish a s = (s1, d1, n1)" by (metis surj_pair)
  obtain t2 d2 n2 where run: "close_run start finish ops s1 = (t2, d2, n2)" by (metis surj_pair)
  have eq: "t = t2" "ds = d1 @ d2" "n = n1 + n2" using Cons.prems(3) st run by simp_all
  note f = step_facts [OF Cons.prems(1) _ st]
  have IH: "inv t2 \<and> mset (waiting s1) + mset (close_promises ops) = mset d2 + mset (waiting t2) \<and>
    (uv_closing s1 \<longrightarrow> uv_closing t2) \<and> n2 = (if uv_closing t2 \<and> \<not> uv_closing s1 then 1 else 0)"
    using Cons.IH [of s1 d2 n2] run eq(1) f(1) Cons.prems(2) st by simp
  have g: "mset (waiting s) + mset (close_promises [a]) = mset d1 + mset (waiting s1)"
    "(uv_closing s \<longrightarrow> uv_closing s1) \<and> n1 = (if uv_closing s1 \<and> \<not> uv_closing s then 1 else 0)"
    using f(2,3) Cons.prems(2) by simp_all
  have "mset (waiting s) + mset (close_promises [a]) + mset (close_promises ops) =
      mset d1 + mset d2 + mset (waiting t2)"
    using g(1) IH by (simp add: ac_simps)
  then show ?case using IH g(2) eq unfolding close_promises_Cons [of a ops] by (auto simp: ac_simps)
qed simp

lemma run_settled_once:
  assumes "inv s" "waiting s = []" "close_ok uv_closing start finish ops s"
    and "close_run start finish ops s = (t, ds, n)"
  shows "mset (close_promises ops) = mset ds + mset (waiting t)" "n \<le> 1" "waiting t \<noteq> [] \<longrightarrow> uv_closing t"
  using run_facts [OF assms(1,3,4)] assms(2) not_stranded [of t] by (auto split: if_splits)

end

end
