(* ===== verification/Lifecycle.thy ===== *)
theory Lifecycle
  imports Prelude
begin

text \<open>
  The life of an object that owns a libuv handle: open, closing from the call of \<open>uv_close\<close> on, closed from its callback
  on. The order of the phases is a linear order, and the contract \<open>lifecycle\<close> says that no operation goes back in it.
  It is met by connections, servers and UDP sockets.
\<close>

datatype phase = Open | Closing | Closed

instantiation phase :: linorder
begin

fun phase_rank :: "phase \<Rightarrow> nat" where
  "phase_rank Open = 0"
| "phase_rank Closing = 1"
| "phase_rank Closed = 2"

definition less_eq_phase :: "phase \<Rightarrow> phase \<Rightarrow> bool" where
  "p \<le> q \<longleftrightarrow> phase_rank p \<le> phase_rank q"

definition less_phase :: "phase \<Rightarrow> phase \<Rightarrow> bool" where
  "p < q \<longleftrightarrow> phase_rank p < phase_rank q"

instance
proof
  fix p q :: phase
  show "p \<le> q \<Longrightarrow> q \<le> p \<Longrightarrow> p = q" by (cases p; cases q) (simp_all add: less_eq_phase_def)
qed (auto simp: less_eq_phase_def less_phase_def)

end

lemma phase_bounds [simp]: "Open \<le> p" "p \<le> Closed"
  by (cases p; simp add: less_eq_phase_def)+

lemma phase_top [simp]: "Closed \<le> p \<longleftrightarrow> p = Closed"
  by (cases p) (simp_all add: less_eq_phase_def)

lemma phase_bottom [simp]: "p \<le> Open \<longleftrightarrow> p = Open"
  by (cases p) (simp_all add: less_eq_phase_def)

lemma phase_mid [simp]: "Closing \<le> p \<longleftrightarrow> p \<noteq> Open"
  by (cases p) (simp_all add: less_eq_phase_def)

text \<open>The phase given by the flags \<open>closing\<close> and \<open>closed\<close> of a state object.\<close>

definition phase_of :: "bool \<Rightarrow> bool \<Rightarrow> phase" where
  "phase_of closing closed = (if closed then Closed else if closing then Closing else Open)"

lemma phase_of_simps [simp]:
  "phase_of closing True = Closed" "phase_of True False = Closing" "phase_of False False = Open"
  "phase_of closing closed = Closed \<longleftrightarrow> closed" "phase_of closing closed = Open \<longleftrightarrow> \<not> closing \<and> \<not> closed"
  by (simp_all add: phase_of_def)

locale lifecycle =
  fixes phase :: "'s \<Rightarrow> phase" and moves :: "'s \<Rightarrow> 's \<Rightarrow> bool"
  assumes forward: "moves s t \<Longrightarrow> phase s \<le> phase t"
begin

lemma never_back: "moves\<^sup>*\<^sup>* s t \<Longrightarrow> phase s \<le> phase t"
  by (induction rule: rtranclp_induct) (auto dest: forward)

lemma closed_stays: "moves\<^sup>*\<^sup>* s t \<Longrightarrow> phase s = Closed \<Longrightarrow> phase t = Closed"
  using never_back by fastforce

lemma closing_stays: "moves\<^sup>*\<^sup>* s t \<Longrightarrow> phase s \<noteq> Open \<Longrightarrow> phase t \<noteq> Open"
  using never_back [of s t] by (cases "phase s"; cases "phase t") (simp_all add: less_eq_phase_def)

end

end
