(* ===== verification/Tcp_Connection.thy ===== *)
theory Tcp_Connection
  imports Handoff Closable Lifecycle
begin

text \<open>
  A TCP connection (src/tcp.cpp, \<open>ConnectionState\<close> and \<open>TcpConnection\<close>). The record has the fields of
  \<open>ConnectionState\<close> and two flags of the libuv handle inside it: \<open>cs_reading\<close>, set by \<open>uv_read_start\<close> and
  cleared by \<open>uv_read_stop\<close> and \<open>uv_close\<close>, and \<open>cs_uv_closing\<close>, what \<open>uv_is_closing\<close> answers. A
  \<open>PendingRead\<close> is identified with its promise. A \<open>shared_ptr\<close> to the state is an \<open>option\<close>.

  Handlers return the new state and their effects in order: the settings of promises and the calls
  of \<open>uv_close\<close>. Return codes of libuv are arguments of the operation that makes the call.
\<close>

record connection_state =
  cs_initialized :: bool
  cs_closing :: bool
  cs_closed :: bool
  cs_eof :: bool
  cs_pending_read :: "pid option"
  cs_buffered_reads :: "byte list list"
  cs_close_waiters :: "pid list"
  cs_keepalive :: bool
  cs_reading :: bool
  cs_uv_closing :: bool

datatype conn_effect = SetRead pid "byte list outcome" | SetClose pid | UvClose

text \<open>The lines that \<open>on_connection_closed\<close> and the dead-loop branch of \<open>start_close\<close> share.\<close>

definition settle_closed :: "connection_state \<Rightarrow> connection_state \<times> conn_effect list" where
  "settle_closed state =
     (state\<lparr>cs_closed := True, cs_closing := False, cs_pending_read := None, cs_close_waiters := [],
        cs_keepalive := False\<rparr>,
      (case cs_pending_read state of
         None \<Rightarrow> []
       | Some pending \<Rightarrow> [SetRead pending (Exception (RuntimeError ''connection closed''))]) @
      map SetClose (cs_close_waiters state))"

definition on_connection_closed :: "connection_state \<Rightarrow> connection_state \<times> conn_effect list" where
  "on_connection_closed state = settle_closed state"

definition set_close :: "pid option \<Rightarrow> conn_effect list" where
  "set_close promise = (case promise of None \<Rightarrow> [] | Some p \<Rightarrow> [SetClose p])"

definition push_close_waiter :: "pid option \<Rightarrow> connection_state \<Rightarrow> connection_state" where
  "push_close_waiter promise state =
     (case promise of None \<Rightarrow> state | Some p \<Rightarrow> state\<lparr>cs_close_waiters := cs_close_waiters state @ [p]\<rparr>)"

definition start_close ::
  "loop_lifetime_token \<Rightarrow> pid option \<Rightarrow> connection_state option \<Rightarrow>
   connection_state option \<times> conn_effect list" where
  "start_close token promise ptr =
     (case ptr of
        None \<Rightarrow> (None, set_close promise)
      | Some state \<Rightarrow>
          (if \<not> cs_initialized state \<or> cs_closed state then (Some state, set_close promise)
           else
             let state1 = push_close_waiter promise state in
             if \<not> is_loop_alive token then
               (let (state2, effs) = settle_closed state1 in (Some state2, effs))
             else if cs_closing state1 then (Some state1, [])
             else
               let state2 = state1\<lparr>cs_closing := True\<rparr> in
               if \<not> cs_uv_closing state2
               then (Some (state2\<lparr>cs_uv_closing := True, cs_reading := False\<rparr>), [UvClose])
               else (Some state2, [])))"

definition create_connection :: "int \<Rightarrow> err + connection_state" where
  "create_connection init_rc =
     (if init_rc < 0 then Inl (uv_error ''uv_tcp_init'' init_rc)
      else Inr \<lparr>cs_initialized = True, cs_closing = False, cs_closed = False, cs_eof = False,
        cs_pending_read = None, cs_buffered_reads = [], cs_close_waiters = [], cs_keepalive = True,
        cs_reading = False, cs_uv_closing = False\<rparr>)"

definition finish_read_success ::
  "byte list \<Rightarrow> connection_state \<Rightarrow> connection_state \<times> conn_effect list" where
  "finish_read_success out state =
     (case cs_pending_read state of
        None \<Rightarrow> (state, [])
      | Some pending \<Rightarrow> (state\<lparr>cs_pending_read := None\<rparr>, [SetRead pending (Value out)]))"

definition finish_read_error :: "err \<Rightarrow> connection_state \<Rightarrow> connection_state \<times> conn_effect list" where
  "finish_read_error ex state =
     (case cs_pending_read state of
        None \<Rightarrow> (state, [])
      | Some pending \<Rightarrow> (state\<lparr>cs_pending_read := None\<rparr>, [SetRead pending (Exception ex)]))"

definition uv_read_stop :: "connection_state \<Rightarrow> connection_state" where
  "uv_read_stop state = state\<lparr>cs_reading := False\<rparr>"

definition on_connection_read ::
  "uv_codes \<Rightarrow> int \<Rightarrow> byte list \<Rightarrow> connection_state \<Rightarrow> connection_state \<times> conn_effect list" where
  "on_connection_read c nread base state =
     (if nread > 0 then
        (let state1 = uv_read_stop state; out = take (nat nread) base in
         if cs_pending_read state1 \<noteq> None then finish_read_success out state1
         else (state1\<lparr>cs_buffered_reads := cs_buffered_reads state1 @ [out]\<rparr>, []))
      else if nread = uv_eof c then
        (let state1 = uv_read_stop (state\<lparr>cs_eof := True\<rparr>) in
         if cs_pending_read state1 \<noteq> None then finish_read_success [] state1 else (state1, []))
      else if nread < 0 then
        finish_read_error (uv_error ''uv_read_start(read)'' nread) (uv_read_stop state)
      else (state, []))"

text \<open>
  \<open>connection_read\<close> up to \<open>future.get()\<close>; \<open>rc\<close> is what \<open>uv_read_start\<close> returns if it is called.
  \<open>connection_read_for\<close> repeats these lines before it waits; the last component is the time-out it waits for.
\<close>

definition connection_read ::
  "loop_lifetime_token \<Rightarrow> pid \<Rightarrow> int \<Rightarrow> connection_state option \<Rightarrow>
   byte list reply \<times> connection_state option" where
  "connection_read token promise rc ptr =
     (case ptr of
        None \<Rightarrow> (Throw (RuntimeError ''connection is closed''), None)
      | Some state \<Rightarrow>
          (if \<not> cs_initialized state \<or> cs_closed state
           then (Throw (RuntimeError ''connection is closed''), ptr)
           else case ensure_loop_alive token of
             Some ex \<Rightarrow> (Throw ex, ptr)
           | None \<Rightarrow>
               (case cs_buffered_reads state of
                  out # rest \<Rightarrow> (Return out, Some (state\<lparr>cs_buffered_reads := rest\<rparr>))
                | [] \<Rightarrow>
                    (if cs_eof state then (Return [], ptr)
                     else if cs_pending_read state \<noteq> None
                     then (Throw (RuntimeError ''another read is already pending''), ptr)
                     else if rc < 0 then (Throw (uv_error ''uv_read_start'' rc), ptr)
                     else (Await promise,
                           Some (state\<lparr>cs_pending_read := Some promise, cs_reading := True\<rparr>))))))"

definition connection_read_for_begin ::
  "loop_lifetime_token \<Rightarrow> pid \<Rightarrow> int \<Rightarrow> int \<Rightarrow> connection_state option \<Rightarrow>
   (byte list reply \<times> connection_state option) \<times> int" where
  "connection_read_for_begin token promise rc timeout ptr =
     (case ptr of
        None \<Rightarrow> ((Throw (RuntimeError ''connection is closed''), None), timeout)
      | Some state \<Rightarrow>
          (if \<not> cs_initialized state \<or> cs_closed state
           then ((Throw (RuntimeError ''connection is closed''), ptr), timeout)
           else case ensure_loop_alive token of
             Some ex \<Rightarrow> ((Throw ex, ptr), timeout)
           | None \<Rightarrow>
               (case cs_buffered_reads state of
                  out # rest \<Rightarrow> ((Return out, Some (state\<lparr>cs_buffered_reads := rest\<rparr>)), timeout)
                | [] \<Rightarrow>
                    (if cs_eof state then ((Return [], ptr), timeout)
                     else if cs_pending_read state \<noteq> None
                     then ((Throw (RuntimeError ''another read is already pending''), ptr), timeout)
                     else
                       let timeout' = (if timeout < 0 then 0 else timeout) in
                       if rc < 0 then ((Throw (uv_error ''uv_read_start'' rc), ptr), timeout')
                       else ((Await promise,
                             Some (state\<lparr>cs_pending_read := Some promise, cs_reading := True\<rparr>)), timeout')))))"

text \<open>A timed read starts exactly as an untimed one.\<close>

lemma connection_read_for_begin_eq:
  "fst (connection_read_for_begin token promise rc timeout ptr) = connection_read token promise rc ptr"
proof (cases ptr)
  case (Some state)
  then show ?thesis
    by (cases "is_loop_alive token"; cases "cs_buffered_reads state")
      (simp_all add: connection_read_for_begin_def connection_read_def ensure_loop_alive_def Let_def)
qed (simp add: connection_read_for_begin_def connection_read_def)

text \<open>
  The rest of \<open>connection_read_for\<close>: \<open>first\<close> and \<open>second\<close> are what the two \<open>wait_for\<close> calls found.
\<close>

definition read_for_expire :: "pid \<Rightarrow> connection_state \<Rightarrow> bool \<times> connection_state" where
  "read_for_expire pending state =
     (if cs_pending_read state = Some pending
      then (True, (uv_read_stop state)\<lparr>cs_pending_read := None\<rparr>)
      else (False, state))"

definition connection_read_for_resume ::
  "pid \<Rightarrow> byte list outcome option \<Rightarrow> byte list outcome option \<Rightarrow> connection_state \<Rightarrow>
   (err + byte list option) \<times> connection_state" where
  "connection_read_for_resume pending first second state =
     (case first of
        Some r \<Rightarrow> (map_sum id Some (future_get r), state)
      | None \<Rightarrow>
          (let (mine, state') = read_for_expire pending state in
           if mine then (Inr None, state')
           else case second of
             Some r \<Rightarrow> (map_sum id Some (future_get r), state')
           | None \<Rightarrow> (Inr None, state')))"

text \<open>
  \<open>connection_write\<close> up to \<open>future.get()\<close>, with the buffer handed to \<open>uv_write\<close>, whose length is cut to
  32 bits; then the write callback.
\<close>

definition connection_write ::
  "loop_lifetime_token \<Rightarrow> pid \<Rightarrow> int \<Rightarrow> byte list \<Rightarrow> connection_state option \<Rightarrow>
   unit reply \<times> byte list option" where
  "connection_write token promise rc payload ptr =
     (case ptr of
        None \<Rightarrow> (Throw (RuntimeError ''connection is closed''), None)
      | Some state \<Rightarrow>
          (if \<not> cs_initialized state \<or> cs_closed state
           then (Throw (RuntimeError ''connection is closed''), None)
           else case ensure_loop_alive token of
             Some ex \<Rightarrow> (Throw ex, None)
           | None \<Rightarrow>
               (if payload = [] then (Return (), None)
                else
                  let write_buf = take (length payload mod 2 ^ 32) payload in
                  if rc < 0 then (Throw (uv_error ''uv_write(start)'' rc), Some write_buf)
                  else (Await promise, Some write_buf))))"

definition on_write_done :: "int \<Rightarrow> unit outcome" where
  "on_write_done status = (if status < 0 then Exception (uv_error ''uv_write'' status) else Value ())"

text \<open>The members of \<open>TcpConnection\<close>; the outer \<open>option\<close> is \<open>impl_\<close>.\<close>

definition tcp_read ::
  "loop_lifetime_token \<Rightarrow> pid \<Rightarrow> int \<Rightarrow> connection_state option option \<Rightarrow>
   byte list reply \<times> connection_state option option" where
  "tcp_read token promise rc impl =
     (case impl of
        None \<Rightarrow> (Throw (RuntimeError ''invalid connection''), None)
      | Some ptr \<Rightarrow> (let (r, ptr') = connection_read token promise rc ptr in (r, Some ptr')))"

definition tcp_read_for_begin ::
  "loop_lifetime_token \<Rightarrow> pid \<Rightarrow> int \<Rightarrow> int \<Rightarrow> connection_state option option \<Rightarrow>
   (byte list reply \<times> connection_state option option) \<times> int" where
  "tcp_read_for_begin token promise rc timeout impl =
     (case impl of
        None \<Rightarrow> ((Throw (RuntimeError ''invalid connection''), None), timeout)
      | Some ptr \<Rightarrow>
          (let ((r, ptr'), timeout') = connection_read_for_begin token promise rc timeout ptr in
           ((r, Some ptr'), timeout')))"

definition tcp_write ::
  "loop_lifetime_token \<Rightarrow> pid \<Rightarrow> int \<Rightarrow> byte list \<Rightarrow> connection_state option option \<Rightarrow>
   unit reply \<times> byte list option" where
  "tcp_write token promise rc payload impl =
     (case impl of
        None \<Rightarrow> (Throw (RuntimeError ''invalid connection''), None)
      | Some ptr \<Rightarrow> connection_write token promise rc payload ptr)"

definition tcp_close ::
  "loop_lifetime_token \<Rightarrow> pid \<Rightarrow> connection_state option option \<Rightarrow>
   unit reply \<times> connection_state option option \<times> conn_effect list" where
  "tcp_close token promise impl =
     (case impl of
        None \<Rightarrow> (Return (), None, [])
      | Some ptr \<Rightarrow>
          (let (ptr', effs) = start_close token (Some promise) ptr in
           (if SetClose promise \<in> set effs then Return () else Await promise, Some ptr', effs)))"

text \<open>The destructor closes, and drops an exception. A copy of a \<open>TcpConnection\<close> shares the state object.\<close>

definition tcp_destroy ::
  "loop_lifetime_token \<Rightarrow> pid \<Rightarrow> connection_state option option \<Rightarrow>
   unit reply \<times> connection_state option option \<times> conn_effect list" where
  "tcp_destroy token promise impl =
     (case tcp_close token promise impl of
        (Throw ex, impl', effs) \<Rightarrow> (Return (), impl', effs)
      | r \<Rightarrow> r)"

definition tcp_valid :: "loop_lifetime_token \<Rightarrow> connection_state option option \<Rightarrow> bool" where
  "tcp_valid token impl =
     (case impl of
        Some (Some state) \<Rightarrow> cs_initialized state \<and> \<not> cs_closed state \<and> is_loop_alive token
      | _ \<Rightarrow> False)"

subsection \<open>The life of a connection\<close>

text \<open>
  What can happen to a connection: a read is asked for, a timed reader gives up, libuv reports data,
  someone closes, the close callback runs. libuv reports data only while reading is on and runs the
  close callback only after \<open>uv_close\<close>: these are the guards \<open>conn_enabled\<close>.
\<close>

datatype conn_op =
    OpRead bool pid int
  | OpReadFor pid
  | OpData int "byte list"
  | OpClose bool "pid option"
  | OpClosed

fun conn_enabled :: "conn_op \<Rightarrow> connection_state \<Rightarrow> bool" where
  "conn_enabled (OpData nread base) state = cs_reading state"
| "conn_enabled OpClosed state = cs_uv_closing state"
| "conn_enabled a state = True"

text \<open>
  A step yields the state, the effects, the promise on which a reader was suspended and the
  promise of a reader that gave up.
\<close>

fun conn_step ::
  "uv_codes \<Rightarrow> conn_op \<Rightarrow> connection_state \<Rightarrow> connection_state \<times> conn_effect list \<times> pid list \<times> pid list" where
  "conn_step c (OpRead alive p rc) state =
     (case connection_read (Some alive) p rc (Some state) of
        (Await q, ptr) \<Rightarrow> (the ptr, [], [q], [])
      | (_, ptr) \<Rightarrow> (the ptr, [], [], []))"
| "conn_step c (OpReadFor p) state =
     (case read_for_expire p state of (mine, state') \<Rightarrow> (state', [], [], if mine then [p] else []))"
| "conn_step c (OpData nread base) state =
     (case on_connection_read c nread base state of (state', effs) \<Rightarrow> (state', effs, [], []))"
| "conn_step c (OpClose alive p) state =
     (case start_close (Some alive) p (Some state) of (ptr, effs) \<Rightarrow> (the ptr, effs, [], []))"
| "conn_step c OpClosed state =
     (case on_connection_closed state of (state', effs) \<Rightarrow> (state', effs, [], []))"

fun conn_run ::
  "uv_codes \<Rightarrow> conn_op list \<Rightarrow> connection_state \<Rightarrow> connection_state \<times> conn_effect list \<times> pid list \<times> pid list" where
  "conn_run c [] state = (state, [], [], [])"
| "conn_run c (a # ops) state =
     (case conn_step c a state of (state', e, w, g) \<Rightarrow>
        (case conn_run c ops state' of (t, e', w', g') \<Rightarrow> (t, e @ e', w @ w', g @ g')))"

fun conn_ok :: "uv_codes \<Rightarrow> conn_op list \<Rightarrow> connection_state \<Rightarrow> bool" where
  "conn_ok c [] state = True"
| "conn_ok c (a # ops) state = (conn_enabled a state \<and> conn_ok c ops (fst (conn_step c a state)))"

fun read_sets :: "conn_effect list \<Rightarrow> pid list" where
  "read_sets [] = []"
| "read_sets (SetRead p r # es) = p # read_sets es"
| "read_sets (e # es) = read_sets es"

fun close_sets :: "conn_effect list \<Rightarrow> pid list" where
  "close_sets [] = []"
| "close_sets (SetClose p # es) = p # close_sets es"
| "close_sets (e # es) = close_sets es"

fun uv_closes :: "conn_effect list \<Rightarrow> nat" where
  "uv_closes [] = 0"
| "uv_closes (UvClose # es) = Suc (uv_closes es)"
| "uv_closes (e # es) = uv_closes es"

text \<open>
  The bytes of the stream: what libuv reported, and what readers were given, by a callback that settled them or
  by a read that found buffered data.
\<close>

fun received :: "conn_op list \<Rightarrow> byte list" where
  "received [] = []"
| "received (OpData nread base # ops) = take (nat nread) base @ received ops"
| "received (a # ops) = received ops"

fun given :: "conn_effect list \<Rightarrow> byte list" where
  "given [] = []"
| "given (SetRead p (Value out) # es) = out @ given es"
| "given (e # es) = given es"

fun returned :: "byte list reply \<Rightarrow> byte list" where
  "returned (Return out) = out"
| "returned r = []"

definition step_given :: "uv_codes \<Rightarrow> conn_op \<Rightarrow> connection_state \<Rightarrow> byte list" where
  "step_given c a state =
     (case a of
        OpRead alive p rc \<Rightarrow> returned (fst (connection_read (Some alive) p rc (Some state)))
      | _ \<Rightarrow> given (fst (snd (conn_step c a state))))"

fun run_given :: "uv_codes \<Rightarrow> conn_op list \<Rightarrow> connection_state \<Rightarrow> byte list" where
  "run_given c [] state = []"
| "run_given c (a # ops) state = step_given c a state @ run_given c ops (fst (conn_step c a state))"

text \<open>
  The invariant. Data is never buffered while the connection is open, because reading is on only
  while a reader waits.
\<close>

definition conn_inv :: "connection_state \<Rightarrow> bool" where
  "conn_inv state \<longleftrightarrow> cs_initialized state \<and>
     (cs_closed state \<longrightarrow> cs_pending_read state = None \<and> cs_close_waiters state = []) \<and>
     (\<not> cs_closed state \<longrightarrow> cs_buffered_reads state = []) \<and>
     (cs_reading state \<and> \<not> cs_closed state \<longrightarrow> cs_pending_read state \<noteq> None) \<and>
     (cs_closing state \<longrightarrow> cs_uv_closing state) \<and>
     (cs_close_waiters state \<noteq> [] \<longrightarrow> cs_uv_closing state) \<and>
     (cs_keepalive state \<longleftrightarrow> \<not> cs_closed state)"

lemmas conn_defs = settle_closed_def on_connection_closed_def set_close_def push_close_waiter_def
  start_close_def finish_read_success_def finish_read_error_def uv_read_stop_def on_connection_read_def
  connection_read_def read_for_expire_def ensure_loop_alive_def

subsection \<open>Invariant and accounting, step by step\<close>

lemma read_sets_append [simp]: "read_sets (xs @ ys) = read_sets xs @ read_sets ys"
  by (induction xs rule: read_sets.induct) simp_all

lemma close_sets_append [simp]: "close_sets (xs @ ys) = close_sets xs @ close_sets ys"
  by (induction xs rule: close_sets.induct) simp_all

lemma uv_closes_append [simp]: "uv_closes (xs @ ys) = uv_closes xs + uv_closes ys"
  by (induction xs rule: uv_closes.induct) simp_all

lemma sets_map_SetClose [simp]:
  "read_sets (map SetClose ps) = []" "close_sets (map SetClose ps) = ps" "uv_closes (map SetClose ps) = 0"
  by (induction ps) simp_all

lemma create_connection_inv: "create_connection rc = Inr state \<Longrightarrow> conn_inv state"
  by (auto simp: create_connection_def conn_inv_def split: if_splits)

definition pending_list :: "connection_state \<Rightarrow> pid list" where
  "pending_list state = (case cs_pending_read state of None \<Rightarrow> [] | Some p \<Rightarrow> [p])"

lemma conn_inv_step:
  assumes "conn_inv state" "conn_enabled a state"
  shows "conn_inv (fst (conn_step c a state))"
proof (cases a)
  case (OpRead alive p rc)
  then show ?thesis using assms(1) by (cases alive) (auto simp: conn_inv_def conn_defs split: list.splits)
next
  case (OpReadFor p)
  then show ?thesis using assms(1) by (auto simp: conn_inv_def conn_defs)
next
  case (OpData nread base)
  then show ?thesis using assms by (auto simp: conn_inv_def conn_defs Let_def split: option.splits)
next
  case (OpClose alive p)
  then show ?thesis using assms(1)
    by (cases alive) (auto simp: conn_inv_def conn_defs Let_def split: option.splits)
next
  case OpClosed
  then show ?thesis using assms by (auto simp: conn_inv_def conn_defs)
qed

text \<open>Reader promises: what waited or starts to wait is set, withdrawn or waits afterwards.\<close>

lemma conn_step_readers:
  assumes "conn_step c a state = (state', e, w, g)"
  shows "mset (pending_list state) + mset w = mset (read_sets e) + mset g + mset (pending_list state')"
proof (cases a)
  case (OpRead alive p rc)
  then show ?thesis using assms by (cases alive) (auto simp: pending_list_def conn_defs split: list.splits if_splits option.splits)
next
  case (OpReadFor p)
  then show ?thesis using assms by (auto simp: pending_list_def conn_defs split: if_splits option.splits)
next
  case (OpData nread base)
  then show ?thesis using assms by (auto simp: pending_list_def conn_defs Let_def split: if_splits option.splits)
next
  case (OpClose alive p)
  then show ?thesis using assms
    by (cases alive) (auto simp: pending_list_def conn_defs Let_def split: if_splits option.splits)
next
  case OpClosed
  then show ?thesis using assms by (auto simp: pending_list_def conn_defs split: option.splits)
qed

lemma conn_run_facts:
  assumes "conn_inv state" "conn_ok c ops state" "conn_run c ops state = (t, e, w, g)"
  shows "conn_inv t \<and> mset (pending_list state) + mset w = mset (read_sets e) + mset g + mset (pending_list t)"
  using assms
proof (induction ops arbitrary: state e w g)
  case (Cons a ops)
  obtain s1 e1 w1 g1 where st: "conn_step c a state = (s1, e1, w1, g1)" by (metis surj_pair)
  obtain t2 e2 w2 g2 where run: "conn_run c ops s1 = (t2, e2, w2, g2)" by (metis surj_pair)
  have eq: "t = t2" "e = e1 @ e2" "w = w1 @ w2" "g = g1 @ g2" using Cons.prems(3) st run by simp_all
  have "conn_inv s1" using conn_inv_step [of state a c] Cons.prems(1,2) st by simp
  then have IH: "conn_inv t2" "mset (pending_list s1) + mset w2 = mset (read_sets e2) + mset g2 + mset (pending_list t2)"
    using Cons.IH [of s1 e2 w2 g2] run Cons.prems(2) st eq(1) by simp_all
  note st1 = conn_step_readers [OF st]
  have "mset (pending_list state) + mset w1 + mset w2 =
      mset (read_sets e1) + mset (read_sets e2) + (mset g1 + mset g2) + mset (pending_list t2)"
    using st1 IH(2) by (simp add: ac_simps)
  then show ?case using IH(1) eq by (simp add: ac_simps)
qed simp

lemma given_append [simp]: "given (xs @ ys) = given xs @ given ys"
  by (induction xs rule: given.induct) simp_all

lemma given_map_SetClose [simp]: "given (map SetClose ps) = []"
  by (induction ps) simp_all

text \<open>One operation: what is buffered and what arrives is given to a reader or buffered afterwards, in this order.\<close>

lemma conn_step_bytes:
  assumes "conn_inv state"
  shows "concat (cs_buffered_reads state) @ received [a] =
    step_given c a state @ concat (cs_buffered_reads (fst (conn_step c a state)))"
proof (cases a)
  case (OpRead alive p rc)
  then show ?thesis
    by (cases alive; cases "cs_buffered_reads state") (auto simp: step_given_def conn_defs)
next
  case (OpReadFor p)
  then show ?thesis by (simp add: step_given_def conn_defs)
next
  case (OpData nread base)
  have b: "cs_pending_read state = None \<or> cs_buffered_reads state = []" using assms by (auto simp: conn_inv_def)
  show ?thesis
  proof (cases "nread > 0")
    case True
    then show ?thesis using OpData b by (cases "cs_pending_read state") (auto simp: step_given_def conn_defs Let_def)
  next
    case False
    then show ?thesis using OpData
      by (cases "cs_pending_read state") (auto simp: step_given_def conn_defs Let_def)
  qed
next
  case (OpClose alive p)
  then show ?thesis
    by (cases alive; cases p; cases "cs_pending_read state") (auto simp: step_given_def conn_defs Let_def)
next
  case OpClosed
  then show ?thesis by (cases "cs_pending_read state") (simp_all add: step_given_def conn_defs)
qed

lemma received_Cons: "received (a # ops) = received [a] @ received ops"
  by (cases a) simp_all

lemma conn_run_bytes:
  assumes "conn_inv state" "conn_ok c ops state"
  shows "concat (cs_buffered_reads state) @ received ops =
    run_given c ops state @ concat (cs_buffered_reads (fst (conn_run c ops state)))"
  using assms
proof (induction ops arbitrary: state)
  case (Cons a ops)
  let ?s = "fst (conn_step c a state)"
  have "conn_inv ?s" using conn_inv_step Cons.prems by simp
  then have "concat (cs_buffered_reads ?s) @ received ops =
      run_given c ops ?s @ concat (cs_buffered_reads (fst (conn_run c ops ?s)))" using Cons.IH Cons.prems(2) by simp
  moreover note conn_step_bytes [OF Cons.prems(1), of a c]
  moreover have "fst (conn_run c (a # ops) state) = fst (conn_run c ops ?s)" by (simp split: prod.splits)
  ultimately show ?case unfolding received_Cons [of a ops] run_given.simps by (metis append.assoc)
qed simp

subsection \<open>The closing contract\<close>

definition conn_start :: "bool \<Rightarrow> pid option \<Rightarrow> connection_state \<Rightarrow> connection_state \<times> pid list \<times> nat" where
  "conn_start alive p state =
     (case start_close (Some alive) p (Some state) of
        (ptr, effs) \<Rightarrow> (the ptr, close_sets effs, uv_closes effs))"

definition conn_finish :: "connection_state \<Rightarrow> connection_state \<times> pid list" where
  "conn_finish state = (case on_connection_closed state of (state', effs) \<Rightarrow> (state', close_sets effs))"

interpretation tcp_close: closable conn_inv cs_close_waiters cs_uv_closing conn_start conn_finish
proof
  fix state alive p
  assume "conn_inv state"
  then show "conn_inv (fst (conn_start alive p state))"
    using conn_inv_step [of state "OpClose alive p" undefined]
    by (simp add: conn_start_def split: prod.splits)
next
  fix state
  assume "conn_inv state" "cs_uv_closing state"
  then show "conn_inv (fst (conn_finish state))"
    using conn_inv_step [of state OpClosed undefined] by (simp add: conn_finish_def split: prod.splits)
next
  fix state alive p s' ds n
  assume i: "conn_inv state" and st: "conn_start alive p state = (s', ds, n)"
  show "mset (cs_close_waiters state) + mset (case p of None \<Rightarrow> [] | Some q \<Rightarrow> [q]) =
      mset ds + mset (cs_close_waiters s')"
    using i st by (cases alive)
      (auto simp: conn_start_def conn_inv_def conn_defs Let_def split: option.splits if_splits)
  show "(cs_uv_closing state \<longrightarrow> cs_uv_closing s') \<and> n = (if cs_uv_closing s' \<and> \<not> cs_uv_closing state then 1 else 0)"
    using i st by (cases alive)
      (auto simp: conn_start_def conn_inv_def conn_defs Let_def split: option.splits if_splits)
next
  fix state s' ds
  assume "conn_inv state" "cs_uv_closing state" "conn_finish state = (s', ds)"
  then show "ds = cs_close_waiters state \<and> cs_close_waiters s' = [] \<and> cs_uv_closing s'"
    by (auto simp: conn_finish_def conn_defs split: option.splits)
qed (simp add: conn_inv_def)

subsection \<open>The hand-off contract\<close>

text \<open>
  A chunk of data is a non-empty byte list, kept as its first byte and the rest. The guards are
  those of the code: reading needs an open connection, no end of file and no other reader.
\<close>

definition chunk_of :: "byte list \<Rightarrow> byte \<times> byte list" where
  "chunk_of bs = (hd bs, tl bs)"

definition conn_buf :: "connection_state \<Rightarrow> (byte \<times> byte list) list" where
  "conn_buf state = map chunk_of (cs_buffered_reads state)"

definition conn_open_inv :: "connection_state \<Rightarrow> bool" where
  "conn_open_inv state \<longleftrightarrow> cs_initialized state \<and> \<not> cs_closed state \<and> \<not> cs_eof state \<and>
     (cs_buffered_reads state = [] \<or> cs_pending_read state = None)"

definition conn_put ::
  "byte \<times> byte list \<Rightarrow> connection_state \<Rightarrow> connection_state \<times> (pid \<times> byte \<times> byte list) list" where
  "conn_put v state =
     (case on_connection_read linux_codes (int (length (fst v # snd v))) (fst v # snd v) state of
        (state', effs) \<Rightarrow>
          (state', [(p, chunk_of bs). e \<leftarrow> effs,
             (p, bs) \<leftarrow> (case e of SetRead p (Value bs) \<Rightarrow> [(p, bs)] | _ \<Rightarrow> [])]))"

definition conn_get ::
  "pid \<Rightarrow> connection_state \<Rightarrow> connection_state \<times> (byte \<times> byte list) option" where
  "conn_get p state =
     (case connection_read (Some True) p 0 (Some state) of
        (Return bs, ptr) \<Rightarrow> (the ptr, Some (chunk_of bs))
      | (_, ptr) \<Rightarrow> (the ptr, None))"

definition conn_cancel :: "pid \<Rightarrow> connection_state \<Rightarrow> connection_state \<times> bool" where
  "conn_cancel p state = (case read_for_expire p state of (mine, state') \<Rightarrow> (state', mine))"

interpretation tcp_data: handoff conn_open_inv conn_buf pending_list "\<lambda>state. True"
  "\<lambda>state. cs_pending_read state = None" conn_put conn_get conn_cancel
  by unfold_locales
    (auto simp: conn_open_inv_def conn_buf_def pending_list_def conn_put_def conn_get_def conn_cancel_def
      conn_defs chunk_of_def Let_def split: option.splits list.splits if_splits)

subsection \<open>The phases of a connection\<close>

definition conn_phase :: "connection_state \<Rightarrow> phase" where
  "conn_phase state = phase_of (cs_closing state) (cs_closed state)"

definition conn_moves :: "connection_state \<Rightarrow> connection_state \<Rightarrow> bool" where
  "conn_moves s t \<longleftrightarrow> (\<exists>c a. t = fst (conn_step c a s))"

lemma conn_step_forward: "conn_phase s \<le> conn_phase (fst (conn_step c a s))"
proof (cases a)
  case (OpRead alive p rc)
  then show ?thesis by (cases alive; cases "cs_buffered_reads s") (auto simp: conn_phase_def conn_defs)
next
  case (OpClose alive p)
  then show ?thesis by (cases alive; cases p) (auto simp: conn_phase_def conn_defs phase_of_def Let_def)
qed (auto simp: conn_phase_def conn_defs phase_of_def Let_def split: option.splits)

interpretation conn_life: lifecycle conn_phase conn_moves
  by unfold_locales (auto simp: conn_moves_def conn_step_forward)

subsection \<open>Properties\<close>

definition fresh_connection :: connection_state where
  "fresh_connection = \<lparr>cs_initialized = True, cs_closing = False, cs_closed = False, cs_eof = False,
     cs_pending_read = None, cs_buffered_reads = [], cs_close_waiters = [], cs_keepalive = True,
     cs_reading = False, cs_uv_closing = False\<rparr>"

lemma fresh_connection: "create_connection 0 = Inr fresh_connection"
  by (simp add: create_connection_def fresh_connection_def)

text \<open>
  C9. Whatever happens to a connection, in any order, every reader that was suspended is settled
  exactly once, has withdrawn, or is the one still pending; a closed connection has no pending
  reader, and received data never waits in the buffer of an open connection.
\<close>

theorem tcp_readers_settled:
  assumes "create_connection rc = Inr state" "conn_ok c ops state" "conn_run c ops state = (t, effs, asked, gone)"
  shows "mset asked = mset (read_sets effs) + mset gone + mset (pending_list t) \<and>
    (cs_closed t \<longrightarrow> pending_list t = []) \<and> (\<not> cs_closed t \<longrightarrow> cs_buffered_reads t = [])"
proof -
  have "pending_list state = []" using assms(1)
    by (auto simp: create_connection_def pending_list_def split: if_splits)
  then show ?thesis using conn_run_facts [OF create_connection_inv [OF assms(1)] assms(2,3)]
    by (auto simp: conn_inv_def pending_list_def)
qed

theorem tcp_readers_settled_witness:
  "\<exists>t effs. conn_run linux_codes [OpRead True 5 0, OpData 2 [1, 2], OpRead True 6 0, OpClose True (Some 9), OpClosed]
      fresh_connection = (t, effs, [5, 6], []) \<and> mset [5, 6] = mset (read_sets effs) + mset [] + mset (pending_list t)"
  using tcp_readers_settled [OF fresh_connection, of linux_codes
      "[OpRead True 5 0, OpData 2 [1, 2], OpRead True 6 0, OpClose True (Some 9), OpClosed]"]
  by (simp add: fresh_connection_def conn_defs Let_def pending_list_def)

text \<open>
  C10. Closing: for any sequence of close calls, from live or dead loops, and close callbacks, each
  promise is set exactly once or still waits while the handle is being closed, the handle is given
  to \<open>uv_close\<close> at most once, and after the callback nobody waits.
\<close>

theorem tcp_close_settled_once:
  assumes "create_connection rc = Inr state" "close_ok cs_uv_closing conn_start conn_finish ops state"
    and "close_run conn_start conn_finish ops state = (t, ds, n)"
  shows "mset (close_promises ops) = mset ds + mset (cs_close_waiters t) \<and> n \<le> 1 \<and>
    (cs_close_waiters t \<noteq> [] \<longrightarrow> cs_uv_closing t) \<and> cs_close_waiters (fst (conn_finish t)) = []"
proof -
  have "cs_close_waiters state = []" using assms(1) by (auto simp: create_connection_def split: if_splits)
  note f = tcp_close.run_settled_once [OF create_connection_inv [OF assms(1)] this assms(2,3)]
  show ?thesis using f by (auto simp: conn_finish_def conn_defs)
qed

theorem tcp_close_settled_once_witness:
  "\<exists>t ds n. close_ok cs_uv_closing conn_start conn_finish
      [CloseCall True (Some 1), CloseCall True None, CloseCall True (Some 2), CloseDone, CloseCall False (Some 3)] fresh_connection \<and>
    close_run conn_start conn_finish
      [CloseCall True (Some 1), CloseCall True None, CloseCall True (Some 2), CloseDone, CloseCall False (Some 3)] fresh_connection =
      (t, ds, n) \<and> cs_closed t \<and> n = 1 \<and> ds = [1, 2, 3] \<and> mset [1, 2, 3] = mset ds + mset (cs_close_waiters t) \<and> n \<le> 1 \<and>
    cs_close_waiters (fst (conn_finish t)) = []"
  using tcp_close_settled_once [OF fresh_connection, of
      "[CloseCall True (Some 1), CloseCall True None, CloseCall True (Some 2), CloseDone, CloseCall False (Some 3)]"]
  by (simp add: fresh_connection_def conn_start_def conn_finish_def close_step_def conn_defs Let_def)

text \<open>
  C11. The bytes of a connection reach the readers in the order libuv reported them, none lost, duplicated or made up, whatever
  happens to it in any order (reads, timed readers that give up, data, end of file, errors, closing): all that was reported is what
  readers were given followed by what is still buffered, and an open connection has nothing buffered.
\<close>

theorem tcp_bytes_in_order:
  assumes "create_connection rc = Inr state" "conn_ok c ops state"
  shows "received ops = run_given c ops state @ concat (cs_buffered_reads (fst (conn_run c ops state))) \<and>
    (\<not> cs_closed (fst (conn_run c ops state)) \<longrightarrow> received ops = run_given c ops state)"
proof -
  have "cs_buffered_reads state = []" using assms(1) by (auto simp: create_connection_def split: if_splits)
  note bytes = conn_run_bytes [OF create_connection_inv [OF assms(1)] assms(2)] this
  obtain t e w g where run: "conn_run c ops state = (t, e, w, g)" by (metis surj_pair)
  have "conn_inv t" using conn_run_facts [OF create_connection_inv [OF assms(1)] assms(2) run] by blast
  then show ?thesis using bytes run by (auto simp: conn_inv_def)
qed

text \<open>Two chunks, an interrupted read, a read error, a time-out, the end of the stream and a close.\<close>

definition demo_history :: "conn_op list" where
  "demo_history = [OpRead True 1 0, OpData 2 [10, 11], OpRead True 2 0, OpData 0 [], OpData (-104) [], OpRead True 3 0, OpReadFor 3,
     OpRead True 4 0, OpData 1 [12, 99], OpRead True 5 0, OpData (-4095) [], OpRead True 6 0, OpClose True (Some 9), OpClosed]"

theorem tcp_bytes_in_order_witness:
  "conn_ok linux_codes demo_history fresh_connection \<and> received demo_history = [10, 11, 12] \<and>
    run_given linux_codes demo_history fresh_connection = [10, 11, 12] \<and> cs_closed (fst (conn_run linux_codes demo_history fresh_connection))"
proof -
  have ok: "conn_ok linux_codes demo_history fresh_connection" and b: "received demo_history = [10, 11, 12]"
    and c: "cs_closed (fst (conn_run linux_codes demo_history fresh_connection))"
      "cs_buffered_reads (fst (conn_run linux_codes demo_history fresh_connection)) = []"
    by (simp_all add: demo_history_def fresh_connection_def conn_defs Let_def linux_codes_def)
  show ?thesis using tcp_bytes_in_order [OF fresh_connection ok] ok b c by simp
qed

text \<open>
  While a connection is open and its loop alive, each chunk that arrives goes whole to one reader, in the order of the readers:
  the chunks received are the chunks returned by reads followed by those buffered, and each reader is served, has given up, or waits.
\<close>

lemma tcp_chunks_to_readers:
  assumes "handoff_ok (\<lambda>_. True) (\<lambda>s. cs_pending_read s = None) conn_put conn_get conn_cancel ops fresh_connection"
    and "handoff_run conn_put conn_get conn_cancel ops fresh_connection = (t, log, gone)"
  shows "puts ops = map snd log @ conn_buf t \<and>
    mset (gets ops) = mset (map fst log) + mset gone + mset (pending_list t)"
proof -
  have i: "conn_open_inv fresh_connection" "conn_buf fresh_connection = []" "pending_list fresh_connection = []"
    by (simp_all add: conn_open_inv_def conn_buf_def pending_list_def fresh_connection_def)
  show ?thesis using tcp_data.run_values [OF i(1) assms] tcp_data.run_receivers [OF i(1) assms] i(2,3) by simp
qed

text \<open>
  \<open>write\<close> on an open connection hands \<open>uv_write\<close> exactly the payload when it is shorter than 4 GiB;
  a payload of a multiple of 4 GiB is handed over as an empty buffer and still reported as written
  when the callback comes with status 0.
\<close>

theorem tcp_write_buffer:
  assumes "cs_initialized state" "\<not> cs_closed state" "payload \<noteq> []" "0 \<le> rc"
  shows "\<exists>buf. connection_write (Some True) p rc payload (Some state) = (Await p, Some buf) \<and>
    (length payload < 2 ^ 32 \<longrightarrow> buf = payload) \<and> (2 ^ 32 dvd length payload \<longrightarrow> buf = []) \<and>
    on_write_done 0 = Value ()"
  using assms by (simp add: connection_write_def on_write_done_def Let_def ensure_loop_alive_def)

theorem tcp_write_buffer_witness:
  "\<exists>buf. connection_write (Some True) 4 0 [1, 2, 3] (Some fresh_connection) = (Await 4, Some buf) \<and> buf = [1, 2, 3]"
  using tcp_write_buffer [of fresh_connection "[1, 2, 3]" 0 4] by (auto simp: fresh_connection_def)

text \<open>
  End of file is final: once libuv has reported it, every read of the open connection returns at
  once, first the buffered chunks in order, then the empty string, and never suspends.
\<close>

theorem tcp_eof_final:
  assumes "cs_initialized state" "\<not> cs_closed state" "cs_eof (fst (on_connection_read c nread base state))"
  shows "\<exists>out state'. connection_read (Some True) p rc (Some (fst (on_connection_read c nread base state))) =
      (Return out, Some state') \<and> cs_eof state' \<and>
    (case cs_buffered_reads (fst (on_connection_read c nread base state)) of
       [] \<Rightarrow> out = [] \<and> cs_buffered_reads state' = []
     | x # xs \<Rightarrow> out = x \<and> cs_buffered_reads state' = xs)"
proof -
  let ?s = "fst (on_connection_read c nread base state)"
  have "cs_initialized ?s = cs_initialized state" "cs_closed ?s = cs_closed state"
    by (auto simp: conn_defs Let_def split: option.splits)
  then show ?thesis using assms
    by (cases "cs_buffered_reads ?s") (auto simp: connection_read_def ensure_loop_alive_def)
qed

theorem tcp_eof_final_witness:
  "\<exists>out state'. connection_read (Some True) 7 0 (Some (fst (on_connection_read linux_codes (-4095) [] fresh_connection))) =
      (Return out, Some state') \<and> out = []"
  using tcp_eof_final [of fresh_connection linux_codes "-4095" "[]" 7 0]
  by (auto simp: fresh_connection_def on_connection_read_def linux_codes_def uv_read_stop_def)

text \<open>
  A \<open>TcpConnection\<close> may be copied, and the copy shares the connection; its destructor closes the connection for the
  original too: the handle is given to \<open>uv_close\<close>, and once the callback has run the original is invalid and its
  reads throw.
\<close>

theorem tcp_copy_closes_original:
  assumes "tcp_valid (Some True) (Some (Some st))" "conn_inv st" "tcp_destroy (Some True) p (Some (Some st)) = (r, Some (Some st1), effs)"
  shows "conn_phase st1 = Closing \<and> (\<not> cs_closing st \<longrightarrow> effs = [UvClose] \<or> cs_uv_closing st) \<and>
    \<not> tcp_valid (Some True) (Some (Some (fst (on_connection_closed st1)))) \<and>
    fst (tcp_read (Some True) q rc (Some (Some (fst (on_connection_closed st1))))) = Throw (RuntimeError ''connection is closed'')"
  using assms
  by (auto simp: tcp_valid_def tcp_destroy_def tcp_close_def conn_phase_def tcp_read_def conn_defs conn_inv_def Let_def
      split: if_splits)

theorem tcp_copy_closes_original_witness:
  "\<exists>st st1. create_connection 0 = Inr st \<and> tcp_destroy (Some True) 7 (Some (Some st)) = (Await 7, Some (Some st1), [UvClose]) \<and>
     conn_phase st1 = Closing"
proof -
  obtain st where st: "create_connection 0 = Inr st" "conn_inv st" "tcp_valid (Some True) (Some (Some st))"
    by (simp add: create_connection_def conn_inv_def tcp_valid_def)
  obtain st1 where d: "tcp_destroy (Some True) 7 (Some (Some st)) = (Await 7, Some (Some st1), [UvClose])"
    using st(1) by (auto simp: create_connection_def tcp_destroy_def tcp_close_def conn_defs)
  show ?thesis using tcp_copy_closes_original [OF st(3,2) d] st(1) d by blast
qed

end
