(* ===== verification/Tcp_Client.thy ===== *)
theory Tcp_Client
  imports Tcp_Connection
begin

text \<open>
  \<open>TcpClient\<close> (src/tcp.cpp). A connect is a chain of two libuv requests, name resolution and
  \<open>uv_tcp_connect\<close>, around a heap object \<open>ConnectRequestState\<close> that the last callback deletes. A timed
  connect may expire at any moment in between. The two flags of libuv that tell whether each
  request is pending are part of the model, and \<open>cr_deleted\<close> tells whether \<open>delete state\<close> was reached:
  the code does not read them.
\<close>

record connect_request =
  cr_connection :: "connection_state option"
  cr_timed_out :: bool
  cr_finished :: bool
  cr_connect_req_data :: bool
  cr_deleted :: bool
  cr_resolver_pending :: bool
  cr_connect_pending :: bool

datatype connect_effect =
    SetConnect "unit outcome"
  | OnConnection conn_effect
  | FreeAddrInfo
  | CancelResolver
  | CancelConnect

definition connect_timeout_exception :: err where
  "connect_timeout_exception = RuntimeError ''tcp connect timeout''"

definition begin_connect_finish :: "connect_request \<Rightarrow> bool \<times> connect_request" where
  "begin_connect_finish state =
     (if cr_finished state then (False, state) else (True, state\<lparr>cr_finished := True\<rparr>))"

text \<open>\<open>if (state->connection) start_close(state->connection, nullptr)\<close>\<close>

definition close_connection ::
  "loop_lifetime_token \<Rightarrow> connect_request \<Rightarrow> connect_request \<times> connect_effect list" where
  "close_connection token state =
     (case cr_connection state of
        None \<Rightarrow> (state, [])
      | Some conn \<Rightarrow>
          (let (ptr, effs) = start_close token None (Some conn) in
           (state\<lparr>cr_connection := ptr\<rparr>, map OnConnection effs)))"

definition finish_connect_success ::
  "loop_lifetime_token \<Rightarrow> connect_request \<Rightarrow> connect_request \<times> connect_effect list" where
  "finish_connect_success token state =
     (let (won, state1) = begin_connect_finish state in
      if \<not> won then (state1, [])
      else if cr_timed_out state1 then
        (let (state2, effs) = close_connection token state1 in
         (state2\<lparr>cr_deleted := True\<rparr>, effs @ [SetConnect (Exception connect_timeout_exception)]))
      else (state1\<lparr>cr_deleted := True\<rparr>, [SetConnect (Value ())]))"

definition finish_connect_error ::
  "loop_lifetime_token \<Rightarrow> err \<Rightarrow> connect_request \<Rightarrow> connect_request \<times> connect_effect list" where
  "finish_connect_error token ex state =
     (let (won, state1) = begin_connect_finish state in
      if \<not> won then (state1, [])
      else
        let (state2, effs) = close_connection token state1 in
        (state2\<lparr>cr_deleted := True\<rparr>, effs @ [SetConnect (Exception ex)]))"

definition on_connected ::
  "loop_lifetime_token \<Rightarrow> int \<Rightarrow> connect_request \<Rightarrow> connect_request \<times> connect_effect list" where
  "on_connected token status state =
     (if cr_timed_out state then finish_connect_error token connect_timeout_exception state
      else if status < 0 then finish_connect_error token (uv_error ''uv_tcp_connect'' status) state
      else finish_connect_success token state)"

text \<open>
  \<open>on_resolved\<close>: \<open>res\<close> tells whether a result was delivered, \<open>init_rc\<close> and \<open>rc\<close> are the answers of
  \<open>uv_tcp_init\<close> and \<open>uv_tcp_connect\<close>, and \<open>late\<close> whether the time-out was stored between the first and
  the second load of \<open>timed_out\<close>.
\<close>

definition on_resolved ::
  "loop_lifetime_token \<Rightarrow> int \<Rightarrow> bool \<Rightarrow> int \<Rightarrow> bool \<Rightarrow> int \<Rightarrow> connect_request \<Rightarrow>
   connect_request \<times> connect_effect list" where
  "on_resolved token status res init_rc late rc state =
     (let free = (if res then [FreeAddrInfo] else []) in
      if cr_timed_out state then
        (let (state', effs) = finish_connect_error token connect_timeout_exception state in (state', free @ effs))
      else if status < 0 \<or> \<not> res then
        (let (state', effs) = finish_connect_error token (uv_error ''uv_getaddrinfo'' status) state in
         (state', free @ effs))
      else case create_connection init_rc of
        Inl ex \<Rightarrow>
          (let (state', effs) = finish_connect_error token ex state in (state', FreeAddrInfo # effs))
      | Inr conn \<Rightarrow>
          (let state1 = state\<lparr>cr_connection := Some conn, cr_timed_out := cr_timed_out state \<or> late\<rparr> in
           if cr_timed_out state1 then
             (let (state', effs) = finish_connect_error token connect_timeout_exception state1 in
              (state', FreeAddrInfo # effs))
           else
             let state2 = state1\<lparr>cr_connect_req_data := True\<rparr> in
             if rc < 0 then
               (let (state', effs) = finish_connect_error token (uv_error ''uv_tcp_connect(start)'' rc) state2 in
                (state', FreeAddrInfo # effs))
             else (state2\<lparr>cr_connect_pending := True\<rparr>, [FreeAddrInfo])))"

text \<open>\<open>connect\<close> up to \<open>future.get()\<close>; \<open>connect_for\<close> repeats these lines before it waits.\<close>

definition new_request :: connect_request where
  "new_request = \<lparr>cr_connection = None, cr_timed_out = False, cr_finished = False, cr_connect_req_data = False,
     cr_deleted = False, cr_resolver_pending = False, cr_connect_pending = False\<rparr>"

definition connect ::
  "loop_lifetime_token \<Rightarrow> pid \<Rightarrow> int \<Rightarrow> unit reply \<times> connect_request option" where
  "connect token promise rc =
     (case ensure_loop_alive token of
        Some ex \<Rightarrow> (Throw ex, None)
      | None \<Rightarrow>
          (if rc < 0 then (Throw (uv_error ''uv_getaddrinfo(start)'' rc), Some (new_request\<lparr>cr_deleted := True\<rparr>))
           else (Await promise, Some (new_request\<lparr>cr_resolver_pending := True\<rparr>))))"

definition connect_for_begin ::
  "loop_lifetime_token \<Rightarrow> pid \<Rightarrow> int \<Rightarrow> int \<Rightarrow> (unit reply \<times> connect_request option) \<times> int" where
  "connect_for_begin token promise rc timeout =
     (case ensure_loop_alive token of
        Some ex \<Rightarrow> ((Throw ex, None), timeout)
      | None \<Rightarrow>
          (let timeout' = (if timeout < 0 then 0 else timeout) in
           if rc < 0
           then ((Throw (uv_error ''uv_getaddrinfo(start)'' rc), Some (new_request\<lparr>cr_deleted := True\<rparr>)), timeout')
           else ((Await promise, Some (new_request\<lparr>cr_resolver_pending := True\<rparr>)), timeout')))"

lemma connect_for_begin_eq: "fst (connect_for_begin token promise rc timeout) = connect token promise rc"
  by (cases "is_loop_alive token") (simp_all add: connect_for_begin_def connect_def ensure_loop_alive_def Let_def)

text \<open>\<open>connect_for\<close> after its two \<open>wait_for\<close> calls found the future not ready.\<close>

definition connect_for_expire ::
  "loop_lifetime_token \<Rightarrow> connect_request \<Rightarrow> connect_request \<times> connect_effect list" where
  "connect_for_expire token state =
     (let (state1, effs) = close_connection token (state\<lparr>cr_timed_out := True\<rparr>) in
      (state1, effs @ [CancelResolver] @ (if cr_connect_req_data state1 then [CancelConnect] else [])))"

definition connect_for_resume ::
  "loop_lifetime_token \<Rightarrow> unit outcome option \<Rightarrow> unit outcome option \<Rightarrow> connect_request \<Rightarrow>
   (err + unit option) \<times> connect_request \<times> connect_effect list" where
  "connect_for_resume token first second state =
     (case first of
        Some r \<Rightarrow> (map_sum id Some (future_get r), state, [])
      | None \<Rightarrow>
          (case second of
             Some r \<Rightarrow> (map_sum id Some (future_get r), state, [])
           | None \<Rightarrow> (let (state', effs) = connect_for_expire token state in (Inr None, state', effs))))"

text \<open>
  \<open>request\<close>: the answers of \<open>connect\<close>, \<open>write\<close>, \<open>read\<close> and \<open>close\<close> are arguments; the list records the
  operations on the connection, the closing by the destructor of \<open>connection\<close> included.
\<close>

datatype request_action = DoConnect | DoWrite | DoRead | DoClose | DoDestroy

definition request ::
  "loop_lifetime_token \<Rightarrow> byte list \<Rightarrow> (err + unit) \<Rightarrow> (err + unit) \<Rightarrow> (err + byte list) \<Rightarrow> (err + unit) \<Rightarrow>
   (err + byte list) \<times> request_action list" where
  "request token payload connected written response closed =
     (case ensure_loop_alive token of
        Some ex \<Rightarrow> (Inl ex, [])
      | None \<Rightarrow>
          (case connected of
             Inl ex \<Rightarrow> (Inl ex, [DoConnect])
           | Inr _ \<Rightarrow>
               (let sent = (if payload \<noteq> [] then written else Inr ());
                    acts = (if payload \<noteq> [] then [DoConnect, DoWrite] else [DoConnect])
                in case sent of
                     Inl ex \<Rightarrow> (Inl ex, acts @ [DoDestroy])
                   | Inr _ \<Rightarrow>
                       (case response of
                          Inl ex \<Rightarrow> (Inl ex, acts @ [DoRead, DoDestroy])
                        | Inr r \<Rightarrow>
                            (case closed of
                               Inl ex \<Rightarrow> (Inl ex, acts @ [DoRead, DoClose, DoDestroy])
                             | Inr _ \<Rightarrow> (Inr r, acts @ [DoRead, DoClose, DoDestroy]))))))"

subsection \<open>The life of a request\<close>

text \<open>
  libuv runs the callback of each request it accepted exactly once; the caller of a timed connect
  expires at most once, and only while the future is not ready.
\<close>

datatype connect_op =
    EvResolved loop_lifetime_token int bool int bool int
  | EvConnected loop_lifetime_token int
  | EvExpire loop_lifetime_token

fun connect_enabled :: "connect_op \<Rightarrow> connect_request \<Rightarrow> bool" where
  "connect_enabled (EvResolved token status res init_rc late rc) state = cr_resolver_pending state"
| "connect_enabled (EvConnected token status) state = cr_connect_pending state"
| "connect_enabled (EvExpire token) state = (\<not> cr_finished state \<and> \<not> cr_timed_out state)"

fun connect_step :: "connect_op \<Rightarrow> connect_request \<Rightarrow> connect_request \<times> connect_effect list" where
  "connect_step (EvResolved token status res init_rc late rc) state =
     on_resolved token status res init_rc late rc (state\<lparr>cr_resolver_pending := False\<rparr>)"
| "connect_step (EvConnected token status) state =
     on_connected token status (state\<lparr>cr_connect_pending := False\<rparr>)"
| "connect_step (EvExpire token) state = connect_for_expire token state"

inductive connect_reach :: "connect_request \<Rightarrow> connect_effect list \<Rightarrow> bool" where
  started: "connect token promise rc = (Await promise, Some state) \<Longrightarrow> connect_reach state []"
| stepped: "connect_reach state effs \<Longrightarrow> connect_enabled a state \<Longrightarrow> connect_step a state = (state', effs') \<Longrightarrow>
    connect_reach state' (effs @ effs')"

fun connect_sets :: "connect_effect list \<Rightarrow> unit outcome list" where
  "connect_sets [] = []"
| "connect_sets (SetConnect r # es) = r # connect_sets es"
| "connect_sets (e # es) = connect_sets es"

fun frees :: "connect_effect list \<Rightarrow> nat" where
  "frees [] = 0"
| "frees (FreeAddrInfo # es) = Suc (frees es)"
| "frees (e # es) = frees es"

definition shut :: "connection_state \<Rightarrow> bool" where
  "shut conn \<longleftrightarrow> cs_closing conn \<or> cs_closed conn"

text \<open>
  The invariant: exactly one callback is pending until the request is finished, deleted and settled,
  all at once; a connection that is not handed to the caller is being closed.
\<close>

definition connect_inv :: "connect_request \<Rightarrow> connect_effect list \<Rightarrow> bool" where
  "connect_inv state effs \<longleftrightarrow>
     cr_deleted state = cr_finished state \<and>
     \<not> (cr_resolver_pending state \<and> cr_connect_pending state) \<and>
     (cr_finished state \<longleftrightarrow> \<not> cr_resolver_pending state \<and> \<not> cr_connect_pending state) \<and>
     length (connect_sets effs) = (if cr_finished state then 1 else 0) \<and>
     (cr_connect_pending state \<longrightarrow> cr_connection state \<noteq> None) \<and>
     (cr_resolver_pending state \<longrightarrow> cr_connection state = None) \<and>
     (\<forall>conn. cr_connection state = Some conn \<longrightarrow> cs_initialized conn \<and>
        (cr_timed_out state \<longrightarrow> shut conn) \<and>
        (\<forall>ex. connect_sets effs = [Exception ex] \<longrightarrow> shut conn) \<and>
        (connect_sets effs = [Value ()] \<longrightarrow> \<not> shut conn) \<and>
        (\<not> cr_timed_out state \<and> connect_sets effs = [] \<longrightarrow> \<not> shut conn)) \<and>
     (connect_sets effs = [Value ()] \<longrightarrow> cr_connection state \<noteq> None)"

lemma connect_sets_append [simp]: "connect_sets (xs @ ys) = connect_sets xs @ connect_sets ys"
  by (induction xs rule: connect_sets.induct) simp_all

lemma frees_append [simp]: "frees (xs @ ys) = frees xs + frees ys"
  by (induction xs rule: frees.induct) simp_all

lemma map_OnConnection_sets [simp]:
  "connect_sets (map OnConnection es) = []" "frees (map OnConnection es) = 0"
  by (induction es) simp_all

lemma start_close_shut:
  assumes "cs_initialized conn"
  shows "\<exists>conn' effs. start_close token None (Some conn) = (Some conn', effs) \<and> shut conn' \<and> cs_initialized conn'"
  using assms
  by (cases "is_loop_alive token") (auto simp: start_close_def settle_closed_def push_close_waiter_def
      set_close_def shut_def Let_def)

definition conn_initialized :: "connect_request \<Rightarrow> bool" where
  "conn_initialized state \<longleftrightarrow> (\<forall>conn. cr_connection state = Some conn \<longrightarrow> cs_initialized conn)"

text \<open>Closing the connection of a request changes nothing else and leaves no open connection.\<close>

lemma close_connection_cases:
  assumes "conn_initialized state"
  obtains ptr effs where "close_connection token state = (state\<lparr>cr_connection := ptr\<rparr>, map OnConnection effs)"
    "ptr = None \<longleftrightarrow> cr_connection state = None" "\<And>conn. ptr = Some conn \<Longrightarrow> cs_initialized conn \<and> shut conn"
proof (cases "cr_connection state")
  case None
  then have "close_connection token state = (state\<lparr>cr_connection := None\<rparr>, map OnConnection [])"
    by (simp add: close_connection_def)
  then show ?thesis using that [of None "[]"] None by simp
next
  case (Some conn)
  then have "cs_initialized conn" using assms by (simp add: conn_initialized_def)
  then obtain conn' effs where "start_close token None (Some conn) = (Some conn', effs)" "shut conn'" "cs_initialized conn'"
    using start_close_shut by blast
  then show ?thesis using that [of "Some conn'" effs] Some by (simp add: close_connection_def)
qed

lemma finish_connect_error_facts:
  assumes "conn_initialized state" "\<not> cr_finished state"
    and "finish_connect_error token ex state = (state', effs)"
  shows "connect_sets effs = [Exception ex] \<and> frees effs = 0 \<and> cr_finished state' \<and> cr_deleted state' \<and>
    cr_resolver_pending state' = cr_resolver_pending state \<and> cr_connect_pending state' = cr_connect_pending state \<and>
    (\<forall>conn. cr_connection state' = Some conn \<longrightarrow> cs_initialized conn \<and> shut conn)"
proof -
  have "conn_initialized (state\<lparr>cr_finished := True\<rparr>)" using assms(1) by (simp add: conn_initialized_def)
  then obtain ptr es where "close_connection token (state\<lparr>cr_finished := True\<rparr>) =
      (state\<lparr>cr_finished := True, cr_connection := ptr\<rparr>, map OnConnection es)"
    "\<And>conn. ptr = Some conn \<Longrightarrow> cs_initialized conn \<and> shut conn"
    by (rule close_connection_cases [where token = token]) auto
  then show ?thesis using assms(2,3)
    by (auto simp: finish_connect_error_def begin_connect_finish_def Let_def)
qed

lemma finish_connect_success_facts:
  assumes "\<not> cr_finished state" "\<not> cr_timed_out state"
  shows "finish_connect_success token state =
    (state\<lparr>cr_finished := True, cr_deleted := True\<rparr>, [SetConnect (Value ())])"
  using assms by (simp add: finish_connect_success_def begin_connect_finish_def Let_def)

text \<open>The part of the invariant that a failed request re-establishes.\<close>

lemma connect_inv_failed:
  assumes "connect_sets effs = []" "conn_initialized state" "\<not> cr_finished state"
    and "\<not> cr_resolver_pending state" "\<not> cr_connect_pending state"
    and "finish_connect_error token ex state = (state', effs')" "connect_sets pre = []"
  shows "connect_inv state' (effs @ pre @ effs')"
  using finish_connect_error_facts [OF assms(2,3,6)] assms(1,4,5,7) by (auto simp: connect_inv_def)

lemma connect_inv_resolved:
  assumes "connect_inv state effs" "cr_resolver_pending state"
    and "on_resolved token status res init_rc late rc (state\<lparr>cr_resolver_pending := False\<rparr>) = (state', effs')"
  shows "connect_inv state' (effs @ effs')"
proof -
  let ?s = "state\<lparr>cr_resolver_pending := False\<rparr>"
  have base: "connect_sets effs = []" "\<not> cr_finished state" "\<not> cr_connect_pending state" "cr_connection state = None"
    "\<not> cr_deleted state"
    using assms(1,2) by (auto simp: connect_inv_def split: if_splits)
  have fail: "connect_inv st' (effs @ pre @ es)"
    if "finish_connect_error token ex st = (st', es)" "connect_sets pre = []" "conn_initialized st"
      "\<not> cr_finished st" "\<not> cr_resolver_pending st" "\<not> cr_connect_pending st" for ex st st' es pre
    using connect_inv_failed [OF base(1) that(3-6) that(1,2)] .
  have init: "conn_initialized ?s" using base by (simp add: conn_initialized_def)
  show ?thesis
  proof (cases "cr_timed_out state \<or> status < 0 \<or> \<not> res")
    case True
    then obtain ex es where "finish_connect_error token ex ?s = (state', es)"
      "effs' = (if res then [FreeAddrInfo] else []) @ es"
      using assms(3) by (auto simp: on_resolved_def Let_def split: prod.splits if_splits)
    then show ?thesis using fail [of ex ?s state' es "if res then [FreeAddrInfo] else []"] init base by simp
  next
    case False
    show ?thesis
    proof (cases "create_connection init_rc")
      case (Inl ex)
      then show ?thesis using assms(3) False fail [of ex ?s state' _ "[FreeAddrInfo]"] init base
        by (auto simp: on_resolved_def Let_def split: prod.splits)
    next
      case (Inr conn)
      then have conn: "cs_initialized conn" "\<not> shut conn"
        by (auto simp: create_connection_def shut_def split: if_splits)
      show ?thesis
      proof (cases "late \<or> rc < 0")
        case True
        then show ?thesis using assms(3) Inr False fail [of _ _ state' _ "[FreeAddrInfo]"] base conn
          by (auto simp: on_resolved_def Let_def conn_initialized_def split: prod.splits if_splits)
      next
        case False
        then show ?thesis using assms(3) Inr \<open>\<not> (cr_timed_out state \<or> status < 0 \<or> \<not> res)\<close> base conn
          by (auto simp: on_resolved_def connect_inv_def)
      qed
    qed
  qed
qed

lemma connect_inv_connected:
  assumes "connect_inv state effs" "cr_connect_pending state"
    and "on_connected token status (state\<lparr>cr_connect_pending := False\<rparr>) = (state', effs')"
  shows "connect_inv state' (effs @ effs')"
proof -
  let ?s = "state\<lparr>cr_connect_pending := False\<rparr>"
  have base: "connect_sets effs = []" "\<not> cr_finished ?s" "\<not> cr_connect_pending ?s" "\<not> cr_resolver_pending ?s"
    "conn_initialized ?s"
    using assms(1,2) by (auto simp: connect_inv_def conn_initialized_def split: if_splits)
  show ?thesis
  proof (cases "cr_timed_out state \<or> status < 0")
    case True
    then obtain ex where "finish_connect_error token ex ?s = (state', effs')"
      using assms(3) by (auto simp: on_connected_def split: if_splits)
    then show ?thesis using connect_inv_failed [OF base(1,5,2,4,3), of token ex state' effs' "[]"] by simp
  next
    case False
    then show ?thesis using assms base finish_connect_success_facts [of ?s token]
      by (auto simp: on_connected_def connect_inv_def)
  qed
qed

lemma connect_inv_expire:
  assumes "connect_inv state effs" "\<not> cr_finished state"
    and "connect_for_expire token state = (state', effs')"
  shows "connect_inv state' (effs @ effs')"
proof -
  have "conn_initialized (state\<lparr>cr_timed_out := True\<rparr>)"
    using assms(1) by (auto simp: connect_inv_def conn_initialized_def)
  then obtain ptr es where cc: "close_connection token (state\<lparr>cr_timed_out := True\<rparr>) =
      (state\<lparr>cr_timed_out := True, cr_connection := ptr\<rparr>, map OnConnection es)"
    and ptr: "ptr = None \<longleftrightarrow> cr_connection state = None" "\<And>conn. ptr = Some conn \<Longrightarrow> cs_initialized conn \<and> shut conn"
    by (rule close_connection_cases [where token = token]) auto
  have eq: "state' = state\<lparr>cr_timed_out := True, cr_connection := ptr\<rparr>" "connect_sets effs' = []"
    using assms(3) cc by (auto simp: connect_for_expire_def)
  have "connect_sets effs = []" using assms(1,2) by (simp add: connect_inv_def)
  then show ?thesis using assms(1,2) eq ptr by (cases ptr) (auto simp: connect_inv_def)
qed

lemma connect_reach_inv: "connect_reach state effs \<Longrightarrow> connect_inv state effs"
proof (induction rule: connect_reach.induct)
  case (started token promise rc state)
  then show ?case
    by (auto simp: connect_def new_request_def connect_inv_def split: if_splits option.splits)
next
  case (stepped state effs a state' effs')
  then show ?case
    by (cases a) (auto intro: connect_inv_resolved connect_inv_connected connect_inv_expire)
qed

lemma on_resolved_frees:
  assumes "conn_initialized state" "\<not> cr_finished state" "on_resolved token status res init_rc late rc state = (state', effs)"
  shows "frees effs = (if res then 1 else 0)"
proof -
  have fail: "frees es = 0" if "finish_connect_error token ex st = (st', es)" "conn_initialized st" "\<not> cr_finished st"
    for ex st st' es using finish_connect_error_facts [OF that(2,3,1)] by simp
  show ?thesis
  proof (cases "create_connection init_rc")
    case (Inl ex)
    then show ?thesis using assms fail [of _ state]
      by (auto simp: on_resolved_def Let_def split: prod.splits if_splits)
  next
    case (Inr conn)
    then have "cs_initialized conn" by (auto simp: create_connection_def split: if_splits)
    then show ?thesis using assms Inr fail
      by (auto simp: on_resolved_def Let_def conn_initialized_def split: prod.splits if_splits)
  qed
qed

subsection \<open>Properties\<close>

text \<open>A timed connect that expires while \<open>uv_tcp_connect\<close> is pending, which then succeeds.\<close>

definition expired_request :: connect_request where
  "expired_request = \<lparr>cr_connection = Some (fresh_connection\<lparr>cs_closing := True, cs_uv_closing := True\<rparr>),
     cr_timed_out = True, cr_finished = True, cr_connect_req_data = True, cr_deleted = True,
     cr_resolver_pending = False, cr_connect_pending = False\<rparr>"

definition expired_effects :: "connect_effect list" where
  "expired_effects = [FreeAddrInfo, OnConnection UvClose, CancelResolver, CancelConnect,
     SetConnect (Exception connect_timeout_exception)]"

lemma expired_reach: "connect_reach expired_request expired_effects"
proof -
  let ?s0 = "new_request\<lparr>cr_resolver_pending := True\<rparr>"
  let ?s1 = "new_request\<lparr>cr_connection := Some fresh_connection, cr_connect_req_data := True, cr_connect_pending := True\<rparr>"
  let ?s2 = "?s1\<lparr>cr_timed_out := True,
    cr_connection := Some (fresh_connection\<lparr>cs_closing := True, cs_uv_closing := True\<rparr>)\<rparr>"
  have "connect_reach ?s0 []"
    by (rule connect_reach.started [of "Some True" 1 0]) (simp add: connect_def ensure_loop_alive_def)
  then have "connect_reach ?s1 ([] @ [FreeAddrInfo])"
    by (rule connect_reach.stepped [where a = "EvResolved (Some True) 0 True 0 False 0"])
      (simp_all add: on_resolved_def fresh_connection new_request_def)
  then have "connect_reach ?s2 (([] @ [FreeAddrInfo]) @ [OnConnection UvClose, CancelResolver, CancelConnect])"
    by (rule connect_reach.stepped [where a = "EvExpire (Some True)"])
      (simp_all add: connect_for_expire_def close_connection_def new_request_def fresh_connection_def conn_defs)
  then have "connect_reach expired_request ((([] @ [FreeAddrInfo]) @ [OnConnection UvClose, CancelResolver, CancelConnect]) @
      [SetConnect (Exception connect_timeout_exception)])"
    by (rule connect_reach.stepped [where a = "EvConnected (Some True) 0"])
      (simp_all add: on_connected_def finish_connect_error_def begin_connect_finish_def close_connection_def
        new_request_def fresh_connection_def conn_defs expired_request_def)
  then show ?thesis by (simp add: expired_effects_def)
qed

text \<open>
  C7. Under any order of the callbacks and the time-out, the promise of a connect is set exactly once
  and the request is deleted exactly then: a pending callback never finds a deleted request,
  and when no callback is pending the caller has its answer.
\<close>

theorem connect_settled_exactly_once:
  assumes "connect_reach state effs"
  shows "length (connect_sets effs) \<le> 1 \<and>
    (cr_resolver_pending state \<or> cr_connect_pending state \<longrightarrow> \<not> cr_deleted state \<and> connect_sets effs = []) \<and>
    (\<not> cr_resolver_pending state \<and> \<not> cr_connect_pending state \<longrightarrow> cr_deleted state \<and> connect_sets effs \<noteq> [])"
  using connect_reach_inv [OF assms] by (auto simp: connect_inv_def split: if_splits)

theorem connect_settled_exactly_once_witness:
  "connect_reach expired_request expired_effects \<and> length (connect_sets expired_effects) \<le> 1 \<and> cr_deleted expired_request \<and> connect_sets expired_effects \<noteq> []"
  using connect_settled_exactly_once [OF expired_reach] expired_reach by (simp add: expired_request_def)

text \<open>
  C8. No connection leaks: when a connect fails or times out, the connection it created, if any, is
  closing or closed; when it succeeds, the caller gets an open connection.
\<close>

theorem connect_no_leak:
  assumes "connect_reach state effs"
  shows "(\<forall>conn ex. cr_connection state = Some conn \<and> (cr_timed_out state \<or> connect_sets effs = [Exception ex]) \<longrightarrow>
      shut conn) \<and>
    (connect_sets effs = [Value ()] \<longrightarrow> (\<exists>conn. cr_connection state = Some conn \<and> cs_initialized conn \<and> \<not> shut conn))"
  using connect_reach_inv [OF assms] by (auto simp: connect_inv_def)

theorem connect_no_leak_witness:
  "connect_reach expired_request expired_effects \<and> (\<exists>conn. cr_connection expired_request = Some conn \<and> shut conn)"
  using connect_no_leak [OF expired_reach] expired_reach by (simp add: expired_request_def)

text \<open>The address list delivered by the resolver is freed exactly once, on every path.\<close>

theorem connect_frees_addrinfo:
  assumes "connect_reach state effs" "cr_resolver_pending state"
    and "connect_step (EvResolved token status res init_rc late rc) state = (state', effs')"
  shows "frees effs' = (if res then 1 else 0)"
proof -
  have "conn_initialized (state\<lparr>cr_resolver_pending := False\<rparr>)" "\<not> cr_finished (state\<lparr>cr_resolver_pending := False\<rparr>)"
    using connect_reach_inv [OF assms(1)] assms(2) by (auto simp: connect_inv_def conn_initialized_def)
  then show ?thesis using assms(3) on_resolved_frees by simp
qed

theorem connect_frees_addrinfo_witness:
  "frees (snd (connect_step (EvResolved (Some True) 0 True 0 False (-111)) (new_request\<lparr>cr_resolver_pending := True\<rparr>))) = 1"
proof -
  have "connect_reach (new_request\<lparr>cr_resolver_pending := True\<rparr>) []"
    by (rule connect_reach.started [of "Some True" 1 0]) (simp add: connect_def ensure_loop_alive_def)
  moreover have "cr_resolver_pending (new_request\<lparr>cr_resolver_pending := True\<rparr>)" by simp
  ultimately show ?thesis
    using connect_frees_addrinfo [OF _ _ surjective_pairing, of "new_request\<lparr>cr_resolver_pending := True\<rparr>" "[]"
        "Some True" 0 True 0 False "-111"] by (simp only: if_True)
qed

text \<open>
  \<open>request\<close> closes the connection it opened on every path, normal or exceptional, and never
  reads before a non-empty payload was written.
\<close>

theorem request_closes_connection:
  assumes "request token payload connected written response closed = (r, acts)"
  shows "(is_loop_alive token \<and> connected = Inr () \<longrightarrow> last acts = DoDestroy) \<and>
    (DoRead \<in> set acts \<and> payload \<noteq> [] \<longrightarrow> take 3 acts = [DoConnect, DoWrite, DoRead]) \<and>
    (\<forall>v. r = Inr v \<longrightarrow> response = Inr v \<and> (\<exists>pre. acts = pre @ [DoRead, DoClose, DoDestroy]))"
  using assms by (auto simp: request_def ensure_loop_alive_def Let_def split: if_splits sum.splits)

theorem request_closes_connection_witness:
  "last [DoConnect, DoWrite, DoRead, DoDestroy] = DoDestroy"
  using request_closes_connection [of "Some True" "[1]" "Inr ()" "Inr ()" "Inl (UserExn 0)" "Inr ()" "Inl (UserExn 0)"
      "[DoConnect, DoWrite, DoRead, DoDestroy]"]
  by (simp add: request_def ensure_loop_alive_def)

end
