(* ===== verification/Tcp_Server.thy ===== *)
theory Tcp_Server
  imports Tcp_Connection
begin

text \<open>
  \<open>TcpServer\<close> (src/tcp.cpp). The record has the fields of \<open>TcpServer::Impl\<close>; the connections are kept
  by identity in \<open>sv_conns\<close>, the store of the \<open>ConnectionState\<close> objects the server created, because the
  server still closes the ones nobody accepted. \<open>sv_uv_closing\<close> is what \<open>uv_is_closing\<close> answers.
\<close>

record server_impl =
  sv_initialized :: bool
  sv_listening :: bool
  sv_closing :: bool
  sv_closed :: bool
  sv_accepted :: "nat list"
  sv_waiters :: "pid list"
  sv_keepalive :: bool
  sv_uv_closing :: bool
  sv_conns :: "nat \<Rightarrow> connection_state option"

datatype server_effect = SetAccept pid "nat outcome" | ServerUvClose | CloseConn nat "conn_effect list"

definition server_init :: server_impl where
  "server_init = \<lparr>sv_initialized = False, sv_listening = False, sv_closing = False, sv_closed = False,
     sv_accepted = [], sv_waiters = [], sv_keepalive = False, sv_uv_closing = False, sv_conns = Map.empty\<rparr>"

text \<open>The loops over \<open>accept_waiters\<close> and over \<open>accepted_connections\<close>.\<close>

definition fail_accept_waiters :: "err \<Rightarrow> server_impl \<Rightarrow> server_impl \<times> server_effect list" where
  "fail_accept_waiters ex self =
     (self\<lparr>sv_waiters := []\<rparr>, map (\<lambda>p. SetAccept p (Exception ex)) (sv_waiters self))"

definition dispatch_accepted :: "nat \<Rightarrow> server_impl \<Rightarrow> server_impl \<times> server_effect list" where
  "dispatch_accepted connection self =
     (case sv_waiters self of
        promise # rest \<Rightarrow> (self\<lparr>sv_waiters := rest\<rparr>, [SetAccept promise (Value connection)])
      | [] \<Rightarrow> (self\<lparr>sv_accepted := sv_accepted self @ [connection]\<rparr>, []))"

definition on_server_closed :: "server_impl \<Rightarrow> server_impl \<times> server_effect list" where
  "on_server_closed self =
     (let (self1, effs) = fail_accept_waiters (RuntimeError ''server is closed'') (self\<lparr>sv_closed := True\<rparr>) in
      (if sv_closing self1 then self1\<lparr>sv_keepalive := False\<rparr> else self1, effs))"

definition close_conn ::
  "loop_lifetime_token \<Rightarrow> nat \<Rightarrow> server_impl \<Rightarrow> server_impl \<times> server_effect list" where
  "close_conn token connection self =
     (let (ptr, effs) = start_close token None (sv_conns self connection) in
      (self\<lparr>sv_conns := (sv_conns self)(connection := ptr)\<rparr>, [CloseConn connection effs]))"

text \<open>\<open>connection\<close> is the identity of the object made by \<open>create_connection\<close>.\<close>

definition on_connection ::
  "loop_lifetime_token \<Rightarrow> int \<Rightarrow> nat \<Rightarrow> int \<Rightarrow> int \<Rightarrow> server_impl \<Rightarrow> server_impl \<times> server_effect list" where
  "on_connection token status connection init_rc accept_rc self =
     (if status < 0 \<or> sv_closing self then (self, [])
      else case create_connection init_rc of
        Inl ex \<Rightarrow> (self, [])
      | Inr state \<Rightarrow>
          (let self1 = self\<lparr>sv_conns := (sv_conns self)(connection \<mapsto> state)\<rparr> in
           if accept_rc < 0 then close_conn token connection self1
           else dispatch_accepted connection self1))"

fun close_accepted ::
  "loop_lifetime_token \<Rightarrow> nat list \<Rightarrow> server_impl \<Rightarrow> server_impl \<times> server_effect list" where
  "close_accepted token [] self = (self\<lparr>sv_accepted := []\<rparr>, [])"
| "close_accepted token (connection # rest) self =
     (let (self1, effs) = close_conn token connection self;
          (self2, effs') = close_accepted token rest (self1\<lparr>sv_accepted := rest\<rparr>)
      in (self2, effs @ effs'))"

definition begin_close :: "loop_lifetime_token \<Rightarrow> server_impl \<Rightarrow> server_impl \<times> server_effect list" where
  "begin_close token self =
     (if sv_closing self then (self, [])
      else
        let self1 = self\<lparr>sv_closing := True\<rparr>;
            (self2, effs1) = fail_accept_waiters (RuntimeError ''server is closed'') self1;
            (self3, effs2) = close_accepted token (sv_accepted self2) self2
        in if sv_initialized self3 \<and> is_loop_alive token then
             (if \<not> sv_uv_closing self3
              then (self3\<lparr>sv_uv_closing := True\<rparr>, effs1 @ effs2 @ [ServerUvClose])
              else (self3\<lparr>sv_closed := True, sv_keepalive := False\<rparr>, effs1 @ effs2))
           else (self3\<lparr>sv_closed := True, sv_keepalive := False\<rparr>, effs1 @ effs2))"

text \<open>\<open>listen\<close>: the four answers of libuv are arguments; the outer \<open>option\<close> is \<open>impl_\<close>.\<close>

definition listen ::
  "loop_lifetime_token \<Rightarrow> int \<Rightarrow> int \<Rightarrow> int \<Rightarrow> int \<Rightarrow> server_impl option \<Rightarrow> unit reply \<times> server_impl option" where
  "listen token init_rc addr_rc bind_rc listen_rc impl =
     (case impl of
        None \<Rightarrow> (Throw (RuntimeError ''TcpServer is not initialized''), None)
      | Some self \<Rightarrow>
          (case ensure_loop_alive token of
             Some ex \<Rightarrow> (Throw ex, impl)
           | None \<Rightarrow>
               (if sv_listening self then (Return (), impl)
                else if init_rc < 0 then (Throw (uv_error ''uv_tcp_init(server)'' init_rc), impl)
                else
                  let self1 = self\<lparr>sv_initialized := True, sv_uv_closing := False\<rparr> in
                  if addr_rc \<noteq> 0 then (Throw (uv_error ''uv_ip4_addr'' addr_rc), Some self1)
                  else if bind_rc < 0 then (Throw (uv_error ''uv_tcp_bind'' bind_rc), Some self1)
                  else if listen_rc < 0 then (Throw (uv_error ''uv_listen'' listen_rc), Some self1)
                  else (Return (), Some (self1\<lparr>sv_listening := True, sv_keepalive := True\<rparr>)))))"

text \<open>\<open>accept\<close> up to \<open>future.get()\<close>; \<open>accept_for\<close> repeats these lines before it waits.\<close>

definition accept ::
  "loop_lifetime_token \<Rightarrow> pid \<Rightarrow> server_impl option \<Rightarrow> nat reply \<times> server_impl option" where
  "accept token promise impl =
     (case impl of
        None \<Rightarrow> (Throw (RuntimeError ''TcpServer is not initialized''), None)
      | Some self \<Rightarrow>
          (case ensure_loop_alive token of
             Some ex \<Rightarrow> (Throw ex, impl)
           | None \<Rightarrow>
               (if \<not> sv_listening self then (Throw (RuntimeError ''TcpServer is not listening''), impl)
                else if sv_closing self then (Throw (RuntimeError ''TcpServer is closed''), impl)
                else case sv_accepted self of
                  connection # rest \<Rightarrow> (Return connection, Some (self\<lparr>sv_accepted := rest\<rparr>))
                | [] \<Rightarrow> (Await promise, Some (self\<lparr>sv_waiters := sv_waiters self @ [promise]\<rparr>)))))"

definition accept_for_begin ::
  "loop_lifetime_token \<Rightarrow> pid \<Rightarrow> int \<Rightarrow> server_impl option \<Rightarrow> (nat reply \<times> server_impl option) \<times> int" where
  "accept_for_begin token promise timeout impl =
     (case impl of
        None \<Rightarrow> ((Throw (RuntimeError ''TcpServer is not initialized''), None), timeout)
      | Some self \<Rightarrow>
          (case ensure_loop_alive token of
             Some ex \<Rightarrow> ((Throw ex, impl), timeout)
           | None \<Rightarrow>
               (if \<not> sv_listening self then ((Throw (RuntimeError ''TcpServer is not listening''), impl), timeout)
                else if sv_closing self then ((Throw (RuntimeError ''TcpServer is closed''), impl), timeout)
                else case sv_accepted self of
                  connection # rest \<Rightarrow> ((Return connection, Some (self\<lparr>sv_accepted := rest\<rparr>)), timeout)
                | [] \<Rightarrow>
                    (let timeout' = (if timeout < 0 then 0 else timeout) in
                     ((Await promise, Some (self\<lparr>sv_waiters := sv_waiters self @ [promise]\<rparr>)), timeout')))))"

lemma accept_for_begin_eq: "fst (accept_for_begin token promise timeout impl) = accept token promise impl"
  by (cases impl; cases "is_loop_alive token"; cases "sv_accepted (the impl)")
    (simp_all add: accept_for_begin_def accept_def ensure_loop_alive_def Let_def)

definition accept_for_expire :: "pid \<Rightarrow> server_impl \<Rightarrow> bool \<times> server_impl" where
  "accept_for_expire promise self =
     (if promise \<in> set (sv_waiters self)
      then (True, self\<lparr>sv_waiters := remove1 promise (sv_waiters self)\<rparr>)
      else (False, self))"

definition accept_for_resume ::
  "pid \<Rightarrow> nat outcome option \<Rightarrow> nat outcome option \<Rightarrow> server_impl \<Rightarrow> (err + nat option) \<times> server_impl" where
  "accept_for_resume promise first second self =
     (case first of
        Some r \<Rightarrow> (map_sum id Some (future_get r), self)
      | None \<Rightarrow>
          (let (found, self') = accept_for_expire promise self in
           if found then (Inr None, self')
           else case second of
             Some r \<Rightarrow> (map_sum id Some (future_get r), self')
           | None \<Rightarrow> (Inr None, self')))"

text \<open>
  \<open>TcpServer::close\<close> drops the reference of the user; the object lives on only through \<open>keepalive\<close>.
  The second component of the result is what is left for libuv's callbacks to find.
\<close>

definition server_close ::
  "loop_lifetime_token \<Rightarrow> server_impl option \<Rightarrow> server_impl option \<times> server_impl option \<times> server_effect list" where
  "server_close token impl =
     (case impl of
        None \<Rightarrow> (None, None, [])
      | Some self \<Rightarrow>
          (let (self', effs) = begin_close token self in
           (None, if sv_keepalive self' then Some self' else None, effs)))"

definition server_destroy ::
  "loop_lifetime_token \<Rightarrow> server_impl option \<Rightarrow> server_impl option \<times> server_impl option \<times> server_effect list" where
  "server_destroy token impl = server_close token impl"

subsection \<open>Hand-off of accepted connections\<close>

definition server_open_inv :: "server_impl \<Rightarrow> bool" where
  "server_open_inv self \<longleftrightarrow> sv_listening self \<and> \<not> sv_closing self \<and> (sv_accepted self = [] \<or> sv_waiters self = [])"

definition server_put :: "nat \<Rightarrow> server_impl \<Rightarrow> server_impl \<times> (pid \<times> nat) list" where
  "server_put connection self =
     (case on_connection (Some True) 0 connection 0 0 self of
        (self', effs) \<Rightarrow>
          (self', [x. e \<leftarrow> effs, x \<leftarrow> (case e of SetAccept p (Value v) \<Rightarrow> [(p, v)] | _ \<Rightarrow> [])]))"

definition server_get :: "pid \<Rightarrow> server_impl \<Rightarrow> server_impl \<times> nat option" where
  "server_get p self =
     (case accept (Some True) p (Some self) of
        (Return v, impl) \<Rightarrow> (the impl, Some v)
      | (_, impl) \<Rightarrow> (the impl, None))"

definition server_cancel :: "pid \<Rightarrow> server_impl \<Rightarrow> server_impl \<times> bool" where
  "server_cancel p self = (case accept_for_expire p self of (found, self') \<Rightarrow> (self', found))"

interpretation tcp_accept: handoff server_open_inv sv_accepted sv_waiters "\<lambda>_. True" "\<lambda>_. True"
  server_put server_get server_cancel
  by unfold_locales
    (auto simp: server_open_inv_def server_put_def server_get_def server_cancel_def on_connection_def
      dispatch_accepted_def accept_def accept_for_expire_def ensure_loop_alive_def create_connection_def
      remove1_idem Let_def split: list.splits)

subsection \<open>Closing\<close>

definition conn_shut :: "connection_state option \<Rightarrow> bool" where
  "conn_shut ptr = (case ptr of None \<Rightarrow> True | Some conn \<Rightarrow> \<not> cs_initialized conn \<or> cs_closing conn \<or> cs_closed conn)"

fun accept_sets :: "server_effect list \<Rightarrow> (pid \<times> nat outcome) list" where
  "accept_sets [] = []"
| "accept_sets (SetAccept p r # es) = (p, r) # accept_sets es"
| "accept_sets (e # es) = accept_sets es"

fun server_uv_closes :: "server_effect list \<Rightarrow> nat" where
  "server_uv_closes [] = 0"
| "server_uv_closes (ServerUvClose # es) = Suc (server_uv_closes es)"
| "server_uv_closes (e # es) = server_uv_closes es"

lemma accept_sets_append [simp]: "accept_sets (xs @ ys) = accept_sets xs @ accept_sets ys"
  by (induction xs rule: accept_sets.induct) simp_all

lemma server_uv_closes_append [simp]: "server_uv_closes (xs @ ys) = server_uv_closes xs + server_uv_closes ys"
  by (induction xs rule: server_uv_closes.induct) simp_all

lemma map_SetAccept [simp]:
  "accept_sets (map (\<lambda>p. SetAccept p (f p)) ps) = map (\<lambda>p. (p, f p)) ps"
  "server_uv_closes (map (\<lambda>p. SetAccept p (f p)) ps) = 0"
  by (induction ps) simp_all

lemma conn_shut_start_close: "conn_shut (fst (start_close token p ptr))"
  by (cases "is_loop_alive token"; cases ptr) (auto simp: conn_shut_def conn_defs Let_def split: option.splits)

text \<open>Closing the accepted connections touches nothing but them.\<close>

lemma close_accepted_facts:
  assumes "close_accepted token cs self = (self', effs)"
  shows "(\<exists>conns. self' = self\<lparr>sv_accepted := [], sv_conns := conns\<rparr> \<and> (\<forall>c \<in> set cs. conn_shut (conns c)) \<and>
      (\<forall>c. c \<notin> set cs \<longrightarrow> conns c = sv_conns self c) \<and> (\<forall>c. conn_shut (sv_conns self c) \<longrightarrow> conn_shut (conns c))) \<and>
    accept_sets effs = [] \<and> server_uv_closes effs = 0"
  using assms
proof (induction cs arbitrary: self effs)
  case Nil
  then show ?case by (auto intro!: exI [of _ "sv_conns self"])
next
  case (Cons c cs)
  obtain ptr es where sc: "start_close token None (sv_conns self c) = (ptr, es)" by fastforce
  have shut: "conn_shut ptr" using conn_shut_start_close [of token None "sv_conns self c"] sc by simp
  let ?self = "self\<lparr>sv_conns := (sv_conns self)(c := ptr), sv_accepted := cs\<rparr>"
  obtain effs2 where run: "close_accepted token cs ?self = (self', effs2)" "effs = [CloseConn c es] @ effs2"
    using Cons.prems sc by (auto simp: close_conn_def split: prod.splits)
  from Cons.IH [OF run(1)] obtain conns where
    "self' = ?self\<lparr>sv_accepted := [], sv_conns := conns\<rparr>" "\<forall>d \<in> set cs. conn_shut (conns d)"
    "\<forall>d. d \<notin> set cs \<longrightarrow> conns d = sv_conns ?self d" "\<forall>d. conn_shut (sv_conns ?self d) \<longrightarrow> conn_shut (conns d)"
    "accept_sets effs2 = []" "server_uv_closes effs2 = 0" by auto
  then show ?case using run(2) shut by (auto intro!: exI [of _ conns])
qed

lemma begin_close_facts:
  assumes "\<not> sv_closing self" "begin_close token self = (self', effs)"
  obtains conns b where "self' = self\<lparr>sv_closing := True, sv_waiters := [], sv_accepted := [], sv_conns := conns,
      sv_uv_closing := sv_uv_closing self \<or> b, sv_closed := sv_closed self \<or> \<not> b,
      sv_keepalive := sv_keepalive self \<and> b\<rparr>"
    "b \<longleftrightarrow> sv_initialized self \<and> is_loop_alive token \<and> \<not> sv_uv_closing self"
    "\<forall>c \<in> set (sv_accepted self). conn_shut (conns c)" "\<forall>c. c \<notin> set (sv_accepted self) \<longrightarrow> conns c = sv_conns self c"
    "accept_sets effs = map (\<lambda>p. (p, Exception (RuntimeError ''server is closed''))) (sv_waiters self)"
    "server_uv_closes effs = (if b then 1 else 0)"
proof -
  let ?self2 = "self\<lparr>sv_closing := True, sv_waiters := []\<rparr>"
  obtain self3 effs2 where ca: "close_accepted token (sv_accepted self) ?self2 = (self3, effs2)" by fastforce
  from close_accepted_facts [OF this] obtain conns where
    c: "self3 = ?self2\<lparr>sv_accepted := [], sv_conns := conns\<rparr>" "\<forall>c \<in> set (sv_accepted self). conn_shut (conns c)"
    "\<forall>c. c \<notin> set (sv_accepted self) \<longrightarrow> conns c = sv_conns self c" "accept_sets effs2 = []" "server_uv_closes effs2 = 0"
    by auto
  show thesis
    using that [where conns = conns and b = "sv_initialized self \<and> is_loop_alive token \<and> \<not> sv_uv_closing self"] assms ca c
    by (auto simp: begin_close_def fail_accept_waiters_def Let_def split: if_splits)
qed

subsection \<open>The life of a server\<close>

text \<open>
  Everything that can happen to the object: calls of \<open>listen\<close>, \<open>accept\<close>, \<open>accept_for\<close> and \<open>close\<close>, and
  libuv's two callbacks. \<open>asked\<close> are the promises on which a caller was suspended, \<open>sets\<close> the settings,
  \<open>gone\<close> the promises withdrawn by a time-out.
\<close>

inductive server_reach :: "server_impl \<Rightarrow> pid list \<Rightarrow> (pid \<times> nat outcome) list \<Rightarrow> pid list \<Rightarrow> bool" where
  reach_init: "server_reach server_init [] [] []"
| reach_listen: "server_reach self asked sets gone \<Longrightarrow>
    listen token init_rc addr_rc bind_rc listen_rc (Some self) = (r, Some self') \<Longrightarrow> server_reach self' asked sets gone"
| reach_accept: "server_reach self asked sets gone \<Longrightarrow> accept token p (Some self) = (r, Some self') \<Longrightarrow>
    server_reach self' (asked @ (case r of Await q \<Rightarrow> [q] | _ \<Rightarrow> [])) sets gone"
| reach_expire: "server_reach self asked sets gone \<Longrightarrow> accept_for_expire p self = (found, self') \<Longrightarrow>
    server_reach self' asked sets (gone @ (if found then [p] else []))"
| reach_connection: "server_reach self asked sets gone \<Longrightarrow>
    on_connection token status c init_rc accept_rc self = (self', effs) \<Longrightarrow> server_reach self' asked (sets @ accept_sets effs) gone"
| reach_close: "server_reach self asked sets gone \<Longrightarrow> begin_close token self = (self', effs) \<Longrightarrow>
    server_reach self' asked (sets @ accept_sets effs) gone"
| reach_closed: "server_reach self asked sets gone \<Longrightarrow> sv_uv_closing self \<Longrightarrow> on_server_closed self = (self', effs) \<Longrightarrow>
    server_reach self' asked (sets @ accept_sets effs) gone"

definition server_inv :: "server_impl \<Rightarrow> pid list \<Rightarrow> (pid \<times> nat outcome) list \<Rightarrow> pid list \<Rightarrow> bool" where
  "server_inv self asked sets gone \<longleftrightarrow>
     (sv_accepted self = [] \<or> sv_waiters self = []) \<and>
     (sv_closing self \<longrightarrow> sv_accepted self = [] \<and> sv_waiters self = []) \<and>
     mset asked = mset (map fst sets) + mset gone + mset (sv_waiters self)"

lemma server_reach_inv: "server_reach self asked sets gone \<Longrightarrow> server_inv self asked sets gone"
proof (induction rule: server_reach.induct)
  case reach_init
  then show ?case by (simp add: server_inv_def server_init_def)
next
  case (reach_listen self asked sets gone token init_rc addr_rc bind_rc listen_rc r self')
  then show ?case
    by (auto simp: listen_def server_inv_def Let_def split: if_splits option.splits)
next
  case (reach_accept self asked sets gone token p r self')
  then show ?case by (auto simp: accept_def server_inv_def split: if_splits option.splits list.splits)
next
  case (reach_expire self asked sets gone p found self')
  then show ?case by (auto simp: accept_for_expire_def server_inv_def split: if_splits)
next
  case (reach_connection self asked sets gone token status c init_rc accept_rc self' effs)
  then show ?case
    by (auto simp: on_connection_def dispatch_accepted_def close_conn_def server_inv_def Let_def
        split: if_splits sum.splits list.splits prod.splits)
next
  case (reach_close self asked sets gone token self' effs)
  show ?case
  proof (cases "sv_closing self")
    case True
    then show ?thesis using reach_close by (simp add: begin_close_def)
  next
    case False
    then show ?thesis
      by (rule begin_close_facts [OF _ reach_close.hyps(2)])
        (use reach_close.IH in \<open>auto simp: server_inv_def comp_def\<close>)
  qed
next
  case (reach_closed self asked sets gone self' effs)
  then show ?case by (auto simp: on_server_closed_def fail_accept_waiters_def server_inv_def multiset.map_comp comp_def Let_def)
qed

subsection \<open>The phases of a server\<close>

definition server_phase :: "server_impl \<Rightarrow> phase" where
  "server_phase self = phase_of (sv_closing self) (sv_closed self)"

inductive server_moves :: "server_impl \<Rightarrow> server_impl \<Rightarrow> bool" where
  move_listen: "listen token init_rc addr_rc bind_rc listen_rc (Some self) = (r, Some self') \<Longrightarrow> server_moves self self'"
| move_accept: "accept token p (Some self) = (r, Some self') \<Longrightarrow> server_moves self self'"
| move_expire: "accept_for_expire p self = (found, self') \<Longrightarrow> server_moves self self'"
| move_connection: "on_connection token status c init_rc accept_rc self = (self', effs) \<Longrightarrow> server_moves self self'"
| move_close: "begin_close token self = (self', effs) \<Longrightarrow> server_moves self self'"
| move_closed: "on_server_closed self = (self', effs) \<Longrightarrow> server_moves self self'"

interpretation server_life: lifecycle server_phase server_moves
proof
  fix self self' assume "server_moves self self'"
  then show "server_phase self \<le> server_phase self'"
  proof (induction rule: server_moves.induct)
    case (move_close token self self' effs)
    show ?case
    proof (cases "sv_closing self")
      case True
      then show ?thesis using move_close by (simp add: begin_close_def)
    next
      case False
      show ?thesis by (rule begin_close_facts [OF False move_close]) (auto simp: server_phase_def phase_of_def)
    qed
  qed (auto simp: server_phase_def listen_def accept_def accept_for_expire_def on_connection_def dispatch_accepted_def
      close_conn_def on_server_closed_def fail_accept_waiters_def Let_def
      split: if_splits option.splits list.splits sum.splits prod.splits)
qed

lemma server_move_closing: "server_moves self self' \<Longrightarrow> sv_closing self \<Longrightarrow> sv_closing self'"
  by (induction rule: server_moves.induct)
    (auto simp: listen_def accept_def accept_for_expire_def on_connection_def dispatch_accepted_def begin_close_def
      close_conn_def on_server_closed_def fail_accept_waiters_def Let_def
      split: if_splits option.splits list.splits sum.splits prod.splits)

lemma server_moves_closing: "server_moves\<^sup>*\<^sup>* self self' \<Longrightarrow> sv_closing self \<Longrightarrow> sv_closing self'"
  by (induction rule: rtranclp_induct) (auto dest: server_move_closing)

lemma accept_closing: "sv_closing self \<Longrightarrow> \<exists>ex. accept token p (Some self) = (Throw ex, Some self)"
  by (simp add: accept_def ensure_loop_alive_def)

subsection \<open>Properties\<close>

text \<open>
  C25. While a server is open and its loop alive, connections are handed to the callers of \<open>accept\<close> in the order libuv accepted them, callers are
  served in the order they asked, a caller whose time-out expires costs no connection, and
  connections are queued only while nobody waits.
\<close>

theorem server_accept_fifo:
  assumes "server_open_inv self" "sv_accepted self = []" "sv_waiters self = []"
    and "handoff_run server_put server_get server_cancel ops self = (t, log, gone)"
    and "handoff_ok (\<lambda>_. True) (\<lambda>_. True) server_put server_get server_cancel ops self"
  shows "puts ops = map snd log @ sv_accepted t \<and>
    mset (gets ops) = mset (map fst log) + mset gone + mset (sv_waiters t) \<and>
    (cancels ops = [] \<longrightarrow> gets ops = map fst log @ sv_waiters t) \<and> (sv_accepted t = [] \<or> sv_waiters t = [])"
  using tcp_accept.run_values [OF assms(1,5,4)] tcp_accept.run_receivers [OF assms(1,5,4)]
    tcp_accept.run_receivers_fifo [OF assms(1,5) _ assms(4)] tcp_accept.run_inv [OF assms(1,5,4)] assms(2,3)
  by (auto simp: server_open_inv_def)

definition listening_server :: server_impl where
  "listening_server = server_init\<lparr>sv_initialized := True, sv_listening := True, sv_keepalive := True\<rparr>"

theorem server_accept_fifo_witness:
  "\<exists>t. handoff_ok (\<lambda>_. True) (\<lambda>_. True) server_put server_get server_cancel
      [Get 1, Get 2, Put 7, Cancel 2, Put 8, Get 3, Put 9] listening_server \<and>
    handoff_run server_put server_get server_cancel [Get 1, Get 2, Put 7, Cancel 2, Put 8, Get 3, Put 9] listening_server =
      (t, [(1, 7), (3, 8)], [2]) \<and> sv_accepted t = [9] \<and> sv_waiters t = [] \<and>
    [7, 8, 9] = map snd [(1 :: pid, 7), (3, 8)] @ sv_accepted t \<and>
    mset [1, 2, 3] = mset (map fst [(1 :: pid, 7 :: nat), (3, 8)]) + mset [2] + mset (sv_waiters t)"
  using server_accept_fifo [of listening_server "[Get 1, Get 2, Put 7, Cancel 2, Put 8, Get 3, Put 9]"]
  by (simp add: listening_server_def server_init_def server_open_inv_def handoff_step_def server_put_def
      server_get_def server_cancel_def on_connection_def dispatch_accepted_def accept_def accept_for_expire_def
      ensure_loop_alive_def create_connection_def Let_def)

text \<open>
  C26. Whatever happens to a server, every suspended caller of \<open>accept\<close> is settled exactly once, has
  withdrawn, or still waits; and once closing has begun nobody waits and no connection is queued.
\<close>

theorem server_callers_settled:
  assumes "server_reach self asked sets gone"
  shows "mset asked = mset (map fst sets) + mset gone + mset (sv_waiters self) \<and>
    (sv_closing self \<longrightarrow> sv_waiters self = [] \<and> sv_accepted self = [])"
  using server_reach_inv [OF assms] by (simp add: server_inv_def)

lemma listening_reach: "server_reach listening_server [] [] []"
  by (rule server_reach.reach_listen [OF server_reach.reach_init, of "Some True" 0 0 0 0 "Return ()"])
    (simp add: listen_def listening_server_def server_init_def ensure_loop_alive_def)

theorem server_callers_settled_witness:
  "\<exists>self sets. server_reach self [4] sets [] \<and> sv_closing self \<and>
     sets = [(4, Exception (RuntimeError ''server is closed''))] \<and>
     mset [4] = mset (map fst sets) + mset [] + mset (sv_waiters self)"
proof -
  let ?self = "listening_server\<lparr>sv_closing := True, sv_uv_closing := True\<rparr>"
  have 1: "server_reach (listening_server\<lparr>sv_waiters := [4]\<rparr>) [4] [] []"
    using server_reach.reach_accept [OF listening_reach, of "Some True" 4 "Await 4" "listening_server\<lparr>sv_waiters := [4]\<rparr>"]
    by (simp add: accept_def ensure_loop_alive_def listening_server_def server_init_def)
  have 2: "server_reach ?self [4]
      ([] @ accept_sets [SetAccept 4 (Exception (RuntimeError ''server is closed'')), ServerUvClose]) []"
    by (rule server_reach.reach_close [OF 1, of "Some True"])
      (simp add: begin_close_def fail_accept_waiters_def listening_server_def server_init_def)
  show ?thesis using 2 server_callers_settled [OF 2] by (intro exI [of _ ?self]) (auto simp: listening_server_def)
qed

text \<open>
  The first \<open>close\<close> fails every suspended \<open>accept\<close>, in order, starts the closing of every connection
  nobody accepted and of no other, and calls \<open>uv_close\<close> exactly when the handle is initialised, its loop
  alive and not closing already; a second one does nothing.
\<close>

theorem server_close_effects:
  assumes "\<not> sv_closing self" "begin_close token self = (self', effs)"
  shows "accept_sets effs = map (\<lambda>p. (p, Exception (RuntimeError ''server is closed''))) (sv_waiters self) \<and>
    sv_waiters self' = [] \<and> sv_accepted self' = [] \<and>
    (\<forall>c. if c \<in> set (sv_accepted self) then conn_shut (sv_conns self' c) else sv_conns self' c = sv_conns self c) \<and>
    server_uv_closes effs = (if sv_initialized self \<and> is_loop_alive token \<and> \<not> sv_uv_closing self then 1 else 0) \<and>
    begin_close token' self' = (self', [])"
  by (rule begin_close_facts [OF assms]) (simp add: begin_close_def)

theorem server_close_effects_witness:
  "server_uv_closes (snd (begin_close (Some True) listening_server)) = 1"
  using server_close_effects [OF _ surjective_pairing, of listening_server "Some True"]
  by (simp add: listening_server_def server_init_def)

text \<open>
  A server that listens outlives its closing: after \<open>close\<close> on a live loop the object is kept for
  the pending callback of \<open>uv_close\<close>, which then releases it. A server whose \<open>listen\<close> failed after
  \<open>uv_tcp_init\<close> is not: \<open>close\<close> requests \<open>uv_close\<close> and frees the object its callback is given.
\<close>

theorem server_close_lifetime:
  assumes "listen (Some True) init_rc addr_rc bind_rc listen_rc (Some server_init) = (r, Some self)" "0 \<le> init_rc"
    and "server_close (Some True) (Some self) = (impl, left, effs)"
  shows "impl = None \<and> server_uv_closes effs = 1 \<and>
    (r = Return () \<longrightarrow> left \<noteq> None \<and> sv_uv_closing (the left) \<and> \<not> sv_keepalive (fst (on_server_closed (the left)))) \<and>
    (r \<noteq> Return () \<longrightarrow> left = None)"
  using assms
  by (auto simp: listen_def server_init_def server_close_def begin_close_def fail_accept_waiters_def
      on_server_closed_def ensure_loop_alive_def Let_def split: if_splits)

theorem server_close_lifetime_witness:
  "server_close (Some True) (Some (server_init\<lparr>sv_initialized := True\<rparr>)) = (None, None, [ServerUvClose]) \<and>
   server_uv_closes [ServerUvClose] = 1"
  using server_close_lifetime [of 0 0 "-98" 0 "Throw (UvError ''uv_tcp_bind'' (-98))" "server_init\<lparr>sv_initialized := True\<rparr>"
      None None "[ServerUvClose]"]
  by (simp add: listen_def server_init_def ensure_loop_alive_def uv_error_def server_close_def begin_close_def
      fail_accept_waiters_def)

end
