(* ===== verification/Udp_Socket.thy ===== *)
theory Udp_Socket
  imports Handoff Closable Lifecycle
begin

text \<open>
  UDP sockets (src/udp.cpp). The record has the fields of \<open>UdpState\<close> and two flags of the libuv handle:
  \<open>us_receiving\<close>, set by \<open>uv_udp_recv_start\<close> and cleared by \<open>uv_udp_recv_stop\<close> and \<open>uv_close\<close>, and
  \<open>us_uv_closing\<close>. A socket address is its family with the raw address bytes and the port field as
  stored in memory; \<open>uv_ip4_name\<close> and \<open>uv_ip6_name\<close> are parameters, as is the byte order of the machine.
\<close>

datatype sockaddr = SockIn "byte list" "16 word" | SockIn6 "byte list" "16 word" | SockOther nat

record udp_packet =
  pk_data :: "byte list"
  pk_host :: string
  pk_port :: int

record udp_names =
  uv_ip4_name :: "byte list \<Rightarrow> int \<times> string"
  uv_ip6_name :: "byte list \<Rightarrow> int \<times> string"

text \<open>\<open>make_sockaddr\<close>: the answers of \<open>uv_ip4_addr\<close> and \<open>uv_ip6_addr\<close> are arguments.\<close>

definition make_sockaddr :: "int \<Rightarrow> sockaddr \<Rightarrow> int \<Rightarrow> sockaddr \<Rightarrow> sockaddr option" where
  "make_sockaddr rc4 addr4 rc6 addr6 =
     (if rc4 = 0 then Some addr4 else if rc6 = 0 then Some addr6 else None)"

definition from_network_u16 :: "bool \<Rightarrow> 16 word \<Rightarrow> int" where
  "from_network_u16 little v = (if little then uint (or (drop_bit 8 v) (push_bit 8 v)) else uint v)"

definition packet_from_sockaddr ::
  "udp_names \<Rightarrow> bool \<Rightarrow> sockaddr option \<Rightarrow> byte list \<Rightarrow> err + udp_packet" where
  "packet_from_sockaddr names little addr data =
     (case addr of
        None \<Rightarrow> Inr \<lparr>pk_data = data, pk_host = [], pk_port = 0\<rparr>
      | Some (SockIn ip port) \<Rightarrow>
          (case uv_ip4_name names ip of (rc, text) \<Rightarrow>
             if rc \<noteq> 0 then Inl (RuntimeError ''uv_ip4_name failed'')
             else Inr \<lparr>pk_data = data, pk_host = text, pk_port = from_network_u16 little port\<rparr>)
      | Some (SockIn6 ip port) \<Rightarrow>
          (case uv_ip6_name names ip of (rc, text) \<Rightarrow>
             if rc \<noteq> 0 then Inl (RuntimeError ''uv_ip6_name failed'')
             else Inr \<lparr>pk_data = data, pk_host = text, pk_port = from_network_u16 little port\<rparr>)
      | Some (SockOther family) \<Rightarrow> Inl (RuntimeError ''Unsupported sockaddr family for UDP packet''))"

record udp_state =
  us_initialized :: bool
  us_bound :: bool
  us_closing :: bool
  us_closed :: bool
  us_pending_recv :: "pid option"
  us_buffered_packets :: "udp_packet list"
  us_close_waiters :: "pid list"
  us_keepalive :: bool
  us_receiving :: bool
  us_uv_closing :: bool

datatype udp_effect = SetRecv pid "udp_packet outcome" | SetUdpClose pid | UdpUvClose

definition finish_recv_success :: "udp_packet \<Rightarrow> udp_state \<Rightarrow> udp_state \<times> udp_effect list" where
  "finish_recv_success packet state =
     (case us_pending_recv state of
        None \<Rightarrow> (state, [])
      | Some pending \<Rightarrow> (state\<lparr>us_pending_recv := None\<rparr>, [SetRecv pending (Value packet)]))"

definition finish_recv_error :: "err \<Rightarrow> udp_state \<Rightarrow> udp_state \<times> udp_effect list" where
  "finish_recv_error ex state =
     (case us_pending_recv state of
        None \<Rightarrow> (state, [])
      | Some pending \<Rightarrow> (state\<lparr>us_pending_recv := None\<rparr>, [SetRecv pending (Exception ex)]))"

text \<open>The lines that fail a pending receive when the socket is closed.\<close>

definition fail_pending_recv :: "udp_state \<Rightarrow> udp_state \<times> udp_effect list" where
  "fail_pending_recv state = finish_recv_error (RuntimeError ''udp socket closed'') state"

definition settle_udp_closed :: "udp_state \<Rightarrow> udp_state \<times> udp_effect list" where
  "settle_udp_closed state =
     (let (state1, effs) = fail_pending_recv (state\<lparr>us_closed := True, us_closing := False\<rparr>) in
      (state1\<lparr>us_close_waiters := [], us_keepalive := False\<rparr>, effs @ map SetUdpClose (us_close_waiters state1)))"

definition on_udp_closed :: "udp_state \<Rightarrow> udp_state \<times> udp_effect list" where
  "on_udp_closed state = settle_udp_closed state"

definition set_udp_close :: "pid option \<Rightarrow> udp_effect list" where
  "set_udp_close promise = (case promise of None \<Rightarrow> [] | Some p \<Rightarrow> [SetUdpClose p])"

definition start_udp_close ::
  "loop_lifetime_token \<Rightarrow> pid option \<Rightarrow> udp_state option \<Rightarrow> udp_state option \<times> udp_effect list" where
  "start_udp_close token promise ptr =
     (case ptr of
        None \<Rightarrow> (None, set_udp_close promise)
      | Some state \<Rightarrow>
          (if \<not> us_initialized state \<or> us_closed state then (Some state, set_udp_close promise)
           else
             let state1 = (case promise of
                 None \<Rightarrow> state | Some p \<Rightarrow> state\<lparr>us_close_waiters := us_close_waiters state @ [p]\<rparr>) in
             if \<not> is_loop_alive token then
               (let (state2, effs) = settle_udp_closed state1 in (Some state2, effs))
             else if us_closing state1 then (Some state1, [])
             else
               let state2 = state1\<lparr>us_closing := True\<rparr> in
               if \<not> us_uv_closing state2
               then (Some (state2\<lparr>us_uv_closing := True, us_receiving := False\<rparr>), [UdpUvClose])
               else (Some state2, [])))"

definition create_udp_socket :: "int \<Rightarrow> err + udp_state" where
  "create_udp_socket init_rc =
     (if init_rc < 0 then Inl (uv_error ''uv_udp_init'' init_rc)
      else Inr \<lparr>us_initialized = True, us_bound = False, us_closing = False, us_closed = False,
        us_pending_recv = None, us_buffered_packets = [], us_close_waiters = [], us_keepalive = True,
        us_receiving = False, us_uv_closing = False\<rparr>)"

definition deliver_packet :: "udp_packet \<Rightarrow> udp_state \<Rightarrow> udp_state \<times> udp_effect list" where
  "deliver_packet packet state =
     (if us_pending_recv state \<noteq> None then finish_recv_success packet state
      else (state\<lparr>us_buffered_packets := us_buffered_packets state @ [packet]\<rparr>, []))"

definition uv_udp_recv_stop :: "udp_state \<Rightarrow> udp_state" where
  "uv_udp_recv_stop state = state\<lparr>us_receiving := False\<rparr>"

definition on_udp_recv ::
  "udp_names \<Rightarrow> bool \<Rightarrow> int \<Rightarrow> byte list \<Rightarrow> sockaddr option \<Rightarrow> udp_state \<Rightarrow> udp_state \<times> udp_effect list" where
  "on_udp_recv names little nread base addr state =
     (if nread = 0 \<and> addr = None then (state, [])
      else
        let state1 = uv_udp_recv_stop state in
        if nread < 0 then finish_recv_error (uv_error ''uv_udp_recv_start'' nread) state1
        else case packet_from_sockaddr names little addr (take (nat nread) base) of
          Inr packet \<Rightarrow> deliver_packet packet state1
        | Inl ex \<Rightarrow> finish_recv_error ex state1)"

definition on_udp_send :: "int \<Rightarrow> unit outcome" where
  "on_udp_send status = (if status < 0 then Exception (uv_error ''uv_udp_send'' status) else Value ())"

text \<open>
  The members of \<open>UdpSocket\<close>. The pointers \<open>impl_\<close> and \<open>impl_->state\<close> are always tested together, so
  \<open>None\<close> stands for either being null.
\<close>

definition udp_usable :: "udp_state option \<Rightarrow> bool" where
  "udp_usable impl = (case impl of None \<Rightarrow> False | Some state \<Rightarrow> us_initialized state \<and> \<not> us_closed state)"

definition bind ::
  "loop_lifetime_token \<Rightarrow> sockaddr option \<Rightarrow> int \<Rightarrow> udp_state option \<Rightarrow> unit reply \<times> udp_state option" where
  "bind token addr rc impl =
     (if \<not> udp_usable impl then (Throw (RuntimeError ''invalid udp socket''), impl)
      else case ensure_loop_alive token of
        Some ex \<Rightarrow> (Throw ex, impl)
      | None \<Rightarrow>
          (if us_bound (the impl) then (Return (), impl)
           else if addr = None then (Throw (RuntimeError ''invalid udp bind address''), impl)
           else if rc < 0 then (Throw (uv_error ''uv_udp_bind'' rc), impl)
           else (Return (), Some ((the impl)\<lparr>us_bound := True\<rparr>))))"

text \<open>The second component is the datagram handed to \<open>uv_udp_send\<close>.\<close>

definition send_to ::
  "loop_lifetime_token \<Rightarrow> pid \<Rightarrow> sockaddr option \<Rightarrow> int \<Rightarrow> byte list \<Rightarrow> udp_state option \<Rightarrow>
   unit reply \<times> (byte list \<times> sockaddr) option" where
  "send_to token promise addr rc payload impl =
     (if \<not> udp_usable impl then (Throw (RuntimeError ''invalid udp socket''), None)
      else case ensure_loop_alive token of
        Some ex \<Rightarrow> (Throw ex, None)
      | None \<Rightarrow>
          (if payload = [] then (Return (), None)
           else case addr of
             None \<Rightarrow> (Throw (RuntimeError ''invalid udp destination address''), None)
           | Some dest \<Rightarrow>
               (let buf = take (length payload mod 2 ^ 32) payload in
                if rc < 0 then (Throw (uv_error ''uv_udp_send(start)'' rc), Some (buf, dest))
                else (Await promise, Some (buf, dest)))))"

definition recv_from ::
  "loop_lifetime_token \<Rightarrow> pid \<Rightarrow> int \<Rightarrow> udp_state option \<Rightarrow> udp_packet reply \<times> udp_state option" where
  "recv_from token promise rc impl =
     (if \<not> udp_usable impl then (Throw (RuntimeError ''invalid udp socket''), impl)
      else case ensure_loop_alive token of
        Some ex \<Rightarrow> (Throw ex, impl)
      | None \<Rightarrow>
          (let state = the impl in
           case us_buffered_packets state of
             out # rest \<Rightarrow> (Return out, Some (state\<lparr>us_buffered_packets := rest\<rparr>))
           | [] \<Rightarrow>
               (if us_pending_recv state \<noteq> None
                then (Throw (RuntimeError ''another udp recv is already pending''), impl)
                else if rc < 0 then (Throw (uv_error ''uv_udp_recv_start'' rc), impl)
                else (Await promise, Some (state\<lparr>us_pending_recv := Some promise, us_receiving := True\<rparr>)))))"

text \<open>\<open>recv_from_for\<close> repeats these lines before it waits; the last component is its time-out.\<close>

definition recv_from_for_begin ::
  "loop_lifetime_token \<Rightarrow> pid \<Rightarrow> int \<Rightarrow> int \<Rightarrow> udp_state option \<Rightarrow> (udp_packet reply \<times> udp_state option) \<times> int" where
  "recv_from_for_begin token promise rc timeout impl =
     (if \<not> udp_usable impl then ((Throw (RuntimeError ''invalid udp socket''), impl), timeout)
      else case ensure_loop_alive token of
        Some ex \<Rightarrow> ((Throw ex, impl), timeout)
      | None \<Rightarrow>
          (let state = the impl in
           case us_buffered_packets state of
             out # rest \<Rightarrow> ((Return out, Some (state\<lparr>us_buffered_packets := rest\<rparr>)), timeout)
           | [] \<Rightarrow>
               (if us_pending_recv state \<noteq> None
                then ((Throw (RuntimeError ''another udp recv is already pending''), impl), timeout)
                else
                  let timeout' = (if timeout < 0 then 0 else timeout) in
                  if rc < 0 then ((Throw (uv_error ''uv_udp_recv_start'' rc), impl), timeout')
                  else ((Await promise,
                         Some (state\<lparr>us_pending_recv := Some promise, us_receiving := True\<rparr>)), timeout'))))"

lemma recv_from_for_begin_eq:
  "fst (recv_from_for_begin token promise rc timeout impl) = recv_from token promise rc impl"
  by (cases "is_loop_alive token"; cases "us_buffered_packets (the impl)")
    (simp_all add: recv_from_for_begin_def recv_from_def ensure_loop_alive_def Let_def)

definition recv_from_for_expire :: "pid \<Rightarrow> udp_state \<Rightarrow> bool \<times> udp_state" where
  "recv_from_for_expire pending state =
     (if us_pending_recv state = Some pending
      then (True, (uv_udp_recv_stop state)\<lparr>us_pending_recv := None\<rparr>)
      else (False, state))"

definition recv_from_for_resume ::
  "pid \<Rightarrow> udp_packet outcome option \<Rightarrow> udp_packet outcome option \<Rightarrow> udp_state \<Rightarrow>
   (err + udp_packet option) \<times> udp_state" where
  "recv_from_for_resume pending first second state =
     (case first of
        Some r \<Rightarrow> (map_sum id Some (future_get r), state)
      | None \<Rightarrow>
          (let (mine, state') = recv_from_for_expire pending state in
           if mine then (Inr None, state')
           else case second of
             Some r \<Rightarrow> (map_sum id Some (future_get r), state')
           | None \<Rightarrow> (Inr None, state')))"

definition udp_close ::
  "loop_lifetime_token \<Rightarrow> pid \<Rightarrow> udp_state option \<Rightarrow> unit reply \<times> udp_state option \<times> udp_effect list" where
  "udp_close token promise impl =
     (case impl of
        None \<Rightarrow> (Return (), None, [])
      | Some state \<Rightarrow>
          (if \<not> is_loop_alive token then
             (let (state', effs) = fail_pending_recv (state\<lparr>us_closed := True, us_closing := False\<rparr>) in
              (Return (), Some state', effs))
           else
             let (impl', effs) = start_udp_close token (Some promise) impl in
             (if SetUdpClose promise \<in> set effs then Return () else Await promise, impl', effs)))"

text \<open>The constructor makes the state object; the destructor closes, and drops an exception.\<close>

definition udp_socket_new :: "int \<Rightarrow> err + udp_state option" where
  "udp_socket_new init_rc = map_sum id Some (create_udp_socket init_rc)"

definition udp_destroy ::
  "loop_lifetime_token \<Rightarrow> pid \<Rightarrow> udp_state option \<Rightarrow> unit reply \<times> udp_state option \<times> udp_effect list" where
  "udp_destroy token promise impl =
     (case udp_close token promise impl of
        (Throw ex, impl', effs) \<Rightarrow> (Return (), impl', effs)
      | r \<Rightarrow> r)"

definition udp_valid :: "loop_lifetime_token \<Rightarrow> udp_state option \<Rightarrow> bool" where
  "udp_valid token impl \<longleftrightarrow> udp_usable impl \<and> is_loop_alive token"

lemmas udp_defs = finish_recv_success_def finish_recv_error_def fail_pending_recv_def settle_udp_closed_def
  on_udp_closed_def set_udp_close_def start_udp_close_def deliver_packet_def uv_udp_recv_stop_def
  on_udp_recv_def udp_usable_def recv_from_def recv_from_for_expire_def ensure_loop_alive_def

subsection \<open>The life of a socket\<close>

datatype udp_op =
    UdpRecv bool pid int
  | UdpGiveUp pid
  | UdpPacket int "byte list" "sockaddr option"
  | UdpCloseCall bool pid
  | UdpClosed

fun udp_enabled :: "udp_op \<Rightarrow> udp_state \<Rightarrow> bool" where
  "udp_enabled (UdpPacket nread base addr) state = us_receiving state"
| "udp_enabled UdpClosed state = us_uv_closing state"
| "udp_enabled a state = True"

fun udp_step ::
  "udp_names \<Rightarrow> bool \<Rightarrow> udp_op \<Rightarrow> udp_state \<Rightarrow> udp_state \<times> udp_effect list \<times> pid list \<times> pid list" where
  "udp_step names little (UdpRecv alive p rc) state =
     (case recv_from (Some alive) p rc (Some state) of
        (Await q, ptr) \<Rightarrow> (the ptr, [], [q], [])
      | (_, ptr) \<Rightarrow> (the ptr, [], [], []))"
| "udp_step names little (UdpGiveUp p) state =
     (case recv_from_for_expire p state of (mine, state') \<Rightarrow> (state', [], [], if mine then [p] else []))"
| "udp_step names little (UdpPacket nread base addr) state =
     (case on_udp_recv names little nread base addr state of (state', effs) \<Rightarrow> (state', effs, [], []))"
| "udp_step names little (UdpCloseCall alive p) state =
     (case udp_close (Some alive) p (Some state) of (_, ptr, effs) \<Rightarrow> (the ptr, effs, [], []))"
| "udp_step names little UdpClosed state =
     (case on_udp_closed state of (state', effs) \<Rightarrow> (state', effs, [], []))"

inductive udp_reach ::
  "udp_names \<Rightarrow> bool \<Rightarrow> udp_state \<Rightarrow> udp_effect list \<Rightarrow> pid list \<Rightarrow> pid list \<Rightarrow> bool" for names little where
  udp_created: "create_udp_socket rc = Inr state \<Longrightarrow> udp_reach names little state [] [] []"
| udp_stepped: "udp_reach names little state effs asked gone \<Longrightarrow> udp_enabled a state \<Longrightarrow>
    udp_step names little a state = (state', e, w, g) \<Longrightarrow>
    udp_reach names little state' (effs @ e) (asked @ w) (gone @ g)"

fun recv_sets :: "udp_effect list \<Rightarrow> pid list" where
  "recv_sets [] = []"
| "recv_sets (SetRecv p r # es) = p # recv_sets es"
| "recv_sets (e # es) = recv_sets es"

fun udp_close_sets :: "udp_effect list \<Rightarrow> pid list" where
  "udp_close_sets [] = []"
| "udp_close_sets (SetUdpClose p # es) = p # udp_close_sets es"
| "udp_close_sets (e # es) = udp_close_sets es"

fun udp_uv_closes :: "udp_effect list \<Rightarrow> nat" where
  "udp_uv_closes [] = 0"
| "udp_uv_closes (UdpUvClose # es) = Suc (udp_uv_closes es)"
| "udp_uv_closes (e # es) = udp_uv_closes es"

definition recv_list :: "udp_state \<Rightarrow> pid list" where
  "recv_list state = (case us_pending_recv state of None \<Rightarrow> [] | Some p \<Rightarrow> [p])"

definition udp_inv :: "udp_state \<Rightarrow> bool" where
  "udp_inv state \<longleftrightarrow> us_initialized state \<and> (us_closed state \<longrightarrow> us_pending_recv state = None) \<and>
     (\<not> us_closed state \<longrightarrow> us_buffered_packets state = []) \<and>
     (us_receiving state \<and> \<not> us_closed state \<longrightarrow> us_pending_recv state \<noteq> None)"

lemma recv_sets_append [simp]: "recv_sets (xs @ ys) = recv_sets xs @ recv_sets ys"
  by (induction xs rule: recv_sets.induct) simp_all

lemma udp_close_sets_append [simp]: "udp_close_sets (xs @ ys) = udp_close_sets xs @ udp_close_sets ys"
  by (induction xs rule: udp_close_sets.induct) simp_all

lemma udp_uv_closes_append [simp]: "udp_uv_closes (xs @ ys) = udp_uv_closes xs + udp_uv_closes ys"
  by (induction xs rule: udp_uv_closes.induct) simp_all

lemma map_SetUdpClose [simp]:
  "recv_sets (map SetUdpClose ps) = []" "udp_close_sets (map SetUdpClose ps) = ps" "udp_uv_closes (map SetUdpClose ps) = 0"
  by (induction ps) simp_all

lemma udp_step_facts:
  assumes "udp_inv state" "udp_enabled a state" "udp_step names little a state = (state', e, w, g)"
  shows "udp_inv state' \<and> mset (recv_list state) + mset w = mset (recv_sets e) + mset g + mset (recv_list state')"
proof (cases a)
  case (UdpRecv alive p rc)
  then show ?thesis using assms
    by (cases alive) (auto simp: udp_inv_def recv_list_def udp_defs Let_def split: list.splits if_splits option.splits)
next
  case (UdpGiveUp p)
  then show ?thesis using assms by (auto simp: udp_inv_def recv_list_def udp_defs split: if_splits option.splits)
next
  case (UdpPacket nread base addr)
  then show ?thesis using assms
    by (auto simp: udp_inv_def recv_list_def udp_defs Let_def split: if_splits option.splits sum.splits)
next
  case (UdpCloseCall alive p)
  then show ?thesis using assms
    by (cases alive) (auto simp: udp_inv_def recv_list_def udp_defs udp_close_def Let_def split: if_splits option.splits)
next
  case UdpClosed
  then show ?thesis using assms
    by (auto simp: udp_inv_def recv_list_def udp_defs Let_def split: option.splits)
qed

lemma udp_reach_facts:
  "udp_reach names little state effs asked gone \<Longrightarrow>
   udp_inv state \<and> mset asked = mset (recv_sets effs) + mset gone + mset (recv_list state)"
proof (induction rule: udp_reach.induct)
  case (udp_created rc state)
  then show ?case by (auto simp: create_udp_socket_def udp_inv_def recv_list_def split: if_splits)
next
  case (udp_stepped state effs asked gone a state' e w g)
  have "udp_inv state' \<and> mset (recv_list state) + mset w = mset (recv_sets e) + mset g + mset (recv_list state')"
    using udp_step_facts udp_stepped by blast
  then show ?case using udp_stepped.IH by (auto simp: ac_simps)
qed

subsection \<open>The closing contract\<close>

definition udp_close_inv :: "udp_state \<Rightarrow> bool" where
  "udp_close_inv state \<longleftrightarrow> us_initialized state \<and> (us_closed state \<longrightarrow> us_close_waiters state = []) \<and>
     (us_closing state \<longrightarrow> us_uv_closing state) \<and> (us_close_waiters state \<noteq> [] \<longrightarrow> us_uv_closing state)"

definition udp_start :: "bool \<Rightarrow> pid option \<Rightarrow> udp_state \<Rightarrow> udp_state \<times> pid list \<times> nat" where
  "udp_start alive p state =
     (case start_udp_close (Some alive) p (Some state) of
        (ptr, effs) \<Rightarrow> (the ptr, udp_close_sets effs, udp_uv_closes effs))"

definition udp_finish :: "udp_state \<Rightarrow> udp_state \<times> pid list" where
  "udp_finish state = (case on_udp_closed state of (state', effs) \<Rightarrow> (state', udp_close_sets effs))"

interpretation udp_closing: closable udp_close_inv us_close_waiters us_uv_closing udp_start udp_finish
proof
  fix state alive p
  assume "udp_close_inv state"
  then show "udp_close_inv (fst (udp_start alive p state))"
    by (cases alive) (auto simp: udp_start_def udp_close_inv_def udp_defs Let_def split: option.splits)
next
  fix state alive p s' ds n
  assume i: "udp_close_inv state" and st: "udp_start alive p state = (s', ds, n)"
  show "mset (us_close_waiters state) + mset (case p of None \<Rightarrow> [] | Some q \<Rightarrow> [q]) =
      mset ds + mset (us_close_waiters s')"
    using i st by (cases alive)
      (auto simp: udp_start_def udp_close_inv_def udp_defs Let_def split: option.splits if_splits)
  show "(us_uv_closing state \<longrightarrow> us_uv_closing s') \<and> n = (if us_uv_closing s' \<and> \<not> us_uv_closing state then 1 else 0)"
    using i st by (cases alive)
      (auto simp: udp_start_def udp_close_inv_def udp_defs Let_def split: option.splits if_splits)
qed (auto simp: udp_finish_def udp_close_inv_def udp_defs Let_def split: option.splits)

subsection \<open>The hand-off contract\<close>

definition udp_open_inv :: "udp_state \<Rightarrow> bool" where
  "udp_open_inv state \<longleftrightarrow> us_initialized state \<and> \<not> us_closed state \<and>
     (us_buffered_packets state = [] \<or> us_pending_recv state = None)"

definition udp_put :: "udp_packet \<Rightarrow> udp_state \<Rightarrow> udp_state \<times> (pid \<times> udp_packet) list" where
  "udp_put packet state =
     (case deliver_packet packet (uv_udp_recv_stop state) of
        (state', effs) \<Rightarrow> (state', [x. e \<leftarrow> effs, x \<leftarrow> (case e of SetRecv p (Value v) \<Rightarrow> [(p, v)] | _ \<Rightarrow> [])]))"

definition udp_get :: "pid \<Rightarrow> udp_state \<Rightarrow> udp_state \<times> udp_packet option" where
  "udp_get p state =
     (case recv_from (Some True) p 0 (Some state) of
        (Return v, impl) \<Rightarrow> (the impl, Some v)
      | (_, impl) \<Rightarrow> (the impl, None))"

definition udp_cancel :: "pid \<Rightarrow> udp_state \<Rightarrow> udp_state \<times> bool" where
  "udp_cancel p state = (case recv_from_for_expire p state of (mine, state') \<Rightarrow> (state', mine))"

interpretation udp_data: handoff udp_open_inv us_buffered_packets recv_list "\<lambda>_. True"
  "\<lambda>state. us_pending_recv state = None" udp_put udp_get udp_cancel
  by unfold_locales
    (auto simp: udp_open_inv_def recv_list_def udp_put_def udp_get_def udp_cancel_def udp_defs Let_def
      split: option.splits list.splits if_splits)

subsection \<open>The phases of a socket\<close>

definition udp_phase :: "udp_state \<Rightarrow> phase" where
  "udp_phase state = phase_of (us_closing state) (us_closed state)"

definition udp_moves :: "udp_state \<Rightarrow> udp_state \<Rightarrow> bool" where
  "udp_moves s t \<longleftrightarrow> (\<exists>names little a. t = fst (udp_step names little a s))"

lemma udp_step_forward: "udp_phase s \<le> udp_phase (fst (udp_step names little a s))"
proof (cases a)
  case (UdpRecv alive p rc)
  then show ?thesis by (cases alive; cases "us_buffered_packets s") (auto simp: udp_phase_def udp_defs Let_def)
next
  case (UdpCloseCall alive p)
  then show ?thesis by (cases alive) (auto simp: udp_phase_def udp_close_def udp_defs phase_of_def Let_def split: option.splits)
next
  case (UdpPacket nread base addr)
  then show ?thesis
    by (cases "packet_from_sockaddr names little addr (take (nat nread) base)"; cases "us_pending_recv s")
      (auto simp: udp_phase_def udp_defs Let_def)
qed (auto simp: udp_phase_def udp_defs phase_of_def Let_def split: option.splits)

interpretation udp_life: lifecycle udp_phase udp_moves
  by unfold_locales (auto simp: udp_moves_def udp_step_forward)

subsection \<open>Properties\<close>

definition fresh_udp :: udp_state where
  "fresh_udp = \<lparr>us_initialized = True, us_bound = False, us_closing = False, us_closed = False,
     us_pending_recv = None, us_buffered_packets = [], us_close_waiters = [], us_keepalive = True,
     us_receiving = False, us_uv_closing = False\<rparr>"

lemma fresh_udp: "create_udp_socket 0 = Inr fresh_udp"
  by (simp add: create_udp_socket_def fresh_udp_def)

definition plain_names :: udp_names where
  "plain_names = \<lparr>uv_ip4_name = (\<lambda>ip. (0, ''4'')), uv_ip6_name = (\<lambda>ip. (0, ''6''))\<rparr>"

text \<open>
  C27. Whatever happens to a UDP socket, every receiver that was suspended is settled exactly once,
  has withdrawn, or is the one still pending; a closed socket has none pending; and no packet waits
  in the buffer of an open socket.
\<close>

theorem udp_receivers_settled:
  assumes "udp_reach names little state effs asked gone"
  shows "mset asked = mset (recv_sets effs) + mset gone + mset (recv_list state) \<and>
    (us_closed state \<longrightarrow> recv_list state = []) \<and> (\<not> us_closed state \<longrightarrow> us_buffered_packets state = [])"
  using udp_reach_facts [OF assms] by (auto simp: udp_inv_def recv_list_def)

theorem udp_receivers_settled_witness:
  "\<exists>state effs. udp_reach plain_names True state effs [3] [] \<and> recv_sets effs = [3] \<and>
     mset [3] = mset (recv_sets effs) + mset [] + mset (recv_list state)"
proof -
  have 0: "udp_reach plain_names True fresh_udp [] [] []" by (rule udp_reach.udp_created [OF fresh_udp])
  have 1: "udp_reach plain_names True (fresh_udp\<lparr>us_pending_recv := Some 3, us_receiving := True\<rparr>) [] [3] []"
    using udp_reach.udp_stepped [OF 0, of "UdpRecv True 3 0"] by (simp add: udp_defs fresh_udp_def)
  have 2: "udp_reach plain_names True fresh_udp [SetRecv 3 (Value \<lparr>pk_data = [1, 2], pk_host = ''4'', pk_port = 80\<rparr>)] [3] []"
    using udp_reach.udp_stepped [OF 1, of "UdpPacket 2 [1, 2] (Some (SockIn [] 0x5000))"]
    by (simp add: udp_defs fresh_udp_def packet_from_sockaddr_def plain_names_def from_network_u16_def)
  show ?thesis using 2 udp_receivers_settled [OF 2] by (intro exI conjI) auto
qed

text \<open>
  Closing a UDP socket: for any sequence of close requests, from live or dead loops, and close
  callbacks, each promise is set exactly once or still waits while the handle is being closed, and
  the handle is given to \<open>uv_close\<close> at most once.
\<close>

theorem udp_close_settled_once:
  assumes "create_udp_socket rc = Inr state" "close_ok us_uv_closing udp_start udp_finish ops state"
    and "close_run udp_start udp_finish ops state = (t, ds, n)"
  shows "mset (close_promises ops) = mset ds + mset (us_close_waiters t) \<and> n \<le> 1 \<and>
    (us_close_waiters t \<noteq> [] \<longrightarrow> us_uv_closing t)"
proof -
  have "us_close_waiters state = []" "udp_close_inv state"
    using assms(1) by (auto simp: create_udp_socket_def udp_close_inv_def split: if_splits)
  from udp_closing.run_settled_once [OF this(2,1) assms(2,3)] show ?thesis by blast
qed

theorem udp_close_settled_once_witness:
  "mset (close_promises [CloseCall True (Some 1), CloseCall True (Some 2), CloseDone, CloseCall True (Some 3)]) = mset [1, 2, 3]"
  using udp_close_settled_once [OF fresh_udp, of
      "[CloseCall True (Some 1), CloseCall True (Some 2), CloseDone, CloseCall True (Some 3)]"]
  by (simp add: fresh_udp_def udp_start_def udp_finish_def close_step_def udp_defs Let_def)

text \<open>
  Datagrams reach the receivers whole and in the order they arrived, none lost or duplicated.
\<close>

theorem udp_packets_in_order:
  assumes "handoff_ok (\<lambda>_. True) (\<lambda>s. us_pending_recv s = None) udp_put udp_get udp_cancel ops fresh_udp"
    and "handoff_run udp_put udp_get udp_cancel ops fresh_udp = (t, log, gone)"
  shows "puts ops = map snd log @ us_buffered_packets t \<and>
    mset (gets ops) = mset (map fst log) + mset gone + mset (recv_list t)"
proof -
  have i: "udp_open_inv fresh_udp" "us_buffered_packets fresh_udp = []" "recv_list fresh_udp = []"
    by (simp_all add: udp_open_inv_def recv_list_def fresh_udp_def)
  show ?thesis using udp_data.run_values [OF i(1) assms] udp_data.run_receivers [OF i(1) assms] i(2,3) by simp
qed

definition demo_packet :: "byte \<Rightarrow> udp_packet" where
  "demo_packet b = \<lparr>pk_data = [b], pk_host = ''127.0.0.1'', pk_port = 53\<rparr>"

theorem udp_packets_in_order_witness:
  "puts [Put (demo_packet 1), Get 5, Get 6, Put (demo_packet 2), Get 7, Cancel 7] =
     map snd [(5 :: pid, demo_packet 1), (6, demo_packet 2)]"
  using udp_packets_in_order [of "[Put (demo_packet 1), Get 5, Get 6, Put (demo_packet 2), Get 7, Cancel 7]"]
  by (simp add: fresh_udp_def handoff_step_def udp_put_def udp_get_def udp_cancel_def udp_defs recv_list_def Let_def)

text \<open>A 16 bit integer loaded from two bytes of memory.\<close>

definition load_u16 :: "bool \<Rightarrow> byte \<Rightarrow> byte \<Rightarrow> 16 word" where
  "load_u16 little b0 b1 = (if little then or (ucast b0) (push_bit 8 (ucast b1)) else or (push_bit 8 (ucast b0)) (ucast b1))"

lemma bit_byte: "bit (b :: byte) n \<Longrightarrow> n < 8"
  using bit_imp_le_length [of b n] by simp

lemma swap_load_u16:
  "or (drop_bit 8 (load_u16 True b0 b1)) (push_bit 8 (load_u16 True b0 b1)) = load_u16 False b0 b1"
  by (rule bit_word_eqI) (auto simp: load_u16_def bit_simps dest: bit_byte)

lemma uint_load_u16: "uint (load_u16 False hi lo) = 256 * uint hi + uint lo"
proof -
  have "and (push_bit 8 (ucast hi)) (ucast lo :: 16 word) = 0"
    by (rule bit_word_eqI) (auto simp: bit_simps dest: bit_byte)
  then have "load_u16 False hi lo = push_bit 8 (ucast hi) + ucast lo"
    by (simp add: load_u16_def disjunctive_add_eq_or)
  also have "uint \<dots> = 256 * uint hi + uint lo"
  proof -
    have b: "uint hi < 256" "uint lo < 256" using uint_lt2p [of hi] uint_lt2p [of lo] by simp_all
    have u: "uint (ucast hi :: 16 word) = uint hi" "uint (ucast lo :: 16 word) = uint lo"
      using b by (simp_all add: unsigned_ucast_eq take_bit_int_eq_self_iff)
    have "uint (push_bit 8 (ucast hi) :: 16 word) = 256 * uint hi"
      using b u by (simp add: push_bit_eq_mult uint_word_ariths mult.commute)
    then show ?thesis using b u
      by (simp add: uint_word_ariths)
  qed
  finally show ?thesis .
qed

text \<open>
  The port of a packet is decoded from its two bytes in network order, most significant first,
  on machines of either byte order.
\<close>

theorem udp_port_network_order:
  "from_network_u16 little (load_u16 little hi lo) = 256 * uint hi + uint lo"
  by (cases little) (simp_all only: from_network_u16_def swap_load_u16 uint_load_u16 if_True if_False)

text \<open>
  On a loop that is no longer alive, \<open>close\<close> returns at once, fails the pending receiver and leaves
  the socket closed; but, unlike the close request of the same file, it never drops \<open>keepalive\<close> nor
  settles the fibers that wait in an earlier \<open>close\<close>, and no later close request does either.
\<close>

theorem udp_close_dead_loop:
  assumes "udp_close (Some False) p (Some state) = (r, impl, effs)"
  shows "r = Return () \<and> udp_uv_closes effs = 0 \<and> udp_close_sets effs = [] \<and> recv_sets effs = recv_list state \<and>
    impl = Some (state\<lparr>us_closed := True, us_closing := False, us_pending_recv := None\<rparr>) \<and>
    start_udp_close token None impl = (impl, [])"
  using assms by (auto simp: udp_close_def udp_defs recv_list_def split: option.splits)

theorem udp_close_dead_loop_witness:
  "recv_sets [SetRecv 4 (Exception (RuntimeError ''udp socket closed''))] = recv_list (fresh_udp\<lparr>us_pending_recv := Some 4\<rparr>)"
  using udp_close_dead_loop [of 9 "fresh_udp\<lparr>us_pending_recv := Some 4\<rparr>" "Return ()"
      "Some (fresh_udp\<lparr>us_closed := True, us_closing := False, us_pending_recv := None\<rparr>)"
      "[SetRecv 4 (Exception (RuntimeError ''udp socket closed''))]" None]
  by (simp add: udp_close_def udp_defs fresh_udp_def)

end
