(* ===== verification/Event_Loop.thy ===== *)
theory Event_Loop
  imports Prelude "HOL-Library.Sublist"
begin

text \<open>
  \<open>EventLoop\<close> (src/event_loop.cpp, include/fiberuv/fiberuv.hpp): the task queue of the loop, the run
  loop, the counters that decide when it is idle, the handling of exceptions that escape a fiber,
  the constructor and the destructor, and \<open>fiberuv::run\<close>, which puts them together. The closures put on the
  queue are a type parameter \<open>'k\<close> with an interpretation \<open>exec\<close>, which yields the exception the closure throws,
  if any; the part of libuv the run loop uses is given by functions of the state. \<open>el_handles\<close> are the
  handles of the loop and \<open>el_closing\<close> those given to \<open>uv_close\<close>, in order; the handle \<open>async_\<close> has number 0.
  The fields \<open>el_ran\<close>, the tasks run so far, and \<open>el_spawned\<close>, the functions given to \<open>spawn\<close> so far, are not read by the code.
\<close>

record 'k event_loop =
  el_alive :: bool
  el_stopping :: bool
  el_active_fibers :: nat
  el_pending_blocking :: nat
  el_tasks :: "'k list"
  el_async_sent :: bool
  el_workers :: nat
  el_workers_stopping :: bool
  el_handler :: bool
  el_last_exception :: "err option"
  el_exception_count :: nat
  el_handles :: "nat list"
  el_closing :: "nat list"
  el_ran :: "'k list"
  el_spawned :: "'k list"

type_synonym 'k task_exec = "'k \<Rightarrow> 'k event_loop \<Rightarrow> err option \<times> 'k event_loop"

text \<open>A call that may not return (\<open>None\<close>), and that may be left by an exception.\<close>

type_synonym 'k loop_result = "(err option \<times> 'k event_loop) option"

definition async_handle :: nat where
  "async_handle = 0"

text \<open>The number of worker threads the constructor starts; \<open>hw\<close> is \<open>hardware_concurrency()\<close>.\<close>

definition worker_count :: "nat \<Rightarrow> nat \<Rightarrow> nat" where
  "worker_count blocking_threads hw =
     (if blocking_threads = 0 then max 1 (if hw = 0 then 4 else hw) else blocking_threads)"

definition start_workers :: "nat \<Rightarrow> 'k event_loop \<Rightarrow> 'k event_loop" where
  "start_workers n s = s\<lparr>el_workers := el_workers s + n\<rparr>"

definition set_unhandled_exception_handler :: "bool \<Rightarrow> 'k event_loop \<Rightarrow> 'k event_loop" where
  "set_unhandled_exception_handler handler s = s\<lparr>el_handler := handler\<rparr>"

definition event_loop_new :: "int \<Rightarrow> int \<Rightarrow> nat \<Rightarrow> nat \<Rightarrow> err + 'k event_loop" where
  "event_loop_new init_rc async_rc blocking_threads hw =
     (if init_rc \<noteq> 0 then Inl (uv_error ''uv_loop_init'' init_rc)
      else if async_rc \<noteq> 0 then Inl (uv_error ''uv_async_init'' async_rc)
      else Inr (set_unhandled_exception_handler True (start_workers (worker_count blocking_threads hw)
        \<lparr>el_alive = True, el_stopping = False, el_active_fibers = 0, el_pending_blocking = 0, el_tasks = [],
         el_async_sent = False, el_workers = 0, el_workers_stopping = False, el_handler = False,
         el_last_exception = None, el_exception_count = 0, el_handles = [async_handle], el_closing = [], el_ran = [],
         el_spawned = []\<rparr>)))"

definition uv_async_send :: "'k event_loop \<Rightarrow> 'k event_loop" where
  "uv_async_send s = s\<lparr>el_async_sent := True\<rparr>"

definition post_to_loop :: "'k \<Rightarrow> 'k event_loop \<Rightarrow> 'k event_loop" where
  "post_to_loop fn s = uv_async_send (s\<lparr>el_tasks := el_tasks s @ [fn]\<rparr>)"

definition dispatch :: "'k \<Rightarrow> 'k event_loop \<Rightarrow> 'k event_loop" where
  "dispatch fn s = post_to_loop fn s"

definition loop_tasks_empty :: "'k event_loop \<Rightarrow> bool" where
  "loop_tasks_empty s \<longleftrightarrow> el_tasks s = []"

text \<open>
  A task may post further tasks, so draining need not end. A task that throws leaves \<open>drain_loop_tasks\<close>, and
  the tasks behind it stay in the queue.
\<close>

partial_function (option) drain_loop_tasks :: "'k task_exec \<Rightarrow> 'k event_loop \<Rightarrow> 'k loop_result" where
  "drain_loop_tasks exec s =
     (case el_tasks s of
        [] \<Rightarrow> Some (None, s)
      | fn # rest \<Rightarrow>
          (case exec fn (s\<lparr>el_tasks := rest, el_ran := el_ran s @ [fn]\<rparr>) of
             (Some ex, s') \<Rightarrow> Some (Some ex, s')
           | (None, s') \<Rightarrow> drain_loop_tasks exec s'))"

definition stop :: "'k event_loop \<Rightarrow> 'k event_loop" where
  "stop s = uv_async_send (s\<lparr>el_stopping := True\<rparr>)"

definition idle :: "('k event_loop \<Rightarrow> bool) \<Rightarrow> 'k event_loop \<Rightarrow> bool" where
  "idle uv_loop_alive s \<longleftrightarrow>
     \<not> uv_loop_alive s \<and> el_active_fibers s = 0 \<and> el_pending_blocking s = 0 \<and> loop_tasks_empty s"

text \<open>
  \<open>run\<close>: \<open>uv_run\<close> is one non-blocking round of libuv with its callbacks, among them the one of \<open>async_\<close>, which
  drains the tasks, and \<open>yield\<close> what the other fibers and threads do while this fiber yields. An exception
  of a task unwinds \<open>run\<close>.
\<close>

partial_function (option) run ::
  "('k event_loop \<Rightarrow> 'k loop_result) \<Rightarrow> ('k event_loop \<Rightarrow> 'k event_loop) \<Rightarrow> ('k event_loop \<Rightarrow> bool) \<Rightarrow>
   'k task_exec \<Rightarrow> 'k event_loop \<Rightarrow> 'k loop_result" where
  "run uv_run yield uv_loop_alive exec s =
     (if el_stopping s then Some (None, s)
      else Option.bind (uv_run s) (\<lambda>(ex, s1).
        if ex \<noteq> None then Some (ex, s1)
        else Option.bind (drain_loop_tasks exec s1) (\<lambda>(ex, s2).
          if ex \<noteq> None then Some (ex, s2)
          else let s3 = yield s2 in
               if idle uv_loop_alive s3 then Some (None, s3) else run uv_run yield uv_loop_alive exec s3)))"

text \<open>
  \<open>report_unhandled_exception\<close>: \<open>handler\<close> is what the handler does; an exception of its own is dropped,
  which leaves the state it reached.
\<close>

definition report_unhandled_exception ::
  "(err \<Rightarrow> 'k event_loop \<Rightarrow> 'k event_loop) \<Rightarrow> err \<Rightarrow> 'k event_loop \<Rightarrow> 'k event_loop" where
  "report_unhandled_exception handler ex s =
     (let s1 = s\<lparr>el_exception_count := el_exception_count s + 1, el_last_exception := Some ex\<rparr> in
      if \<not> el_handler s1 then s1 else handler ex s1)"

definition unhandled_exception_count :: "'k event_loop \<Rightarrow> nat" where
  "unhandled_exception_count s = el_exception_count s"

definition take_last_unhandled_exception :: "'k event_loop \<Rightarrow> err option \<times> 'k event_loop" where
  "take_last_unhandled_exception s = (el_last_exception s, s\<lparr>el_last_exception := None\<rparr>)"

text \<open>\<open>spawn\<close> starts a fiber that calls \<open>fn\<close>; \<open>fiber_body\<close> is what the fiber does once its task has ended with \<open>r\<close>.\<close>

definition spawn :: "'k \<Rightarrow> 'k event_loop \<Rightarrow> 'k event_loop" where
  "spawn fn s = uv_async_send (s\<lparr>el_active_fibers := el_active_fibers s + 1, el_spawned := el_spawned s @ [fn]\<rparr>)"

definition fiber_body ::
  "(err \<Rightarrow> 'k event_loop \<Rightarrow> 'k event_loop) \<Rightarrow> unit outcome \<Rightarrow> 'k event_loop \<Rightarrow> 'k event_loop" where
  "fiber_body handler r s =
     (let s1 = (case r of Value _ \<Rightarrow> s | Exception ex \<Rightarrow> report_unhandled_exception handler ex s) in
      uv_async_send (s1\<lparr>el_active_fibers := el_active_fibers s1 - 1\<rparr>))"

text \<open>
  The destructor. \<open>join\<close> is what happens while the worker threads are joined: they run the jobs left and
  post their outcomes. Every handle not yet closing is given to \<open>uv_close\<close>, with no callback, and
  \<open>uv_run_all\<close> is the loop over \<open>uv_run\<close> that follows. A destructor that is left by an exception ends the
  program.
\<close>

definition lifetime_token :: "'k event_loop \<Rightarrow> loop_lifetime_token" where
  "lifetime_token s = Some (el_alive s)"

definition stop_workers :: "('k event_loop \<Rightarrow> 'k event_loop) \<Rightarrow> 'k event_loop \<Rightarrow> 'k event_loop" where
  "stop_workers join s = (join (s\<lparr>el_workers_stopping := True\<rparr>))\<lparr>el_workers := 0\<rparr>"

definition close_handle :: "nat \<Rightarrow> 'k event_loop \<Rightarrow> 'k event_loop" where
  "close_handle h s = (if h \<notin> set (el_closing s) then s\<lparr>el_closing := el_closing s @ [h]\<rparr> else s)"

definition uv_walk_close :: "'k event_loop \<Rightarrow> 'k event_loop" where
  "uv_walk_close s = fold close_handle (el_handles s) s"

datatype 'k teardown = Gone "'k event_loop" | Terminated

definition noexcept :: "err option \<times> 'k event_loop \<Rightarrow> 'k teardown" where
  "noexcept r = (case r of (None, s) \<Rightarrow> Gone s | (Some ex, s) \<Rightarrow> Terminated)"

definition event_loop_destroy ::
  "('k event_loop \<Rightarrow> 'k event_loop) \<Rightarrow> ('k event_loop \<Rightarrow> 'k loop_result) \<Rightarrow> 'k task_exec \<Rightarrow> 'k event_loop \<Rightarrow>
   'k teardown option" where
  "event_loop_destroy join uv_run_all exec s =
     (let s1 = stop (s\<lparr>el_alive := False\<rparr>);
          s2 = stop_workers join s1;
          s3 = uv_walk_close (close_handle async_handle s2)
      in map_option noexcept (Option.bind (uv_run_all s3) (\<lambda>(ex, s4).
           if ex \<noteq> None then Some (ex, s4) else drain_loop_tasks exec s4)))"

text \<open>The thread-local current loop and the guard \<open>run\<close> puts around itself.\<close>

definition guarded :: "nat \<Rightarrow> (nat option \<Rightarrow> 'a) \<Rightarrow> nat option \<Rightarrow> 'a \<times> nat option" where
  "guarded loop body tls = (let previous = tls in (body (Some loop), previous))"

definition try_get_current_loop :: "nat option \<Rightarrow> nat option" where
  "try_get_current_loop tls = tls"

definition get_current_loop :: "nat option \<Rightarrow> err + nat" where
  "get_current_loop tls =
     (case tls of
        None \<Rightarrow> Inl (RuntimeError ''No running EventLoop on current thread.'')
      | Some loop \<Rightarrow> Inr loop)"

text \<open>\<open>stop_loop()\<close>, over the loops of the program by their number.\<close>

definition stop_loop :: "nat option \<Rightarrow> (nat \<Rightarrow> 'k event_loop) \<Rightarrow> (err + unit) \<times> (nat \<Rightarrow> 'k event_loop)" where
  "stop_loop tls loops =
     (case get_current_loop tls of
        Inl ex \<Rightarrow> (Inl ex, loops)
      | Inr loop \<Rightarrow> (Inr (), loops(loop := stop (loops loop))))"

text \<open>
  \<open>fiberuv::run(fn)\<close>: construct a loop, dispatch the closure that spawns \<open>fn\<close>, run the loop, destroy it. The closures of
  the program are that one, \<open>SpawnFn fn\<close>, and the others, which \<open>exec\<close> interprets. The destructor also runs when \<open>run\<close> is left by an exception, which goes on afterwards. The functions that depend on
  the thread-local loop are given it.
\<close>

datatype run_end = Returned | Threw err | Aborted

datatype 'k loop_closure = SpawnFn 'k | Task 'k

definition call_closure :: "('k \<Rightarrow> 'k loop_closure event_loop \<Rightarrow> err option \<times> 'k loop_closure event_loop) \<Rightarrow> 'k loop_closure task_exec" where
  "call_closure exec closure s =
     (case closure of
        SpawnFn fn \<Rightarrow> (None, spawn (Task fn) s)
      | Task k \<Rightarrow> exec k s)"

definition fiberuv_run ::
  "int \<Rightarrow> int \<Rightarrow> nat \<Rightarrow> nat \<Rightarrow> nat \<Rightarrow> 'k \<Rightarrow> (nat option \<Rightarrow> 'k loop_closure event_loop \<Rightarrow> 'k loop_closure loop_result) \<Rightarrow>
   (nat option \<Rightarrow> 'k loop_closure event_loop \<Rightarrow> 'k loop_closure event_loop) \<Rightarrow> ('k loop_closure event_loop \<Rightarrow> bool) \<Rightarrow>
   (nat option \<Rightarrow> 'k \<Rightarrow> 'k loop_closure event_loop \<Rightarrow> err option \<times> 'k loop_closure event_loop) \<Rightarrow>
   ('k loop_closure event_loop \<Rightarrow> 'k loop_closure event_loop) \<Rightarrow> ('k loop_closure event_loop \<Rightarrow> 'k loop_closure loop_result) \<Rightarrow> nat option \<Rightarrow>
   (run_end \<times> 'k loop_closure event_loop option \<times> nat option) option" where
  "fiberuv_run init_rc async_rc blocking_threads hw loop fn uv_run yield uv_loop_alive exec join uv_run_all tls =
     (case event_loop_new init_rc async_rc blocking_threads hw of
        Inl ex \<Rightarrow> Some (Threw ex, None, tls)
      | Inr s \<Rightarrow>
          (case guarded loop (\<lambda>cur. run (uv_run cur) (yield cur) uv_loop_alive (call_closure (exec cur)) (dispatch (SpawnFn fn) s)) tls of
             (r, tls') \<Rightarrow>
               Option.bind r (\<lambda>(ex, s1). map_option
                 (\<lambda>d. (case d of
                     Gone s2 \<Rightarrow> (case ex of None \<Rightarrow> Returned | Some x \<Rightarrow> Threw x, Some s2, tls')
                   | Terminated \<Rightarrow> (Aborted, None, tls')))
                 (event_loop_destroy join uv_run_all (call_closure (exec tls')) s1))))"

subsection \<open>Draining\<close>

text \<open>The state in which the first task is called.\<close>

abbreviation popped :: "'k event_loop \<Rightarrow> 'k \<Rightarrow> 'k list \<Rightarrow> 'k event_loop" where
  "popped s fn rest \<equiv> s\<lparr>el_tasks := rest, el_ran := el_ran s @ [fn]\<rparr>"

lemma drain_induct [consumes 1, case_names empty throws task]:
  assumes run: "drain_loop_tasks exec s = Some r"
    and empty: "\<And>s. el_tasks s = [] \<Longrightarrow> P s (None, s)"
    and throws: "\<And>s fn rest ex t. el_tasks s = fn # rest \<Longrightarrow> exec fn (popped s fn rest) = (Some ex, t) \<Longrightarrow> P s (Some ex, t)"
    and task: "\<And>s fn rest t r. el_tasks s = fn # rest \<Longrightarrow> exec fn (popped s fn rest) = (None, t) \<Longrightarrow> P t r \<Longrightarrow> P s r"
  shows "P s r"
proof -
  have "e = exec \<longrightarrow> P s r" if "drain_loop_tasks e s = Some r" for e s r
  proof (rule drain_loop_tasks.raw_induct [OF _ that])
    fix f e s r
    assume IH: "\<And>e s r. f e s = Some r \<Longrightarrow> e = exec \<longrightarrow> P s r"
      and body: "(case el_tasks s of [] \<Rightarrow> Some (None, s)
        | fn # rest \<Rightarrow> (case e fn (popped s fn rest) of (Some ex, s') \<Rightarrow> Some (Some ex, s') | (None, s') \<Rightarrow> f e s')) = Some r"
    show "e = exec \<longrightarrow> P s r"
    proof (cases "el_tasks s")
      case Nil
      then show ?thesis using body empty by auto
    next
      case (Cons fn rest)
      obtain q t where e: "e fn (popped s fn rest) = (q, t)" by (metis surj_pair)
      show ?thesis
      proof (cases q)
        case None
        then have "f e t = Some r" using body Cons e by simp
        then show ?thesis using IH task [OF Cons] e None by blast
      next
        case (Some ex)
        then have "r = (Some ex, t)" using body Cons e by simp
        then show ?thesis using throws [OF Cons] e Some by blast
      qed
    qed
  qed
  from this [OF run] show ?thesis by simp
qed

text \<open>A task only adds to the queue: it is run by the loop's own fiber and cannot take tasks out.\<close>

definition only_posts :: "'k task_exec \<Rightarrow> bool" where
  "only_posts exec \<longleftrightarrow>
     (\<forall>fn s. prefix (el_tasks s) (el_tasks (snd (exec fn s))) \<and> el_ran (snd (exec fn s)) = el_ran s)"

text \<open>No task is lost between two states, run or queued, and their order is kept.\<close>

definition keeps_tasks :: "'k event_loop \<Rightarrow> 'k event_loop \<Rightarrow> bool" where
  "keeps_tasks s t \<longleftrightarrow> prefix (el_ran s @ el_tasks s) (el_ran t @ el_tasks t)"

lemma keeps_tasks_refl [simp]: "keeps_tasks s s"
  by (simp add: keeps_tasks_def)

lemma keeps_tasks_trans [trans]: "keeps_tasks s t \<Longrightarrow> keeps_tasks t u \<Longrightarrow> keeps_tasks s u"
  by (auto simp: keeps_tasks_def intro: prefix_order.trans)

lemma keeps_tasks_same: "el_tasks t = el_tasks s \<Longrightarrow> el_ran t = el_ran s \<Longrightarrow> keeps_tasks s t"
  by (simp add: keeps_tasks_def)

lemma keeps_tasks_exec:
  assumes "only_posts exec" "el_tasks s = fn # rest" "exec fn (popped s fn rest) = (r, t)"
  shows "keeps_tasks s t \<and> el_ran t = el_ran s @ [fn]"
proof -
  have "prefix rest (el_tasks t)" "el_ran t = el_ran s @ [fn]"
    using assms(1) [unfolded only_posts_def, rule_format, of "popped s fn rest" fn] assms(3) by auto
  then show ?thesis using assms(2) by (auto simp: keeps_tasks_def prefix_def)
qed

text \<open>What draining leaves behind, by the way it ends.\<close>

lemma drain_fifo:
  assumes "drain_loop_tasks exec s = Some (r, s')" "only_posts exec"
  shows "keeps_tasks s s' \<and> (r = None \<longrightarrow> el_tasks s' = []) \<and>
    (\<forall>ex. r = Some ex \<longrightarrow> (\<exists>fn t ran. el_ran s' = ran @ [fn] \<and> fst (exec fn t) = Some ex))"
proof -
  have "keeps_tasks s (snd q) \<and> (fst q = None \<longrightarrow> el_tasks (snd q) = []) \<and>
      (\<forall>ex. fst q = Some ex \<longrightarrow> (\<exists>fn t ran. el_ran (snd q) = ran @ [fn] \<and> fst (exec fn t) = Some ex))"
    if "drain_loop_tasks exec s = Some q" for q
    using that
  proof (induction rule: drain_induct)
    case (throws s fn rest ex t)
    then show ?case using keeps_tasks_exec [OF assms(2) throws(1,2)]
      by (auto intro!: exI [of _ "popped s fn rest"])
  next
    case (task s fn rest t r)
    then show ?case using keeps_tasks_exec [OF assms(2) task(1,2)] keeps_tasks_trans by blast
  qed simp
  from this [OF assms(1)] show ?thesis by simp
qed

text \<open>If tasks neither throw nor post, draining ends and runs exactly the queued tasks, in order.\<close>

lemma drain_ends:
  assumes "\<And>fn s. fst (exec fn s) = None \<and> el_tasks (snd (exec fn s)) = el_tasks s \<and> el_ran (snd (exec fn s)) = el_ran s"
  shows "\<exists>s'. drain_loop_tasks exec s = Some (None, s') \<and> el_tasks s' = [] \<and> el_ran s' = el_ran s @ el_tasks s"
proof (induction "el_tasks s" arbitrary: s)
  case Nil
  then show ?case by (subst drain_loop_tasks.simps) simp
next
  case (Cons fn rest)
  obtain t where t: "exec fn (popped s fn rest) = (None, t)" "el_tasks t = rest" "el_ran t = el_ran s @ [fn]"
    using assms [of fn "popped s fn rest"] by (cases "exec fn (popped s fn rest)") auto
  obtain s' where "drain_loop_tasks exec t = Some (None, s')" "el_tasks s' = []" "el_ran s' = el_ran s @ [fn] @ rest"
    using Cons.hyps(1) [of t] t by auto
  moreover have ts: "el_tasks s = fn # rest" using Cons.hyps(2) by simp
  ultimately show ?case using t(1) by (subst drain_loop_tasks.simps) simp
qed

text \<open>One turn of the draining loop in which the task returns; what happens when a task of the queue throws.\<close>

inductive drain_step :: "'k task_exec \<Rightarrow> 'k event_loop \<Rightarrow> 'k event_loop \<Rightarrow> bool" for exec where
  "el_tasks s = fn # rest \<Longrightarrow> exec fn (popped s fn rest) = (None, t) \<Longrightarrow> drain_step exec s t"

definition some_task_throws :: "'k task_exec \<Rightarrow> 'k event_loop \<Rightarrow> err \<Rightarrow> 'k event_loop \<Rightarrow> bool" where
  "some_task_throws exec s ex u \<longleftrightarrow>
     (\<exists>t fn rest. (drain_step exec)\<^sup>*\<^sup>* s t \<and> el_tasks t = fn # rest \<and> exec fn (popped t fn rest) = (Some ex, u))"

lemma drain_steps: "(drain_step exec)\<^sup>*\<^sup>* s t \<Longrightarrow> drain_loop_tasks exec s = drain_loop_tasks exec t"
  by (induction rule: rtranclp_induct) (auto elim!: drain_step.cases simp: drain_loop_tasks.simps)

text \<open>Draining is left by an exception exactly when one of the tasks, run in order, throws it.\<close>

lemma drain_throws_iff: "drain_loop_tasks exec s = Some (Some ex, u) \<longleftrightarrow> some_task_throws exec s ex u"
proof
  assume "some_task_throws exec s ex u"
  then obtain t fn rest where "(drain_step exec)\<^sup>*\<^sup>* s t" "el_tasks t = fn # rest" "exec fn (popped t fn rest) = (Some ex, u)"
    by (auto simp: some_task_throws_def)
  then show "drain_loop_tasks exec s = Some (Some ex, u)" using drain_steps [of exec s t] by (simp add: drain_loop_tasks.simps)
next
  have "\<forall>ex u. q = (Some ex, u) \<longrightarrow> some_task_throws exec s ex u" if "drain_loop_tasks exec s = Some q" for q
    using that
  proof (induction rule: drain_induct)
    case (throws s fn rest ex t)
    then show ?case unfolding some_task_throws_def by blast
  next
    case (task s fn rest t r)
    have "drain_step exec s t" using task(1,2) by (rule drain_step.intros)
    then show ?case using task(3) unfolding some_task_throws_def
      by simp (blast intro: converse_rtranclp_into_rtranclp)
  qed simp
  then show "drain_loop_tasks exec s = Some (Some ex, u) \<Longrightarrow> some_task_throws exec s ex u" by blast
qed

subsection \<open>The run loop\<close>

text \<open>How a round of \<open>run\<close> can go: \<open>ex\<close> is what the callbacks threw and \<open>d\<close> what draining gave.\<close>

lemma drain_cases [case_names callback stuck task through]:
  fixes ed :: "err option \<times> 'k loop_result"
  obtains (callback) x where "fst ed = Some x"
    | (stuck) "fst ed = None" "snd ed = None"
    | (task) x v where "fst ed = None" "snd ed = Some (Some x, v)"
    | (through) v where "fst ed = None" "snd ed = Some (None, v)"
  by (cases ed; cases "fst ed"; cases "snd ed"; cases "fst (the (snd ed))") (auto simp: prod_eq_iff)

lemma run_induct [consumes 1, case_names stopped callback_throws task_throws idle again]:
  assumes run: "run uv_run yield uv_loop_alive exec s = Some r"
    and stopped: "\<And>s. el_stopping s \<Longrightarrow> P s (None, s)"
    and callback_throws: "\<And>s ex t. \<not> el_stopping s \<Longrightarrow> uv_run s = Some (Some ex, t) \<Longrightarrow> P s (Some ex, t)"
    and task_throws: "\<And>s t ex u. \<not> el_stopping s \<Longrightarrow> uv_run s = Some (None, t) \<Longrightarrow>
      drain_loop_tasks exec t = Some (Some ex, u) \<Longrightarrow> P s (Some ex, u)"
    and idle: "\<And>s t u. \<not> el_stopping s \<Longrightarrow> uv_run s = Some (None, t) \<Longrightarrow> drain_loop_tasks exec t = Some (None, u) \<Longrightarrow>
      idle uv_loop_alive (yield u) \<Longrightarrow> P s (None, yield u)"
    and again: "\<And>s t u r. \<not> el_stopping s \<Longrightarrow> uv_run s = Some (None, t) \<Longrightarrow> drain_loop_tasks exec t = Some (None, u) \<Longrightarrow>
      \<not> idle uv_loop_alive (yield u) \<Longrightarrow> P (yield u) r \<Longrightarrow> P s r"
  shows "P s r"
proof -
  have "u = uv_run \<longrightarrow> y = yield \<longrightarrow> l = uv_loop_alive \<longrightarrow> e = exec \<longrightarrow> P s r"
    if "run u y l e s = Some r" for u y l e s r
  proof (rule run.raw_induct [OF _ that])
    fix f u y l e s r
    assume IH: "\<And>u y l e s r. f u y l e s = Some r \<Longrightarrow> u = uv_run \<longrightarrow> y = yield \<longrightarrow> l = uv_loop_alive \<longrightarrow> e = exec \<longrightarrow> P s r"
      and body: "(if el_stopping s then Some (None, s)
        else Option.bind (u s) (\<lambda>(ex, s1). if ex \<noteq> None then Some (ex, s1)
          else Option.bind (drain_loop_tasks e s1) (\<lambda>(ex, s2). if ex \<noteq> None then Some (ex, s2)
            else let s3 = y s2 in if Event_Loop.idle l s3 then Some (None, s3) else f u y l e s3))) = Some r"
    show "u = uv_run \<longrightarrow> y = yield \<longrightarrow> l = uv_loop_alive \<longrightarrow> e = exec \<longrightarrow> P s r"
    proof (intro impI)
      assume eq: "u = uv_run" "y = yield" "l = uv_loop_alive" "e = exec"
      show "P s r"
      proof (cases "el_stopping s")
        case True
        then show ?thesis using body stopped by auto
      next
        case False
        then obtain ex t where t: "uv_run s = Some (ex, t)" using body eq by (cases "uv_run s") auto
        show ?thesis
        proof (cases "(ex, drain_loop_tasks exec t)" rule: drain_cases)
          case (callback x)
          then show ?thesis using body eq False t callback_throws by auto
        next
          case stuck
          then show ?thesis using body eq False t by simp
        next
          case (task x v)
          then show ?thesis using body eq False t task_throws by auto
        next
          case (through v)
          then show ?thesis using body eq False t idle [of s t v] again [of s t v r] IH [of uv_run yield uv_loop_alive exec "yield v" r]
            by (cases "Event_Loop.idle uv_loop_alive (yield v)") (auto simp: Let_def)
        qed
      qed
    qed
  qed
  from this [OF run] show ?thesis by simp
qed

text \<open>A round of \<open>run\<close> after which it goes on.\<close>

inductive run_round ::
  "('k event_loop \<Rightarrow> 'k loop_result) \<Rightarrow> ('k event_loop \<Rightarrow> 'k event_loop) \<Rightarrow> ('k event_loop \<Rightarrow> bool) \<Rightarrow>
   'k task_exec \<Rightarrow> 'k event_loop \<Rightarrow> 'k event_loop \<Rightarrow> bool" for uv_run yield uv_loop_alive exec where
  "\<not> el_stopping s \<Longrightarrow> uv_run s = Some (None, t) \<Longrightarrow> drain_loop_tasks exec t = Some (None, u) \<Longrightarrow>
   \<not> idle uv_loop_alive (yield u) \<Longrightarrow> run_round uv_run yield uv_loop_alive exec s (yield u)"

lemma run_rounds:
  assumes "(run_round uv_run yield uv_loop_alive exec)\<^sup>*\<^sup>* s v"
  shows "run uv_run yield uv_loop_alive exec s = run uv_run yield uv_loop_alive exec v"
  using assms by (induction rule: rtranclp_induct) (auto elim!: run_round.cases simp: run.simps Let_def)

text \<open>How \<open>run\<close> ends, with the round in which it does.\<close>

lemma run_ends:
  assumes "run uv_run yield uv_loop_alive exec s = Some (r, s')"
  shows "\<exists>v. (run_round uv_run yield uv_loop_alive exec)\<^sup>*\<^sup>* s v \<and>
    (case r of
       None \<Rightarrow> el_stopping s' \<or> idle uv_loop_alive s'
     | Some ex \<Rightarrow> \<not> el_stopping v \<and>
         (uv_run v = Some (Some ex, s') \<or> (\<exists>t. uv_run v = Some (None, t) \<and> some_task_throws exec t ex s')))"
proof -
  have "\<exists>v. (run_round uv_run yield uv_loop_alive exec)\<^sup>*\<^sup>* s v \<and>
      (case fst q of
         None \<Rightarrow> el_stopping (snd q) \<or> idle uv_loop_alive (snd q)
       | Some ex \<Rightarrow> \<not> el_stopping v \<and>
           (uv_run v = Some (Some ex, snd q) \<or> (\<exists>t. uv_run v = Some (None, t) \<and> some_task_throws exec t ex (snd q))))"
    if "run uv_run yield uv_loop_alive exec s = Some q" for q
    using that
  proof (induction rule: run_induct)
    case (task_throws s t ex u)
    then show ?case using drain_throws_iff [of exec t ex u] by auto
  next
    case (again s t u r)
    have "run_round uv_run yield uv_loop_alive exec s (yield u)" using again(1-4) by (rule run_round.intros)
    then show ?case using again(5) by (meson converse_rtranclp_into_rtranclp)
  qed auto
  from this [OF assms] show ?thesis unfolding fst_conv snd_conv .
qed

text \<open>
  C14. When \<open>run\<close> returns normally the loop was stopped, or it has no live libuv handle, no fiber, no
  pending blocking job and no queued task; and it does return after the first round that leaves it so. An exception of a
  callback or of a task leaves it in the round in which it is thrown, with the state in which it was thrown, and nothing else does. A loop that
  was stopped returns at once from every later \<open>run\<close>, without running a task: \<open>stopping_\<close> is never cleared.
\<close>

theorem run_returns_stopped_or_idle:
  "(\<forall>s'. run uv_run yield uv_loop_alive exec s = Some (None, s') \<longrightarrow>
      el_stopping s' \<or> \<not> uv_loop_alive s' \<and> el_active_fibers s' = 0 \<and> el_pending_blocking s' = 0 \<and> el_tasks s' = []) \<and>
   (\<forall>v t u. (run_round uv_run yield uv_loop_alive exec)\<^sup>*\<^sup>* s v \<and> \<not> el_stopping v \<and>
      uv_run v = Some (None, t) \<and> drain_loop_tasks exec t = Some (None, u) \<and>
      \<not> uv_loop_alive (yield u) \<and> el_active_fibers (yield u) = 0 \<and> el_pending_blocking (yield u) = 0 \<and> el_tasks (yield u) = [] \<longrightarrow>
      run uv_run yield uv_loop_alive exec s = Some (None, yield u)) \<and>
   (\<forall>ex u. run uv_run yield uv_loop_alive exec s = Some (Some ex, u) \<longleftrightarrow>
      (\<exists>v. (run_round uv_run yield uv_loop_alive exec)\<^sup>*\<^sup>* s v \<and> \<not> el_stopping v \<and>
        (uv_run v = Some (Some ex, u) \<or> (\<exists>t. uv_run v = Some (None, t) \<and> some_task_throws exec t ex u)))) \<and>
   (el_stopping s \<longrightarrow> run uv_run yield uv_loop_alive exec s = Some (None, s)) \<and> el_stopping (stop s)"
proof (intro conjI allI impI)
  fix s' assume "run uv_run yield uv_loop_alive exec s = Some (None, s')"
  from run_ends [OF this] show "el_stopping s' \<or> \<not> uv_loop_alive s' \<and> el_active_fibers s' = 0 \<and> el_pending_blocking s' = 0 \<and> el_tasks s' = []"
    by (auto simp: idle_def loop_tasks_empty_def)
next
  fix v t u assume h: "(run_round uv_run yield uv_loop_alive exec)\<^sup>*\<^sup>* s v \<and> \<not> el_stopping v \<and>
      uv_run v = Some (None, t) \<and> drain_loop_tasks exec t = Some (None, u) \<and>
      \<not> uv_loop_alive (yield u) \<and> el_active_fibers (yield u) = 0 \<and> el_pending_blocking (yield u) = 0 \<and> el_tasks (yield u) = []"
  then show "run uv_run yield uv_loop_alive exec s = Some (None, yield u)"
    using run_rounds [of uv_run yield uv_loop_alive exec s v]
    by (simp add: run.simps [of uv_run yield uv_loop_alive exec v] idle_def loop_tasks_empty_def)
next
  fix ex u
  show "run uv_run yield uv_loop_alive exec s = Some (Some ex, u) \<longleftrightarrow>
      (\<exists>v. (run_round uv_run yield uv_loop_alive exec)\<^sup>*\<^sup>* s v \<and> \<not> el_stopping v \<and>
        (uv_run v = Some (Some ex, u) \<or> (\<exists>t. uv_run v = Some (None, t) \<and> some_task_throws exec t ex u)))"
  proof
    assume "run uv_run yield uv_loop_alive exec s = Some (Some ex, u)"
    from run_ends [OF this] show "\<exists>v. (run_round uv_run yield uv_loop_alive exec)\<^sup>*\<^sup>* s v \<and> \<not> el_stopping v \<and>
        (uv_run v = Some (Some ex, u) \<or> (\<exists>t. uv_run v = Some (None, t) \<and> some_task_throws exec t ex u))" by simp
  next
    assume "\<exists>v. (run_round uv_run yield uv_loop_alive exec)\<^sup>*\<^sup>* s v \<and> \<not> el_stopping v \<and>
        (uv_run v = Some (Some ex, u) \<or> (\<exists>t. uv_run v = Some (None, t) \<and> some_task_throws exec t ex u))"
    then obtain v where "(run_round uv_run yield uv_loop_alive exec)\<^sup>*\<^sup>* s v" "run uv_run yield uv_loop_alive exec v = Some (Some ex, u)"
      by (auto simp: run.simps drain_throws_iff [symmetric])
    then show "run uv_run yield uv_loop_alive exec s = Some (Some ex, u)" using run_rounds by metis
  qed
qed (simp_all add: run.simps stop_def uv_async_send_def)

definition demo_loop :: "nat event_loop" where
  "demo_loop = \<lparr>el_alive = True, el_stopping = False, el_active_fibers = 0, el_pending_blocking = 0,
     el_tasks = [1, 2], el_async_sent = False, el_workers = 4, el_workers_stopping = False, el_handler = True,
     el_last_exception = None, el_exception_count = 0, el_handles = [async_handle], el_closing = [], el_ran = [], el_spawned = []\<rparr>"

text \<open>Task 1 posts task 7, task 7 stops the loop, task 5 throws.\<close>

definition demo_exec :: "nat task_exec" where
  "demo_exec fn s =
     (if fn = 1 then (None, post_to_loop 7 s) else if fn = 7 then (None, stop s)
      else if fn = 5 then (Some (UserExn 5), s) else (None, s))"

abbreviation demo_end :: "nat event_loop" where
  "demo_end \<equiv> demo_loop\<lparr>el_tasks := [], el_stopping := True, el_async_sent := True, el_ran := [1, 2, 7]\<rparr>"

lemma demo_exec_only_posts: "only_posts demo_exec"
  by (auto simp: only_posts_def demo_exec_def post_to_loop_def stop_def uv_async_send_def)

lemma demo_drain: "drain_loop_tasks demo_exec demo_loop = Some (None, demo_end)"
  by (simp add: drain_loop_tasks.simps demo_loop_def demo_exec_def post_to_loop_def stop_def uv_async_send_def)

lemma demo_drain_throws:
  "drain_loop_tasks demo_exec (demo_loop\<lparr>el_tasks := [2, 5, 1]\<rparr>) = Some (Some (UserExn 5), demo_loop\<lparr>el_tasks := [1], el_ran := [2, 5]\<rparr>)"
  by (simp add: drain_loop_tasks.simps demo_loop_def demo_exec_def)

text \<open>A round of libuv in which nothing happens.\<close>

abbreviation quiet_round :: "'k event_loop \<Rightarrow> 'k loop_result" where
  "quiet_round s \<equiv> Some (None, s)"

lemma demo_run:
  assumes "uv_loop_alive demo_end"
  shows "run quiet_round id uv_loop_alive demo_exec demo_loop = Some (None, demo_end)"
proof -
  have "\<not> el_stopping demo_loop" by (simp add: demo_loop_def)
  then show ?thesis using assms
    by (subst run.simps) (simp add: demo_drain idle_def, subst run.simps, simp)
qed

text \<open>A run that task 7 stops, and one that task 5 leaves by an exception, with task 1 still queued.\<close>

theorem run_returns_stopped_or_idle_witness:
  "run quiet_round id (\<lambda>s. True) demo_exec demo_loop = Some (None, demo_end) \<and> el_stopping demo_end \<and>
   run quiet_round id (\<lambda>s. True) demo_exec (demo_loop\<lparr>el_tasks := [2, 5, 1]\<rparr>) =
     Some (Some (UserExn 5), demo_loop\<lparr>el_tasks := [1], el_ran := [2, 5]\<rparr>)"
proof -
  have "\<not> el_stopping (demo_loop\<lparr>el_tasks := [2, 5, 1]\<rparr>)" by (simp add: demo_loop_def)
  then have "run quiet_round id (\<lambda>s. True) demo_exec (demo_loop\<lparr>el_tasks := [2, 5, 1]\<rparr>) =
      Some (Some (UserExn 5), demo_loop\<lparr>el_tasks := [1], el_ran := [2, 5]\<rparr>)"
    using run_returns_stopped_or_idle [of quiet_round id "\<lambda>s. True" demo_exec "demo_loop\<lparr>el_tasks := [2, 5, 1]\<rparr>"]
      demo_drain_throws [unfolded drain_throws_iff] by blast
  then show ?thesis
    using run_returns_stopped_or_idle [of quiet_round id "\<lambda>s. True" demo_exec demo_loop] demo_run [of "\<lambda>s. True"] by auto
qed

text \<open>
  C15. Tasks run in the order they were posted, each once: draining loses none, runs what was queued
  before anything the tasks themselves post, and when it returns normally the queue is empty. It is left by an
  exception only when the task it ran last threw it; the tasks behind that one are still queued.
\<close>

theorem drain_runs_in_order:
  assumes "drain_loop_tasks exec s = Some (r, s')" "only_posts exec"
  shows "prefix (el_ran s @ el_tasks s) (el_ran s' @ el_tasks s') \<and> (r = None \<longrightarrow> el_tasks s' = []) \<and>
    (\<forall>ex. r = Some ex \<longrightarrow> (\<exists>fn t. el_ran s' \<noteq> [] \<and> last (el_ran s') = fn \<and> fst (exec fn t) = Some ex)) \<and>
    (\<exists>s2. drain_loop_tasks (\<lambda>fn t. (None, t)) (dispatch k s) = Some (None, s2) \<and> el_ran s2 = el_ran s @ el_tasks s @ [k])"
proof -
  obtain s2 where "drain_loop_tasks (\<lambda>fn t. (None, t)) (dispatch k s) = Some (None, s2)"
    "el_ran s2 = el_ran (dispatch k s) @ el_tasks (dispatch k s)"
    using drain_ends [of "\<lambda>fn t. (None, t)" "dispatch k s"] by auto
  then have "\<exists>s2. drain_loop_tasks (\<lambda>fn t. (None, t)) (dispatch k s) = Some (None, s2) \<and> el_ran s2 = el_ran s @ el_tasks s @ [k]"
    by (auto simp: dispatch_def post_to_loop_def uv_async_send_def)
  moreover have "\<exists>fn t. el_ran s' \<noteq> [] \<and> last (el_ran s') = fn \<and> fst (exec fn t) = Some ex" if "r = Some ex" for ex
    using drain_fifo [OF assms] that by (metis last_snoc snoc_eq_iff_butlast)
  ultimately show ?thesis using drain_fifo [OF assms] by (auto simp: keeps_tasks_def)
qed

theorem drain_runs_in_order_witness:
  "prefix ([] @ [1, 2]) (el_ran demo_end @ el_tasks demo_end) \<and> el_tasks demo_end = [] \<and>
   (\<exists>t. fst (demo_exec 5 t) = Some (UserExn 5))"
  using drain_runs_in_order [OF demo_drain demo_exec_only_posts] drain_runs_in_order [OF demo_drain_throws demo_exec_only_posts]
  by (auto simp: demo_loop_def)

text \<open>
  While libuv reports a live handle, and the loop's own \<open>async_\<close> handle is one as long as the loop
  exists, \<open>run\<close> returns only because \<open>stop\<close> was called or an exception escaped, even when no fiber, task or job
  is left.
\<close>

abbreviation async_open :: "'k event_loop \<Rightarrow> bool" where
  "async_open s \<equiv> async_handle \<notin> set (el_closing s)"

lemma drain_keeps:
  assumes "drain_loop_tasks exec s = Some (r, s')" "\<And>fn t. P t \<Longrightarrow> P (snd (exec fn t))" "P s"
    and pop: "\<And>t fn rest. P t \<Longrightarrow> P (popped t fn rest)"
  shows "P s'"
proof -
  have "P s \<longrightarrow> P (snd q)" if "drain_loop_tasks exec s = Some q" for q
    using that
  proof (induction rule: drain_induct)
    case (throws s fn rest ex t)
    then show ?case using assms(2) [OF pop, of s fn fn rest] by auto
  next
    case (task s fn rest t r)
    then show ?case using assms(2) [OF pop, of s fn fn rest] by auto
  qed simp
  from this [OF assms(1)] show ?thesis using assms(3) by simp
qed

theorem run_needs_stop:
  assumes "run uv_run yield async_open exec s = Some (None, s')"
    and "\<forall>t ex t'. async_open t \<longrightarrow> uv_run t = Some (ex, t') \<longrightarrow> async_open t'" "\<forall>t. async_open t \<longrightarrow> async_open (yield t)"
    and "\<forall>fn t. async_open t \<longrightarrow> async_open (snd (exec fn t))" "async_open s"
  shows "el_stopping s'"
proof -
  have drain: "async_open t'" if "drain_loop_tasks exec t = Some (ex, t')" "async_open t" for t ex t'
    using drain_keeps [OF that(1), of async_open] assms(4) that(2) by auto
  have "async_open s \<longrightarrow> fst q = None \<longrightarrow> el_stopping (snd q)" if "run uv_run yield async_open exec s = Some q" for q
    using that
  proof (induction rule: run_induct)
    case (idle s t u)
    then show ?case using assms(2,3) drain [of t None u] by (auto simp: idle_def)
  next
    case (again s t u r)
    then show ?case using assms(2,3) drain [of t None u] by blast
  qed auto
  from this [OF assms(1)] show ?thesis using assms(5) by simp
qed

theorem run_needs_stop_witness: "el_stopping demo_end"
proof -
  have "async_open demo_end" by (simp add: demo_loop_def)
  from run_needs_stop [OF demo_run [of async_open, OF this]] show ?thesis
    by (auto simp: demo_exec_def post_to_loop_def stop_def uv_async_send_def demo_loop_def)
qed

text \<open>
  A fiber always gives back its place: whether its task returns or throws, and whatever handler
  is installed, the count of active fibers is what it was before \<open>spawn\<close>, and a thrown exception is
  counted once and kept until it is taken, once.
\<close>

theorem fiber_accounting:
  assumes "\<forall>ex t. el_active_fibers (handler ex t) = el_active_fibers t \<and>
      el_exception_count (handler ex t) = el_exception_count t \<and> el_last_exception (handler ex t) = el_last_exception t"
  shows "el_active_fibers (fiber_body handler r (spawn fn s)) = el_active_fibers s \<and>
    unhandled_exception_count (fiber_body handler r (spawn fn s)) =
      unhandled_exception_count s + (case r of Value _ \<Rightarrow> 0 | Exception _ \<Rightarrow> 1) \<and>
    fst (take_last_unhandled_exception (fiber_body handler r (spawn fn s))) =
      (case r of Value _ \<Rightarrow> el_last_exception s | Exception ex \<Rightarrow> Some ex) \<and>
    fst (take_last_unhandled_exception (snd (take_last_unhandled_exception (fiber_body handler r (spawn fn s))))) = None"
  using assms
  by (cases r) (auto simp: fiber_body_def spawn_def report_unhandled_exception_def uv_async_send_def
      unhandled_exception_count_def take_last_unhandled_exception_def Let_def)

theorem fiber_accounting_witness:
  "unhandled_exception_count (fiber_body (\<lambda>ex t. t) (Exception (UserExn 3)) (spawn 1 demo_loop)) = 1"
  using fiber_accounting [of "\<lambda>ex t. t" "Exception (UserExn 3)" 1 demo_loop]
  by (simp add: unhandled_exception_count_def demo_loop_def)

subsection \<open>The destructor\<close>

text \<open>What is relied on of the code the destructor calls: no task is lost, and the flag stays down.\<close>

definition sound_step :: "'k event_loop \<Rightarrow> 'k event_loop \<Rightarrow> bool" where
  "sound_step s t \<longleftrightarrow> keeps_tasks s t \<and> (el_alive t \<longrightarrow> el_alive s)"

lemma sound_step_refl [simp]: "sound_step s s"
  by (simp add: sound_step_def)

lemma sound_step_trans [trans]: "sound_step s t \<Longrightarrow> sound_step t u \<Longrightarrow> sound_step s u"
  by (auto simp: sound_step_def intro: keeps_tasks_trans)

lemma fold_close_handle:
  "distinct (el_closing s) \<Longrightarrow> distinct (el_closing (fold close_handle hs s)) \<and>
     prefix (el_closing s) (el_closing (fold close_handle hs s)) \<and>
     set (el_closing (fold close_handle hs s)) = set (el_closing s) \<union> set hs"
proof (induction hs arbitrary: s)
  case (Cons h hs)
  let ?s = "close_handle h s"
  have s1: "distinct (el_closing ?s)" "prefix (el_closing s) (el_closing ?s)"
    "set (el_closing ?s) = insert h (set (el_closing s))" using Cons.prems by (auto simp: close_handle_def)
  from Cons.IH [OF s1(1)] s1 show ?case by (auto intro: prefix_order.trans)
qed simp

lemma fold_close_handle_same [simp]:
  "el_tasks (fold close_handle hs s) = el_tasks s" "el_ran (fold close_handle hs s) = el_ran s"
  "el_alive (fold close_handle hs s) = el_alive s" "el_handles (fold close_handle hs s) = el_handles s"
  "el_spawned (fold close_handle hs s) = el_spawned s"
  by (induction hs arbitrary: s) (simp_all add: close_handle_def)

text \<open>
  Before libuv is run for the last time every handle of the loop has been given to \<open>uv_close\<close>, none of
  them twice, and those that were closing before keep their callback.
\<close>

theorem destroy_closes_handles:
  assumes "distinct (el_closing s)" "async_handle \<in> set (el_handles s)"
  shows "distinct (el_closing (uv_walk_close (close_handle async_handle s))) \<and>
    prefix (el_closing s) (el_closing (uv_walk_close (close_handle async_handle s))) \<and>
    set (el_closing (uv_walk_close (close_handle async_handle s))) = set (el_closing s) \<union> set (el_handles s)"
  using assms fold_close_handle [of "close_handle async_handle s" "el_handles s"] fold_close_handle [of s "[async_handle]"]
  by (auto simp: uv_walk_close_def close_handle_def intro: prefix_order.trans)

theorem destroy_closes_handles_witness:
  "el_closing (uv_walk_close (close_handle async_handle (demo_loop\<lparr>el_handles := [0, 3, 4], el_closing := [3]\<rparr>))) = [3, 0, 4] \<and>
   distinct (el_closing (uv_walk_close (close_handle async_handle (demo_loop\<lparr>el_handles := [0, 3, 4], el_closing := [3]\<rparr>))))"
  using destroy_closes_handles [of "demo_loop\<lparr>el_handles := [0, 3, 4], el_closing := [3]\<rparr>"]
  by (simp add: uv_walk_close_def close_handle_def async_handle_def demo_loop_def)

text \<open>The state in which the destructor runs libuv for the last time.\<close>

definition torn_down :: "('k event_loop \<Rightarrow> 'k event_loop) \<Rightarrow> 'k event_loop \<Rightarrow> 'k event_loop" where
  "torn_down join s = uv_walk_close (close_handle async_handle (stop_workers join (stop (s\<lparr>el_alive := False\<rparr>))))"

lemma torn_down_sound:
  assumes "\<forall>t. sound_step t (join t)"
  shows "keeps_tasks s (torn_down join s) \<and> \<not> el_alive (torn_down join s)"
proof -
  let ?s = "(stop (s\<lparr>el_alive := False\<rparr>))\<lparr>el_workers_stopping := True\<rparr>"
  have s: "keeps_tasks s ?s" "\<not> el_alive ?s" by (simp_all add: keeps_tasks_def stop_def uv_async_send_def)
  have "keeps_tasks (join ?s) (torn_down join s)" "el_alive (torn_down join s) = el_alive (join ?s)"
    by (simp_all add: torn_down_def uv_walk_close_def stop_workers_def keeps_tasks_def close_handle_def)
  moreover have "keeps_tasks ?s (join ?s)" "\<not> el_alive (join ?s)" using assms s(2) by (auto simp: sound_step_def)
  ultimately show ?thesis using s(1) keeps_tasks_trans by blast
qed

lemma drain_sound:
  assumes "drain_loop_tasks exec s = Some (r, s')" "only_posts exec" "\<forall>fn t. el_alive (snd (exec fn t)) \<longrightarrow> el_alive t"
  shows "sound_step s s'"
proof -
  have "\<not> el_alive s'" if "\<not> el_alive s"
    by (rule drain_keeps [OF assms(1), of "\<lambda>t. \<not> el_alive t"]) (use assms(3) that in auto)
  then show ?thesis using drain_fifo [OF assms(1,2)] unfolding sound_step_def by blast
qed

text \<open>What the destructor leaves behind if it returns, from its state on.\<close>

lemma destroy_gone:
  assumes "only_posts exec" "\<forall>fn t. el_alive (snd (exec fn t)) \<longrightarrow> el_alive t" "\<forall>t. sound_step t (join t)"
    "\<forall>t ex t'. uv_run_all t = Some (ex, t') \<longrightarrow> sound_step t t'"
    and gone: "event_loop_destroy join uv_run_all exec s = Some (Gone s')"
  shows "\<not> el_alive s' \<and> el_tasks s' = [] \<and> keeps_tasks s s'"
proof -
  obtain s4 where s4: "uv_run_all (torn_down join s) = Some (None, s4)" "drain_loop_tasks exec s4 = Some (None, s')"
    using gone by (auto simp: event_loop_destroy_def Let_def torn_down_def bind_eq_Some_conv noexcept_def
        split: option.splits if_splits prod.splits)
  have "sound_step (torn_down join s) s4" using assms(4) s4(1) by blast
  also have "sound_step s4 s'" by (rule drain_sound [OF s4(2) assms(1,2)])
  finally show ?thesis
    using torn_down_sound [OF assms(3), of s] drain_fifo [OF s4(2) assms(1)] keeps_tasks_trans by (auto simp: sound_step_def)
qed

text \<open>
  C16. The destructor lets no task behind: when it returns, every task that was queued before has been
  run, in order, the queue is empty, and the lifetime token reports a dead loop. It ends the
  program exactly when, in its last rounds of libuv, a callback throws, or a task it runs after them does. It returns if
  libuv's last rounds do and the tasks left neither throw nor post.
\<close>

theorem destroy_runs_queued:
  assumes "only_posts exec" "\<forall>fn t. el_alive (snd (exec fn t)) \<longrightarrow> el_alive t" "\<forall>t. sound_step t (join t)"
    "\<forall>t ex t'. uv_run_all t = Some (ex, t') \<longrightarrow> sound_step t t'"
  shows "(\<forall>s'. event_loop_destroy join uv_run_all exec s = Some (Gone s') \<longrightarrow>
      \<not> is_loop_alive (lifetime_token s') \<and> el_tasks s' = [] \<and> prefix (el_ran s @ el_tasks s) (el_ran s')) \<and>
    (event_loop_destroy join uv_run_all exec s = Some Terminated \<longleftrightarrow>
      (\<exists>ex u. uv_run_all (torn_down join s) = Some (Some ex, u) \<or>
        (\<exists>t. uv_run_all (torn_down join s) = Some (None, t) \<and> some_task_throws exec t ex u))) \<and>
    ((\<exists>t. uv_run_all (torn_down join s) = Some (None, t)) \<and>
      (\<forall>fn t. fst (exec fn t) = None \<and> el_tasks (snd (exec fn t)) = el_tasks t) \<longrightarrow>
      (\<exists>s'. event_loop_destroy join uv_run_all exec s = Some (Gone s')))"
proof (intro conjI impI allI)
  fix s' assume gone: "event_loop_destroy join uv_run_all exec s = Some (Gone s')"
  from destroy_gone [OF assms gone] have "\<not> el_alive s'" "el_tasks s' = []" "keeps_tasks s s'" by auto
  then show "\<not> is_loop_alive (lifetime_token s')" "el_tasks s' = []" "prefix (el_ran s @ el_tasks s) (el_ran s')"
    by (simp_all add: lifetime_token_def keeps_tasks_def)
next
  show "event_loop_destroy join uv_run_all exec s = Some Terminated \<longleftrightarrow>
      (\<exists>ex u. uv_run_all (torn_down join s) = Some (Some ex, u) \<or>
        (\<exists>t. uv_run_all (torn_down join s) = Some (None, t) \<and> some_task_throws exec t ex u))"
    unfolding drain_throws_iff [symmetric]
    by (auto simp: event_loop_destroy_def Let_def torn_down_def bind_eq_Some_conv noexcept_def
        split: option.splits if_splits prod.splits)
next
  assume h: "(\<exists>t. uv_run_all (torn_down join s) = Some (None, t)) \<and>
    (\<forall>fn t. fst (exec fn t) = None \<and> el_tasks (snd (exec fn t)) = el_tasks t)"
  then obtain t where t: "uv_run_all (torn_down join s) = Some (None, t)" by blast
  have "el_ran (snd (exec fn t)) = el_ran t" for fn t using assms(1) unfolding only_posts_def by blast
  then obtain s' where "drain_loop_tasks exec t = Some (None, s')" using drain_ends [of exec t] h by auto
  then show "\<exists>s'. event_loop_destroy join uv_run_all exec s = Some (Gone s')"
    using t by (simp add: event_loop_destroy_def torn_down_def noexcept_def)
qed

text \<open>One loop whose tasks run to their end, and one with a task that throws.\<close>

theorem destroy_runs_queued_witness:
  "(\<exists>s'. event_loop_destroy (post_to_loop 9) quiet_round (\<lambda>fn t. (None, t)) demo_loop = Some (Gone s') \<and> el_tasks s' = [] \<and>
     prefix [1, 2] (el_ran s')) \<and>
   event_loop_destroy id quiet_round demo_exec (demo_loop\<lparr>el_tasks := [2, 5, 1]\<rparr>) = Some Terminated"
proof -
  have "only_posts (\<lambda>(fn :: nat) t. (None, t))" by (simp add: only_posts_def)
  moreover have "sound_step t (post_to_loop 9 t)" for t :: "nat event_loop"
    by (simp add: sound_step_def keeps_tasks_def post_to_loop_def uv_async_send_def prefix_def)
  ultimately have h: "(\<forall>s'. event_loop_destroy (post_to_loop 9) quiet_round (\<lambda>fn t. (None, t)) demo_loop = Some (Gone s') \<longrightarrow>
      \<not> is_loop_alive (lifetime_token s') \<and> el_tasks s' = [] \<and> prefix (el_ran demo_loop @ el_tasks demo_loop) (el_ran s')) \<and>
      (\<exists>s'. event_loop_destroy (post_to_loop 9) quiet_round (\<lambda>fn t. (None, t)) demo_loop = Some (Gone s'))"
    using destroy_runs_queued [of "\<lambda>fn t. (None, t)" "post_to_loop 9" quiet_round demo_loop] by simp
  have "el_ran demo_loop @ el_tasks demo_loop = [1, 2]" by (simp add: demo_loop_def)
  then have 1: "\<exists>s'. event_loop_destroy (post_to_loop 9) quiet_round (\<lambda>fn t. (None, t)) demo_loop = Some (Gone s') \<and> el_tasks s' = [] \<and>
     prefix [1, 2] (el_ran s')" using h by metis
  let ?s = "demo_loop\<lparr>el_tasks := [2, 5, 1]\<rparr>"
  have "\<exists>u. drain_loop_tasks demo_exec (torn_down id ?s) = Some (Some (UserExn 5), u)"
    by (simp add: drain_loop_tasks.simps torn_down_def uv_walk_close_def close_handle_def stop_workers_def stop_def uv_async_send_def
        demo_loop_def demo_exec_def)
  moreover have "el_alive (snd (demo_exec fn t)) \<longrightarrow> el_alive t" for fn t
    by (simp add: demo_exec_def post_to_loop_def stop_def uv_async_send_def)
  ultimately have "event_loop_destroy id quiet_round demo_exec ?s = Some Terminated"
    using destroy_runs_queued [OF demo_exec_only_posts, of id quiet_round ?s] unfolding drain_throws_iff by auto
  with 1 show ?thesis by blast
qed

subsection \<open>A whole program\<close>

lemma run_sound:
  assumes "run uv_run yield uv_loop_alive exec s = Some (r, s')" "only_posts exec"
    "\<forall>t ex t'. uv_run t = Some (ex, t') \<longrightarrow> keeps_tasks t t'" "\<forall>t. keeps_tasks t (yield t)"
  shows "keeps_tasks s s'"
proof -
  have "keeps_tasks s (snd q)" if "run uv_run yield uv_loop_alive exec s = Some q" for q
    using that
  proof (induction rule: run_induct)
    case (task_throws s t ex u)
    then show ?case using assms(3) drain_fifo [OF task_throws(3) assms(2)] keeps_tasks_trans by fastforce
  next
    case (idle s t u)
    then show ?case using assms(3,4) drain_fifo [OF idle(3) assms(2)] keeps_tasks_trans by (metis snd_conv)
  next
    case (again s t u r)
    then show ?case using assms(3,4) drain_fifo [OF again(3) assms(2)] keeps_tasks_trans by metis
  qed (use assms(3) in auto)
  from this [OF assms(1)] show ?thesis by simp
qed

text \<open>
  What libuv's rounds, the other fibers and the other threads do to a loop: they post tasks, spawn fibers, may lower the
  lifetime flag, and run tasks only through \<open>drain_loop_tasks\<close>, which is the callback of \<open>async_\<close>.
\<close>

definition posts_and_spawns :: "'k event_loop \<Rightarrow> 'k event_loop \<Rightarrow> bool" where
  "posts_and_spawns s t \<longleftrightarrow> prefix (el_tasks s) (el_tasks t) \<and> el_ran t = el_ran s \<and>
     prefix (el_spawned s) (el_spawned t) \<and> (el_alive t \<longrightarrow> el_alive s)"

inductive loop_work :: "'k task_exec \<Rightarrow> 'k event_loop \<Rightarrow> 'k event_loop \<Rightarrow> bool" for exec where
  nothing: "loop_work exec s s"
| others: "loop_work exec s t \<Longrightarrow> posts_and_spawns t u \<Longrightarrow> loop_work exec s u"
| async_callback: "loop_work exec s t \<Longrightarrow> drain_loop_tasks exec t = Some (r, u) \<Longrightarrow> loop_work exec s u"

lemma posts_and_spawns_keeps: "posts_and_spawns s t \<Longrightarrow> sound_step s t"
  by (simp add: posts_and_spawns_def sound_step_def keeps_tasks_def)

lemma loop_work_sound:
  assumes "loop_work exec s t" "only_posts exec" "\<forall>fn t. el_alive (snd (exec fn t)) \<longrightarrow> el_alive t"
  shows "sound_step s t"
  using assms(1)
  by induction (auto intro: sound_step_trans posts_and_spawns_keeps drain_sound [OF _ assms(2,3)])

text \<open>Whoever ran the closure that spawns \<open>fn\<close> has spawned \<open>fn\<close>.\<close>

definition spawned_as_run :: "'k loop_closure event_loop \<Rightarrow> bool" where
  "spawned_as_run s \<longleftrightarrow> (\<forall>fn. SpawnFn fn \<in> set (el_ran s) \<longrightarrow> Task fn \<in> set (el_spawned s))"

lemma spawned_others: "posts_and_spawns s t \<Longrightarrow> spawned_as_run s \<Longrightarrow> spawned_as_run t"
  by (auto simp: posts_and_spawns_def spawned_as_run_def dest: set_mono_prefix)

definition closures_ok :: "('k \<Rightarrow> 'k loop_closure event_loop \<Rightarrow> err option \<times> 'k loop_closure event_loop) \<Rightarrow> bool" where
  "closures_ok exec \<longleftrightarrow> (\<forall>k s. posts_and_spawns s (snd (exec k s)))"

lemma call_closure_ok:
  assumes "closures_ok exec"
  shows "only_posts (call_closure exec)" "\<forall>fn t. el_alive (snd (call_closure exec fn t)) \<longrightarrow> el_alive t"
  using assms
  by (auto simp: closures_ok_def posts_and_spawns_def only_posts_def call_closure_def spawn_def uv_async_send_def split: loop_closure.splits)

lemma spawned_call:
  assumes "closures_ok exec" "spawned_as_run s" "el_tasks s = fn # rest" "call_closure exec fn (popped s fn rest) = (r, t)"
  shows "spawned_as_run t"
proof (cases fn)
  case (SpawnFn k)
  then show ?thesis using assms(2,4) by (auto simp: call_closure_def spawn_def uv_async_send_def spawned_as_run_def)
next
  case (Task k)
  then have "posts_and_spawns (popped s fn rest) t" using assms(1,4) unfolding closures_ok_def call_closure_def
    by (metis loop_closure.simps(6) snd_conv)
  moreover have "spawned_as_run (popped s fn rest)" using assms(2) Task by (auto simp: spawned_as_run_def)
  ultimately show ?thesis by (rule spawned_others)
qed

lemma spawned_drain:
  assumes "drain_loop_tasks (call_closure exec) s = Some (r, s')" "closures_ok exec" "spawned_as_run s"
  shows "spawned_as_run s'"
proof -
  have "spawned_as_run s \<longrightarrow> spawned_as_run (snd q)" if "drain_loop_tasks (call_closure exec) s = Some q" for q
    using that by (induction rule: drain_induct) (auto dest: spawned_call [OF assms(2)])
  from this [OF assms(1)] show ?thesis using assms(3) by simp
qed

lemma spawned_work:
  assumes "loop_work (call_closure exec) s t" "closures_ok exec" "spawned_as_run s"
  shows "spawned_as_run t"
  using assms(1,3) by induction (auto intro: spawned_others spawned_drain [OF _ assms(2)])

lemma spawned_run:
  assumes "run uv_run yield uv_loop_alive (call_closure exec) s = Some (r, s')" "closures_ok exec" "spawned_as_run s"
    "\<forall>t ex t'. uv_run t = Some (ex, t') \<longrightarrow> loop_work (call_closure exec) t t'" "\<forall>t. loop_work (call_closure exec) t (yield t)"
  shows "spawned_as_run s'"
proof -
  note work = spawned_work [OF _ assms(2)] spawned_drain [OF _ assms(2)]
  have "spawned_as_run s \<longrightarrow> spawned_as_run (snd q)" if "run uv_run yield uv_loop_alive (call_closure exec) s = Some q" for q
    using that
  proof (induction rule: run_induct)
    case (callback_throws s ex t)
    then show ?case using assms(4) work(1) by fastforce
  next
    case (task_throws s t ex u)
    then show ?case using assms(4) work by fastforce
  next
    case (idle s t u)
    then show ?case using assms(4,5) work by (metis snd_conv)
  next
    case (again s t u r)
    then show ?case using assms(4,5) work by blast
  qed simp
  from this [OF assms(1)] show ?thesis using assms(3) by simp
qed

lemma spawned_destroy:
  assumes "event_loop_destroy join uv_run_all (call_closure exec) s = Some (Gone s')" "closures_ok exec" "spawned_as_run s"
    "\<forall>t. loop_work (call_closure exec) t (join t)" "\<forall>t ex t'. uv_run_all t = Some (ex, t') \<longrightarrow> loop_work (call_closure exec) t t'"
  shows "spawned_as_run s'"
proof -
  obtain s4 where s4: "uv_run_all (torn_down join s) = Some (None, s4)" "drain_loop_tasks (call_closure exec) s4 = Some (None, s')"
    using assms(1) by (auto simp: event_loop_destroy_def Let_def torn_down_def bind_eq_Some_conv noexcept_def
        split: option.splits if_splits prod.splits)
  let ?s = "(stop (s\<lparr>el_alive := False\<rparr>))\<lparr>el_workers_stopping := True\<rparr>"
  have "spawned_as_run ?s" using assms(3) by (simp add: spawned_as_run_def stop_def uv_async_send_def)
  then have "spawned_as_run (join ?s)" using assms(4) spawned_work [OF _ assms(2)] by blast
  then have "spawned_as_run (torn_down join s)"
    by (simp add: torn_down_def uv_walk_close_def stop_workers_def close_handle_def spawned_as_run_def)
  then show ?thesis using s4 assms(5) spawned_work [OF _ assms(2)] spawned_drain [OF _ assms(2)] by blast
qed

text \<open>
  C17. \<open>fiberuv::run(fn)\<close> restores the current loop of its thread however it ends. Unless the constructor failed
  or the program was ended, the loop it leaves behind is dead with nothing queued, the first task it ran was the closure that
  spawns \<open>fn\<close>, and \<open>fn\<close> was spawned as a fiber of the loop, also when an exception left the run loop.
\<close>

theorem fiberuv_run_complete:
  assumes "fiberuv_run init_rc async_rc threads hw loop fn uv_run yield uv_loop_alive exec join uv_run_all tls = Some (e, left, tls')"
    and "\<forall>cur. closures_ok (exec cur)"
    and "\<forall>cur t ex t'. uv_run cur t = Some (ex, t') \<longrightarrow> loop_work (call_closure (exec cur)) t t'"
    and "\<forall>cur t. loop_work (call_closure (exec cur)) t (yield cur t)"
    and "\<forall>cur t. loop_work (call_closure (exec cur)) t (join t)"
    and "\<forall>cur t ex t'. uv_run_all t = Some (ex, t') \<longrightarrow> loop_work (call_closure (exec cur)) t t'"
  shows "tls' = tls \<and> (left = None \<longleftrightarrow> e = Aborted \<or> init_rc \<noteq> 0 \<or> async_rc \<noteq> 0) \<and>
    (\<forall>s. left = Some s \<longrightarrow> \<not> is_loop_alive (lifetime_token s) \<and> el_tasks s = [] \<and>
       prefix [SpawnFn fn] (el_ran s) \<and> Task fn \<in> set (el_spawned s))"
proof (cases "event_loop_new init_rc async_rc threads hw :: err + 'a loop_closure event_loop")
  case (Inl ex)
  then show ?thesis using assms(1) by (auto simp: fiberuv_run_def event_loop_new_def split: if_splits)
next
  case (Inr s0)
  let ?s = "dispatch (SpawnFn fn) s0"
  have new: "init_rc = 0" "async_rc = 0" "el_ran ?s @ el_tasks ?s = [SpawnFn fn]" "el_ran ?s = []"
    using Inr by (auto simp: event_loop_new_def set_unhandled_exception_handler_def start_workers_def dispatch_def
        post_to_loop_def uv_async_send_def split: if_splits)
  obtain ex s1 d where r: "run (uv_run (Some loop)) (yield (Some loop)) uv_loop_alive (call_closure (exec (Some loop))) ?s = Some (ex, s1)"
    and d: "event_loop_destroy join uv_run_all (call_closure (exec tls)) s1 = Some d"
    and out: "(e, left, tls') = (case d of Gone s2 \<Rightarrow> (case ex of None \<Rightarrow> Returned | Some x \<Rightarrow> Threw x, Some s2, tls)
      | Terminated \<Rightarrow> (Aborted, None, tls))"
    using assms(1) Inr by (auto simp: fiberuv_run_def guarded_def bind_eq_Some_conv)
  note sound = loop_work_sound [OF _ call_closure_ok]
  have k: "keeps_tasks ?s s1"
    using run_sound [OF r] call_closure_ok assms(2,3,4) sound unfolding sound_step_def by metis
  have "spawned_as_run ?s" using new(4) by (simp add: spawned_as_run_def)
  then have sp: "spawned_as_run s1" using spawned_run [OF r] assms(2,3,4) by blast
  have "\<not> is_loop_alive (lifetime_token s2) \<and> el_tasks s2 = [] \<and> prefix [SpawnFn fn] (el_ran s2) \<and> Task fn \<in> set (el_spawned s2)"
    if "d = Gone s2" for s2
  proof -
    have "\<not> el_alive s2 \<and> el_tasks s2 = [] \<and> keeps_tasks s1 s2"
      by (rule destroy_gone [of "call_closure (exec tls)" join uv_run_all]) (use call_closure_ok sound assms(2,5,6) d that in blast)+
    moreover from this have "keeps_tasks ?s s2" using keeps_tasks_trans [OF k] by blast
    moreover have "spawned_as_run s2" using spawned_destroy d that sp assms(2,5,6) by blast
    ultimately show ?thesis unfolding keeps_tasks_def new(3) by (auto simp: lifetime_token_def spawned_as_run_def prefix_def)
  qed
  then show ?thesis using out new(1,2) by (auto split: teardown.splits option.splits)
qed

text \<open>A program whose function, 1, runs when \<open>run\<close> yields and posts task 7, which stops the loop.\<close>

definition main_exec :: "nat \<Rightarrow> nat loop_closure event_loop \<Rightarrow> err option \<times> nat loop_closure event_loop" where
  "main_exec k s = (None, if k = 7 then stop s else s)"

definition main_yield :: "nat loop_closure event_loop \<Rightarrow> nat loop_closure event_loop" where
  "main_yield s = (if el_active_fibers s = 0 then s else fiber_body (\<lambda>ex t. t) (Value ()) (post_to_loop (Task 7) s))"

lemma main_ok: "closures_ok main_exec" "loop_work exec t (main_yield t)"
  by (auto simp: closures_ok_def posts_and_spawns_def main_exec_def main_yield_def fiber_body_def stop_def post_to_loop_def
      uv_async_send_def intro!: loop_work.others [OF loop_work.nothing])

lemma demo_program_returns:
  "\<exists>s. fiberuv_run 0 0 1 8 3 1 (\<lambda>cur. quiet_round) (\<lambda>cur. main_yield) async_open (\<lambda>cur. main_exec) (\<lambda>s. s) quiet_round None =
     Some (Returned, Some s, None)"
  by (simp add: fiberuv_run_def event_loop_new_def set_unhandled_exception_handler_def start_workers_def guarded_def
      dispatch_def post_to_loop_def uv_async_send_def run.simps drain_loop_tasks.simps main_exec_def main_yield_def call_closure_def
      spawn_def fiber_body_def stop_def idle_def event_loop_destroy_def stop_workers_def uv_walk_close_def close_handle_def
      noexcept_def loop_tasks_empty_def)

theorem fiberuv_run_complete_witness:
  "\<exists>s. fiberuv_run 0 0 1 8 3 1 (\<lambda>cur. quiet_round) (\<lambda>cur. main_yield) async_open (\<lambda>cur. main_exec) (\<lambda>s. s) quiet_round None =
     Some (Returned, Some s, None) \<and> \<not> is_loop_alive (lifetime_token s) \<and> el_tasks s = [] \<and> prefix [SpawnFn 1] (el_ran s) \<and>
     Task 1 \<in> set (el_spawned s)"
proof -
  obtain s where s: "fiberuv_run 0 0 1 8 3 1 (\<lambda>cur. quiet_round) (\<lambda>cur. main_yield) async_open (\<lambda>cur. main_exec) (\<lambda>s. s) quiet_round None =
     Some (Returned, Some s, None)" using demo_program_returns by blast
  with fiberuv_run_complete [OF s] main_ok show ?thesis by (simp add: loop_work.nothing)
qed

end
