(* ===== verification/Blocking_Pool.thy ===== *)
theory Blocking_Pool
  imports Event_Loop "HOL-Library.Multiset"
begin

text \<open>
  \<open>EventLoop::run_blocking\<close> and the worker threads (include/fiberuv/fiberuv.hpp, src/event_loop.cpp), under
  every interleaving of callers, workers and the loop. A job is identified with the promise of its
  caller; \<open>result\<close> says how its task ends, with a value or an exception. A job goes from \<open>bp_submitting\<close> (counted, not yet
  queued) to \<open>bp_jobs\<close>, to \<open>bp_running\<close>, and when its task is over its completion, a closure that holds the value
  or the exception, is posted to the loop, \<open>bp_tasks\<close>, whose draining runs it. Its worker still has to take it off the count
  (\<open>bp_posted\<close>). \<open>bp_submitted\<close> and \<open>bp_settled\<close> only record.
\<close>

datatype 'r completion = SetValue pid 'r | SetException pid err

record 'r pool =
  bp_submitting :: "pid list"
  bp_jobs :: "pid list"
  bp_running :: "pid list"
  bp_posted :: "pid list"
  bp_tasks :: "'r completion list"
  bp_pending :: nat
  bp_stopping :: bool
  bp_free :: nat
  bp_exited :: nat
  bp_submitted :: "pid list"
  bp_settled :: "(pid \<times> 'r outcome) list"

definition pool_init :: "nat \<Rightarrow> 'r pool" where
  "pool_init n = \<lparr>bp_submitting = [], bp_jobs = [], bp_running = [], bp_posted = [], bp_tasks = [], bp_pending = 0,
     bp_stopping = False, bp_free = n, bp_exited = 0, bp_submitted = [], bp_settled = []\<rparr>"

text \<open>What a worker does under \<open>blocking_mutex_\<close>.\<close>

datatype worker_decision = KeepWaiting | WorkerReturn | TakeJob pid "pid list"

definition worker_section :: "bool \<Rightarrow> pid list \<Rightarrow> worker_decision" where
  "worker_section workers_stopping blocking_jobs =
     (if \<not> (workers_stopping \<or> blocking_jobs \<noteq> []) then KeepWaiting
      else if workers_stopping \<and> blocking_jobs = [] then WorkerReturn
      else TakeJob (hd blocking_jobs) (tl blocking_jobs))"

text \<open>The steps of \<open>run_blocking\<close>: count the job, then queue it under the lock.\<close>

definition blocking_count :: "pid \<Rightarrow> 'r pool \<Rightarrow> 'r pool" where
  "blocking_count p s = s\<lparr>bp_pending := bp_pending s + 1, bp_submitting := bp_submitting s @ [p],
     bp_submitted := bp_submitted s @ [p]\<rparr>"

definition blocking_enqueue :: "pid \<Rightarrow> 'r pool \<Rightarrow> 'r pool" where
  "blocking_enqueue p s = s\<lparr>bp_submitting := remove1 p (bp_submitting s), bp_jobs := bp_jobs s @ [p]\<rparr>"

text \<open>
  The job: run the task in the \<open>try\<close>, and post the closure that sets the value it returned or, in the
  \<open>catch\<close>, the closure that sets the exception it threw; then take the job off the count.
\<close>

definition job_post :: "'r outcome \<Rightarrow> pid \<Rightarrow> 'r pool \<Rightarrow> 'r pool" where
  "job_post task promise s =
     (let completion = (case task of Value out \<Rightarrow> SetValue promise out | Exception ex \<Rightarrow> SetException promise ex) in
      s\<lparr>bp_running := remove1 promise (bp_running s), bp_tasks := bp_tasks s @ [completion],
        bp_posted := bp_posted s @ [promise]\<rparr>)"

definition job_uncount :: "pid \<Rightarrow> 'r pool \<Rightarrow> 'r pool" where
  "job_uncount p s = s\<lparr>bp_posted := remove1 p (bp_posted s), bp_pending := bp_pending s - 1, bp_free := bp_free s + 1\<rparr>"

text \<open>What the loop does with a posted closure: \<open>set_value\<close> or \<open>set_exception\<close> on the promise it holds.\<close>

fun completion_run :: "'r completion \<Rightarrow> 'r settle" where
  "completion_run (SetValue promise out) = (promise, Value out)"
| "completion_run (SetException promise ex) = (promise, Exception ex)"

inductive pool_step :: "(pid \<Rightarrow> 'r outcome) \<Rightarrow> 'r pool \<Rightarrow> 'r pool \<Rightarrow> bool" for result where
  count: "p \<notin> set (bp_submitted s) \<Longrightarrow> pool_step result s (blocking_count p s)"
| enqueue: "p \<in> set (bp_submitting s) \<Longrightarrow> pool_step result s (blocking_enqueue p s)"
| take_job: "0 < bp_free s \<Longrightarrow> worker_section (bp_stopping s) (bp_jobs s) = TakeJob p rest \<Longrightarrow>
    pool_step result s (s\<lparr>bp_jobs := rest, bp_running := bp_running s @ [p], bp_free := bp_free s - 1\<rparr>)"
| leave: "0 < bp_free s \<Longrightarrow> worker_section (bp_stopping s) (bp_jobs s) = WorkerReturn \<Longrightarrow>
    pool_step result s (s\<lparr>bp_free := bp_free s - 1, bp_exited := bp_exited s + 1\<rparr>)"
| post: "p \<in> set (bp_running s) \<Longrightarrow> pool_step result s (job_post (result p) p s)"
| uncount: "p \<in> set (bp_posted s) \<Longrightarrow> pool_step result s (job_uncount p s)"
| drain: "bp_tasks s = fn # rest \<Longrightarrow>
    pool_step result s (s\<lparr>bp_tasks := rest, bp_settled := bp_settled s @ [completion_run fn]\<rparr>)"
| stop_workers: "pool_step result s (s\<lparr>bp_stopping := True\<rparr>)"

inductive_cases pool_stepE: "pool_step result s t"

inductive pool_reach :: "(pid \<Rightarrow> 'r outcome) \<Rightarrow> 'r pool \<Rightarrow> 'r pool \<Rightarrow> bool" for result s where
  refl: "pool_reach result s s"
| step: "pool_reach result s t \<Longrightarrow> pool_step result t u \<Longrightarrow> pool_reach result s u"

text \<open>The promises of the completions that wait in the task queue.\<close>

definition posted_jobs :: "'r pool \<Rightarrow> pid list" where
  "posted_jobs s = map (fst \<circ> completion_run) (bp_tasks s)"

lemma completion_run_job [simp]:
  "completion_run (case r of Value out \<Rightarrow> SetValue p out | Exception ex \<Rightarrow> SetException p ex) = (p, r)"
  by (cases r) simp_all

text \<open>Every job is in exactly one place, and the count is the number of jobs not yet taken off.\<close>

definition pool_inv :: "(pid \<Rightarrow> 'r outcome) \<Rightarrow> 'r pool \<Rightarrow> bool" where
  "pool_inv result s \<longleftrightarrow>
     mset (bp_submitted s) = mset (bp_submitting s) + mset (bp_jobs s) + mset (bp_running s) +
       mset (posted_jobs s) + mset (map fst (bp_settled s)) \<and>
     distinct (bp_submitted s) \<and>
     bp_pending s = length (bp_submitting s) + length (bp_jobs s) + length (bp_running s) + length (bp_posted s) \<and>
     (\<forall>(p, r) \<in> set (map completion_run (bp_tasks s) @ bp_settled s). r = result p) \<and>
     (0 < bp_exited s \<longrightarrow> bp_stopping s)"

lemma worker_section_TakeJob: "worker_section stopping jobs = TakeJob p rest \<longleftrightarrow> jobs = p # rest"
  by (cases jobs) (auto simp: worker_section_def)

lemma worker_section_WorkerReturn: "worker_section stopping jobs = WorkerReturn \<longleftrightarrow> stopping \<and> jobs = []"
  by (auto simp: worker_section_def)

lemma pool_inv_init: "pool_inv result (pool_init n)"
  by (simp add: pool_inv_def pool_init_def posted_jobs_def)

lemma remove1_split:
  assumes "p \<in> set xs"
  obtains ys where "remove1 p xs = ys" "mset xs = add_mset p (mset ys)" "length xs = Suc (length ys)"
proof
  show "mset xs = add_mset p (mset (remove1 p xs))" using assms by simp
  then show "length xs = Suc (length (remove1 p xs))" by (metis size_add_mset size_mset)
qed simp

lemma pool_inv_step: "pool_step result s t \<Longrightarrow> pool_inv result s \<Longrightarrow> pool_inv result t"
proof (induction rule: pool_step.induct)
  case (enqueue p s)
  obtain ys where "remove1 p (bp_submitting s) = ys" "mset (bp_submitting s) = add_mset p (mset ys)"
    "length (bp_submitting s) = Suc (length ys)" by (rule remove1_split [OF enqueue.hyps])
  then show ?case using enqueue.prems by (simp add: pool_inv_def posted_jobs_def blocking_enqueue_def)
next
  case (post p s)
  obtain ys where "remove1 p (bp_running s) = ys" "mset (bp_running s) = add_mset p (mset ys)"
    "length (bp_running s) = Suc (length ys)" by (rule remove1_split [OF post.hyps])
  then show ?case using post.prems by (auto simp: pool_inv_def posted_jobs_def job_post_def)
next
  case (uncount p s)
  obtain ys where "remove1 p (bp_posted s) = ys" "length (bp_posted s) = Suc (length ys)"
    by (rule remove1_split [OF uncount.hyps])
  then show ?case using uncount.prems by (simp add: pool_inv_def posted_jobs_def job_uncount_def)
qed (auto simp: pool_inv_def posted_jobs_def blocking_count_def worker_section_TakeJob worker_section_WorkerReturn)

lemma pool_reach_inv: "pool_reach result s t \<Longrightarrow> pool_inv result s \<Longrightarrow> pool_inv result t"
  by (induction rule: pool_reach.induct) (auto intro: pool_inv_step)

text \<open>
  Between two readings by the loop's fiber no new job is counted when no fiber is active: jobs come
  from fibers of this loop.
\<close>

inductive quiet_reach :: "(pid \<Rightarrow> 'r outcome) \<Rightarrow> 'r pool \<Rightarrow> 'r pool \<Rightarrow> bool" for result s where
  quiet_refl: "quiet_reach result s s"
| quiet_step: "quiet_reach result s t \<Longrightarrow> pool_step result t u \<Longrightarrow> bp_submitted u = bp_submitted t \<Longrightarrow>
    quiet_reach result s u"

lemma quiet_pending:
  assumes "quiet_reach result s t" "pool_inv result s" "bp_pending s = 0"
  shows "pool_inv result t \<and> bp_pending t = 0 \<and> bp_submitted t = bp_submitted s"
  using assms
proof (induction rule: quiet_reach.induct)
  case (quiet_step t u)
  then have t: "pool_inv result t" "bp_pending t = 0" "bp_submitted t = bp_submitted s" by auto
  then have e: "bp_submitting t = []" "bp_jobs t = []" "bp_running t = []" "bp_posted t = []"
    by (auto simp: pool_inv_def)
  have "bp_pending u = 0"
    using quiet_step.hyps(2) quiet_step.hyps(3) t(2) e
    by (cases rule: pool_step.cases) (auto simp: blocking_count_def worker_section_TakeJob)
  then show ?case using pool_inv_step quiet_step.hyps t by auto
qed simp

subsection \<open>Progress\<close>

text \<open>
  A step of callers, workers or the loop on the jobs there are: no new job, and the workers are not told
  to stop. Each such step takes a job nearer to its end.
\<close>

definition work_step :: "(pid \<Rightarrow> 'r outcome) \<Rightarrow> 'r pool \<Rightarrow> 'r pool \<Rightarrow> bool" where
  "work_step result s t \<longleftrightarrow> pool_step result s t \<and> bp_submitted t = bp_submitted s \<and> \<not> bp_stopping t"

definition work_left :: "'r pool \<Rightarrow> nat" where
  "work_left s = 5 * length (bp_submitting s) + 4 * length (bp_jobs s) + 3 * length (bp_running s) +
     length (bp_tasks s) + length (bp_posted s)"

lemma length_remove1_Suc: "p \<in> set xs \<Longrightarrow> length xs = Suc (length (remove1 p xs))"
  by (induction xs) auto

lemma work_step_decreases: "work_step result s t \<Longrightarrow> work_left t < work_left s"
  unfolding work_step_def
proof (elim conjE)
  assume "pool_step result s t" "bp_submitted t = bp_submitted s" "\<not> bp_stopping t"
  then show ?thesis
  proof (induction rule: pool_step.induct)
    case (enqueue p s)
    then show ?case using length_remove1_Suc [OF enqueue.hyps] by (simp add: work_left_def blocking_enqueue_def)
  next
    case (post p s)
    then show ?case using length_remove1_Suc [OF post.hyps] by (simp add: work_left_def job_post_def Let_def)
  next
    case (uncount p s)
    then show ?case using length_remove1_Suc [OF uncount.hyps] by (simp add: work_left_def job_uncount_def)
  qed (auto simp: work_left_def blocking_count_def worker_section_TakeJob worker_section_WorkerReturn)
qed

text \<open>No worker is lost: each is free, busy with a job, or gone.\<close>

definition workers_inv :: "nat \<Rightarrow> 'r pool \<Rightarrow> bool" where
  "workers_inv n s \<longleftrightarrow> bp_free s + length (bp_running s) + length (bp_posted s) + bp_exited s = n"

lemma workers_inv_step: "pool_step result s t \<Longrightarrow> workers_inv n s \<Longrightarrow> workers_inv n t"
proof (induction rule: pool_step.induct)
  case (post p s)
  then show ?case using length_remove1_Suc [OF post.hyps] by (simp add: workers_inv_def job_post_def Let_def)
next
  case (uncount p s)
  then show ?case using length_remove1_Suc [OF uncount.hyps] by (simp add: workers_inv_def job_uncount_def)
qed (auto simp: workers_inv_def blocking_count_def blocking_enqueue_def)

lemma workers_inv_reach: "pool_reach result s t \<Longrightarrow> workers_inv n s \<Longrightarrow> workers_inv n t"
  by (induction rule: pool_reach.induct) (auto intro: workers_inv_step)

lemma worker_count_pos: "0 < worker_count blocking_threads hw"
  by (simp add: worker_count_def)

lemma work_stuck_settled:
  assumes "pool_inv result s" "workers_inv n s" "0 < n" "\<not> bp_stopping s" "\<nexists>t. work_step result s t"
  shows "mset (bp_submitted s) = mset (map fst (bp_settled s))"
proof -
  have no: "\<not> pool_step result s t" if "bp_submitted t = bp_submitted s" "\<not> bp_stopping t" for t
    using assms(5) that by (auto simp: work_step_def)
  have "bp_submitting s = []"
    using no [OF _ _ ] pool_step.enqueue [of "hd (bp_submitting s)" s result] assms(4)
    by (cases "bp_submitting s") (auto simp: blocking_enqueue_def)
  moreover have run: "bp_running s = []"
    using no pool_step.post [of "hd (bp_running s)" s result] assms(4)
    by (cases "bp_running s") (auto simp: job_post_def Let_def)
  moreover have posted: "bp_posted s = []"
    using no pool_step.uncount [of "hd (bp_posted s)" s result] assms(4)
    by (cases "bp_posted s") (auto simp: job_uncount_def)
  moreover have "bp_tasks s = []"
    using no pool_step.drain [of s "hd (bp_tasks s)" "tl (bp_tasks s)" result] assms(4)
    by (cases "bp_tasks s") auto
  moreover have "bp_jobs s = []"
  proof (rule ccontr)
    assume "bp_jobs s \<noteq> []"
    then have "worker_section (bp_stopping s) (bp_jobs s) = TakeJob (hd (bp_jobs s)) (tl (bp_jobs s))"
      by (simp add: worker_section_TakeJob)
    moreover have "0 < bp_free s" using assms(1-4) run posted by (auto simp: pool_inv_def workers_inv_def)
    ultimately show False using no [OF _ _] pool_step.take_job [of s "hd (bp_jobs s)" "tl (bp_jobs s)" result] assms(4)
      by auto
  qed
  ultimately show ?thesis using assms(1) by (simp add: pool_inv_def posted_jobs_def)
qed

lemma work_steps_keep:
  assumes "(work_step result)\<^sup>*\<^sup>* s t" "pool_inv result s" "workers_inv n s" "\<not> bp_stopping s"
  shows "pool_inv result t \<and> workers_inv n t \<and> \<not> bp_stopping t \<and> bp_submitted t = bp_submitted s"
  using assms
  by (induction rule: rtranclp_induct) (auto simp: work_step_def intro: pool_inv_step workers_inv_step)

subsection \<open>Properties\<close>

text \<open>
  C13. Under every interleaving each \<open>run_blocking\<close> job has its promise set at most once, with the
  value or the exception its own task ended with, and until then the job is counted: submitted jobs are, each exactly once,
  waiting, running, posted or settled.
\<close>

theorem run_blocking_settled_once:
  assumes "pool_reach result (pool_init n) s"
  shows "distinct (map fst (bp_settled s)) \<and> (\<forall>(p, r) \<in> set (bp_settled s). r = result p) \<and>
    mset (bp_submitted s) = mset (bp_submitting s) + mset (bp_jobs s) + mset (bp_running s) + mset (posted_jobs s) +
      mset (map fst (bp_settled s)) \<and>
    bp_pending s = length (bp_submitting s) + length (bp_jobs s) + length (bp_running s) + length (bp_posted s)"
proof -
  have i: "pool_inv result s" using pool_reach_inv [OF assms pool_inv_init] .
  have d: "distinct (bp_submitted s)" and m: "mset (bp_submitted s) = mset (bp_submitting s) + mset (bp_jobs s) +
      mset (bp_running s) + mset (posted_jobs s) + mset (map fst (bp_settled s))"
    using i by (simp_all add: pool_inv_def)
  let ?all = "bp_submitting s @ bp_jobs s @ bp_running s @ posted_jobs s @ map fst (bp_settled s)"
  have "mset (bp_submitted s) = mset ?all" using m by simp
  then have "distinct ?all" using d mset_eq_imp_distinct_iff by blast
  then show ?thesis using i m by (simp add: pool_inv_def)
qed

lemma demo_pool_step1: "pool_reach result (pool_init 1) (blocking_count 5 (pool_init 1))"
  by (rule pool_reach.step [OF pool_reach.refl pool_step.count]) (simp add: pool_init_def)

definition demo_pool :: "nat pool" where
  "demo_pool = \<lparr>bp_submitting = [], bp_jobs = [], bp_running = [], bp_posted = [], bp_tasks = [], bp_pending = 0,
     bp_stopping = False, bp_free = 1, bp_exited = 0, bp_submitted = [5], bp_settled = [(5, Value 42)]\<rparr>"

lemma demo_pool_reach: "pool_reach (\<lambda>p. Value 42) (pool_init 1) demo_pool"
proof -
  let ?r = "\<lambda>p. Value 42 :: nat outcome"
  let ?s1 = "blocking_count 5 (pool_init 1)" and ?s2 = "blocking_enqueue 5 (blocking_count 5 (pool_init 1))"
  let ?s3 = "?s2\<lparr>bp_jobs := [], bp_running := [5], bp_free := 0\<rparr>"
  have 1: "pool_reach ?r (pool_init 1) ?s1" by (rule demo_pool_step1)
  have 2: "pool_reach ?r (pool_init 1) ?s2"
    by (rule pool_reach.step [OF 1 pool_step.enqueue]) (simp add: blocking_count_def pool_init_def)
  have w: "0 < bp_free ?s2" "worker_section (bp_stopping ?s2) (bp_jobs ?s2) = TakeJob 5 []"
    by (simp_all add: blocking_enqueue_def blocking_count_def pool_init_def worker_section_def)
  have 3: "pool_reach ?r (pool_init 1) ?s3"
    using pool_reach.step [OF 2 pool_step.take_job [OF w]]
    by (simp add: blocking_enqueue_def blocking_count_def pool_init_def)
  let ?s4 = "job_post (Value 42) 5 ?s3"
  have 4: "pool_reach ?r (pool_init 1) ?s4"
    using pool_reach.step [OF 3 pool_step.post [of 5]] by simp
  have 5: "pool_reach ?r (pool_init 1) (job_uncount 5 ?s4)"
    by (rule pool_reach.step [OF 4 pool_step.uncount])
      (simp add: job_post_def blocking_enqueue_def blocking_count_def pool_init_def)
  have "bp_tasks (job_uncount 5 ?s4) = SetValue 5 42 # []"
    by (simp add: job_uncount_def job_post_def blocking_enqueue_def blocking_count_def pool_init_def)
  from pool_reach.step [OF 5 pool_step.drain [OF this]] show ?thesis
    by (simp add: demo_pool_def job_uncount_def job_post_def blocking_enqueue_def blocking_count_def pool_init_def)
qed

theorem run_blocking_settled_once_witness:
  "distinct (map fst (bp_settled demo_pool)) \<and> bp_settled demo_pool = [(5, Value 42)]"
  using run_blocking_settled_once [OF demo_pool_reach] by (simp add: demo_pool_def)

text \<open>
  The idle test of \<open>run\<close> cannot lose a completion: if it reads a zero count of blocking jobs and,
  later, after any steps of the workers, an empty task queue, then every job has its promise set.
  The order of the two readings, and that workers post before they uncount, is what makes it hold.
\<close>

theorem idle_exit_complete:
  assumes "pool_reach result (pool_init n) s" "bp_pending s = 0" "quiet_reach result s t" "bp_tasks t = []"
  shows "mset (bp_submitted t) = mset (map fst (bp_settled t))"
proof -
  have "pool_inv result t \<and> bp_pending t = 0"
    using quiet_pending [OF assms(3) pool_reach_inv [OF assms(1) pool_inv_init] assms(2)] by blast
  then show ?thesis using assms(4) by (auto simp: pool_inv_def posted_jobs_def)
qed

theorem idle_exit_complete_witness:
  "mset (bp_submitted demo_pool) = mset (map fst (bp_settled demo_pool))"
  using idle_exit_complete [OF demo_pool_reach _ quiet_reach.quiet_refl] by (simp add: demo_pool_def)

text \<open>
  C12. As long as the workers are not told to stop, every job comes to its end: from any reachable
  state of a pool made by the constructor, the steps on the jobs there are cannot go on for ever,
  and where no further step is possible every promise has been set.
\<close>

theorem run_blocking_all_settle:
  assumes "pool_reach result (pool_init (worker_count blocking_threads hw)) s" "\<not> bp_stopping s"
  shows "(\<nexists>f. f 0 = s \<and> (\<forall>i :: nat. work_step result (f i) (f (Suc i)))) \<and>
    (\<forall>t. (work_step result)\<^sup>*\<^sup>* s t \<and> (\<nexists>u. work_step result t u) \<longrightarrow>
      mset (map fst (bp_settled t)) = mset (bp_submitted s))"
proof (intro conjI allI impI)
  let ?n = "worker_count blocking_threads hw"
  have "wf (measure (work_left :: 'a pool \<Rightarrow> nat))" by simp
  then have "\<nexists>f. \<forall>i. (f (Suc i), f i) \<in> measure (work_left :: 'a pool \<Rightarrow> nat)"
    by (simp add: wf_iff_no_infinite_down_chain)
  then show "\<nexists>f. f 0 = s \<and> (\<forall>i :: nat. work_step result (f i) (f (Suc i)))"
    using work_step_decreases [of result] by (metis in_measure)
  fix t assume t: "(work_step result)\<^sup>*\<^sup>* s t \<and> (\<nexists>u. work_step result t u)"
  have "pool_inv result s" using pool_reach_inv [OF assms(1) pool_inv_init] .
  moreover have "workers_inv ?n s"
    using workers_inv_reach [OF assms(1)] by (simp add: workers_inv_def pool_init_def)
  ultimately have k: "pool_inv result t" "workers_inv ?n t" "\<not> bp_stopping t" "bp_submitted t = bp_submitted s"
    using work_steps_keep [of result s t ?n] t assms(2) by blast+
  then show "mset (map fst (bp_settled t)) = mset (bp_submitted s)"
    using work_stuck_settled [OF k(1,2) worker_count_pos k(3)] t by simp
qed

theorem run_blocking_all_settle_witness:
  "\<nexists>f. f 0 = blocking_count 5 (pool_init 1) \<and> (\<forall>i :: nat. work_step (\<lambda>p. Value (42 :: nat)) (f i) (f (Suc i)))"
proof -
  have "pool_reach (\<lambda>p. Value (42 :: nat)) (pool_init (worker_count 1 0)) (blocking_count 5 (pool_init 1))"
    using demo_pool_step1 by (simp add: worker_count_def)
  moreover have "\<not> bp_stopping (blocking_count 5 (pool_init 1))" by (simp add: blocking_count_def pool_init_def)
  ultimately show ?thesis using run_blocking_all_settle by blast
qed

end
