(* ===== verification/Loop_Fibers.thy ===== *)
theory Loop_Fibers
  imports Prelude
begin

text \<open>
  Who runs what on the loop's thread (src/event_loop.cpp, \<open>run\<close> and \<open>drain_loop_tasks\<close>). libuv callbacks
  are run by \<open>uv_run\<close>, which only the fiber inside \<open>EventLoop::run\<close> calls; the same fiber runs the
  dispatched tasks, one after the other. Other fibers are those made by \<open>spawn\<close>. A closure that waits
  starts a libuv request whose callback sets the promise \<open>p\<close>, and is suspended in \<open>future.get()\<close> until then.
\<close>

datatype loop_task = PlainTask | WaitingTask pid

datatype run_fiber = Running | SuspendedOn pid

record fiber_sys =
  fb_run :: run_fiber
  fb_tasks :: "loop_task list"
  fb_requests :: "pid list"
  fb_set :: "pid list"
  fb_waiting :: "pid list"

inductive fiber_step :: "fiber_sys \<Rightarrow> fiber_sys \<Rightarrow> bool" where
  uv_callback: "fb_run s = Running \<Longrightarrow> p \<in> set (fb_requests s) \<Longrightarrow>
    fiber_step s (s\<lparr>fb_requests := remove1 p (fb_requests s), fb_set := fb_set s @ [p]\<rparr>)"
| drain_plain: "fb_run s = Running \<Longrightarrow> fb_tasks s = PlainTask # rest \<Longrightarrow> fiber_step s (s\<lparr>fb_tasks := rest\<rparr>)"
| drain_waiting: "fb_run s = Running \<Longrightarrow> fb_tasks s = WaitingTask p # rest \<Longrightarrow>
    fiber_step s (s\<lparr>fb_tasks := rest, fb_requests := fb_requests s @ [p], fb_run := SuspendedOn p\<rparr>)"
| run_resume: "fb_run s = SuspendedOn p \<Longrightarrow> p \<in> set (fb_set s) \<Longrightarrow> fiber_step s (s\<lparr>fb_run := Running\<rparr>)"
| fiber_wait: "fiber_step s (s\<lparr>fb_requests := fb_requests s @ [p], fb_waiting := fb_waiting s @ [p]\<rparr>)"
| fiber_resume: "p \<in> set (fb_waiting s) \<Longrightarrow> p \<in> set (fb_set s) \<Longrightarrow>
    fiber_step s (s\<lparr>fb_waiting := remove1 p (fb_waiting s)\<rparr>)"
| post_task: "fiber_step s (s\<lparr>fb_tasks := fb_tasks s @ [t]\<rparr>)"

inductive_simps fiber_step_simps: "fiber_step s t"

text \<open>
  A dispatched closure that waits for a libuv callback stops the loop for good: once the fiber of
  \<open>run\<close> is suspended on an unset promise, no callback, task or further post ever sets it, so neither
  the closure nor the thread that dispatched it returns. A spawned fiber that waits has no such
  effect: while \<open>run\<close> is not suspended, the callback of any request can be delivered.
\<close>

theorem dispatched_wait_deadlocks:
  assumes "fiber_step\<^sup>*\<^sup>* s t" "fb_run s = SuspendedOn p" "p \<notin> set (fb_set s)"
  shows "fb_run t = SuspendedOn p \<and> fb_set t = fb_set s \<and>
    (\<forall>u q. fb_run u = Running \<and> q \<in> set (fb_requests u) \<longrightarrow> (\<exists>v. fiber_step u v \<and> q \<in> set (fb_set v)))"
proof -
  have "fb_run t = SuspendedOn p \<and> fb_set t = fb_set s"
    using assms(1)
  proof (induction rule: rtranclp_induct)
    case (step t u)
    then show ?case using assms(3) by (auto simp: fiber_step_simps)
  qed (simp add: assms(2))
  moreover have "\<exists>v. fiber_step u v \<and> q \<in> set (fb_set v)" if "fb_run u = Running" "q \<in> set (fb_requests u)" for u q
    using fiber_step.uv_callback [OF that] by (intro exI conjI) auto
  ultimately show ?thesis by blast
qed

definition waiting_task_posted :: fiber_sys where
  "waiting_task_posted = \<lparr>fb_run = Running, fb_tasks = [WaitingTask 4], fb_requests = [], fb_set = [], fb_waiting = []\<rparr>"

definition run_suspended :: fiber_sys where
  "run_suspended = \<lparr>fb_run = SuspendedOn 4, fb_tasks = [], fb_requests = [4], fb_set = [], fb_waiting = []\<rparr>"

theorem dispatched_wait_deadlocks_witness:
  "fiber_step waiting_task_posted run_suspended \<and>
   (\<exists>t. fiber_step run_suspended t \<and> fb_tasks t = [PlainTask] \<and> fb_run t = SuspendedOn 4 \<and> fb_set t = [])"
proof -
  have "fiber_step waiting_task_posted run_suspended"
    using fiber_step.drain_waiting [of waiting_task_posted 4 "[]"]
    by (simp add: waiting_task_posted_def run_suspended_def)
  moreover have step: "fiber_step run_suspended (run_suspended\<lparr>fb_tasks := [PlainTask]\<rparr>)"
    using fiber_step.post_task [of run_suspended PlainTask] by (simp add: run_suspended_def)
  moreover have "fb_run (run_suspended\<lparr>fb_tasks := [PlainTask]\<rparr>) = SuspendedOn 4 \<and>
      fb_set (run_suspended\<lparr>fb_tasks := [PlainTask]\<rparr>) = fb_set run_suspended"
    using dispatched_wait_deadlocks [OF r_into_rtranclp [of fiber_step, OF step], of 4]
    by (simp add: run_suspended_def)
  ultimately show ?thesis
    by (intro conjI exI [of _ "run_suspended\<lparr>fb_tasks := [PlainTask]\<rparr>"]) (simp_all add: run_suspended_def)
qed

end
