(* ===== verification/Task_Scope.thy ===== *)
theory Task_Scope
  imports Prelude
begin

text \<open>
  \<open>TaskScope\<close> (include/fiberuv/fiberuv.hpp): structured concurrency over the fibers of a loop. The record
  has the fields of \<open>SharedState\<close> that carry data. Each operation takes the shared pointer as an
  \<open>option\<close>. \<open>join\<close> and \<open>join_for\<close> are split at the wait on their condition variable: the guards before it,
  the predicate, and what follows. The waiting itself, with its notifications, is the step
  relation of the second part.
\<close>

record scope_state =
  ts_cancel_requested :: bool
  ts_active :: nat
  ts_first_exception :: "err option"

definition scope_init :: scope_state where
  "scope_init = \<lparr>ts_cancel_requested = False, ts_active = 0, ts_first_exception = None\<rparr>"

definition scope_spawn :: "scope_state option \<Rightarrow> unit reply \<times> scope_state option" where
  "scope_spawn ptr =
     (case ptr of
        None \<Rightarrow> (Throw (RuntimeError ''TaskScope is not initialized''), None)
      | Some state \<Rightarrow> (Return (), Some (state\<lparr>ts_active := ts_active state + 1\<rparr>)))"

text \<open>The end of the spawned fiber: the handler of an exception, then the decrement and its test.\<close>

definition scope_catch :: "err \<Rightarrow> scope_state \<Rightarrow> scope_state" where
  "scope_catch ex state =
     (let state1 = (if ts_first_exception state = None then state\<lparr>ts_first_exception := Some ex\<rparr> else state) in
      state1\<lparr>ts_cancel_requested := True\<rparr>)"

definition scope_leave :: "scope_state \<Rightarrow> bool \<times> scope_state" where
  "scope_leave state = (ts_active state = 1, state\<lparr>ts_active := ts_active state - 1\<rparr>)"

definition scope_task_end :: "unit outcome \<Rightarrow> scope_state \<Rightarrow> bool \<times> scope_state" where
  "scope_task_end r state = scope_leave (case r of Value _ \<Rightarrow> state | Exception ex \<Rightarrow> scope_catch ex state)"

definition stop_requested :: "scope_state option \<Rightarrow> bool" where
  "stop_requested weak = (case weak of None \<Rightarrow> True | Some state \<Rightarrow> ts_cancel_requested state)"

definition request_cancel :: "scope_state option \<Rightarrow> scope_state option" where
  "request_cancel ptr = map_option (\<lambda>state. state\<lparr>ts_cancel_requested := True\<rparr>) ptr"

definition cancel_requested :: "scope_state option \<Rightarrow> bool" where
  "cancel_requested ptr = (case ptr of None \<Rightarrow> True | Some state \<Rightarrow> ts_cancel_requested state)"

text \<open>\<open>join\<close>: the predicates of the two waits, and the code after them.\<close>

definition join_pred :: "bool \<Rightarrow> loop_lifetime_token \<Rightarrow> scope_state \<Rightarrow> bool" where
  "join_pred on_loop token state \<longleftrightarrow>
     (if on_loop then ts_active state = 0 else ts_active state = 0 \<or> \<not> is_loop_alive token)"

definition rethrow_first :: "scope_state \<Rightarrow> err + unit" where
  "rethrow_first state = (case ts_first_exception state of None \<Rightarrow> Inr () | Some ex \<Rightarrow> Inl ex)"

definition join_before :: "loop_lifetime_token \<Rightarrow> scope_state option \<Rightarrow> (err + unit) option" where
  "join_before token ptr =
     (case ptr of
        None \<Rightarrow> Some (Inr ())
      | Some state \<Rightarrow> if \<not> is_loop_alive token then Some (Inr ()) else None)"

definition join_after :: "bool \<Rightarrow> loop_lifetime_token \<Rightarrow> scope_state \<Rightarrow> err + unit" where
  "join_after on_loop token state =
     (if \<not> on_loop \<and> \<not> is_loop_alive token \<and> ts_active state > 0 then Inr () else rethrow_first state)"

text \<open>
  The whole of \<open>join\<close>: \<open>tests\<close> are the scope and the lifetime token found at the successive tests of the predicate, and \<open>None\<close> is a
  call that still waits after them.
\<close>

fun join_wait :: "bool \<Rightarrow> (scope_state \<times> loop_lifetime_token) list \<Rightarrow> (scope_state \<times> loop_lifetime_token) option" where
  "join_wait on_loop [] = None"
| "join_wait on_loop ((state, token) # tests) =
     (if join_pred on_loop token state then Some (state, token) else join_wait on_loop tests)"

definition scope_join ::
  "bool \<Rightarrow> loop_lifetime_token \<Rightarrow> scope_state option \<Rightarrow> (scope_state \<times> loop_lifetime_token) list \<Rightarrow> (err + unit) option" where
  "scope_join on_loop token ptr tests =
     (case join_before token ptr of
        Some r \<Rightarrow> Some r
      | None \<Rightarrow> map_option (\<lambda>(state, token'). join_after on_loop token' state) (join_wait on_loop tests))"

definition join_for_before :: "loop_lifetime_token \<Rightarrow> scope_state option \<Rightarrow> bool option" where
  "join_for_before token ptr =
     (case ptr of
        None \<Rightarrow> Some True
      | Some state \<Rightarrow> if \<not> is_loop_alive token then Some (ts_active state = 0) else None)"

text \<open>\<open>done\<close> is what \<open>wait_for\<close> returned: the value of the predicate when the wait ended.\<close>

definition join_for_after :: "bool \<Rightarrow> bool \<Rightarrow> loop_lifetime_token \<Rightarrow> scope_state \<Rightarrow> err + bool" where
  "join_for_after on_loop waited token state =
     (if \<not> waited then Inr False
      else if \<not> on_loop \<and> \<not> is_loop_alive token \<and> ts_active state > 0 then Inr False
      else map_sum id (\<lambda>_. True) (rethrow_first state))"

subsection \<open>Tasks and their outcome\<close>

datatype scope_op = ScopeSpawn | ScopeEnd "unit outcome" | ScopeCancel

fun scope_do :: "scope_op \<Rightarrow> scope_state \<Rightarrow> scope_state" where
  "scope_do ScopeSpawn state = the (snd (scope_spawn (Some state)))"
| "scope_do (ScopeEnd r) state = snd (scope_task_end r state)"
| "scope_do ScopeCancel state = the (request_cancel (Some state))"

fun failures :: "scope_op list \<Rightarrow> err list" where
  "failures [] = []"
| "failures (ScopeEnd (Exception ex) # ops) = ex # failures ops"
| "failures (a # ops) = failures ops"

text \<open>The tasks alive after a history; a fiber ends only if it was spawned.\<close>

fun scope_live :: "nat \<Rightarrow> scope_op list \<Rightarrow> nat option" where
  "scope_live n [] = Some n"
| "scope_live n (ScopeSpawn # ops) = scope_live (Suc n) ops"
| "scope_live n (ScopeEnd r # ops) = (if n = 0 then None else scope_live (n - 1) ops)"
| "scope_live n (ScopeCancel # ops) = scope_live n ops"

lemma scope_history:
  assumes "scope_live (ts_active state) ops = Some n"
  shows "ts_active (fold scope_do ops state) = n \<and>
    ts_first_exception (fold scope_do ops state) =
      (case ts_first_exception state of Some ex \<Rightarrow> Some ex | None \<Rightarrow> (case failures ops of [] \<Rightarrow> None | ex # _ \<Rightarrow> Some ex)) \<and>
    (ts_cancel_requested (fold scope_do ops state) \<longleftrightarrow>
      ts_cancel_requested state \<or> failures ops \<noteq> [] \<or> ScopeCancel \<in> set ops)"
  using assms
proof (induction ops arbitrary: state)
  case (Cons a ops)
  let ?s = "scope_do a state"
  have live: "scope_live (ts_active ?s) ops = Some n"
    using Cons.prems
    by (cases a) (auto simp: scope_spawn_def scope_task_end_def scope_leave_def scope_catch_def request_cancel_def
        Let_def split: if_splits outcome.splits)
  show ?case
  proof (cases a)
    case (ScopeEnd r)
    then show ?thesis using Cons.IH [OF live]
      by (cases r) (auto simp: scope_task_end_def scope_leave_def scope_catch_def Let_def split: option.splits)
  qed (use Cons.IH [OF live] in \<open>auto simp: scope_spawn_def request_cancel_def split: option.splits\<close>)
qed (simp split: option.splits)

lemma scope_live_append:
  "scope_live n (ops @ ops') = Option.bind (scope_live n ops) (\<lambda>m. scope_live m ops')"
  by (induction n ops rule: scope_live.induct) simp_all

text \<open>The tests of a \<open>join\<close> between which the scope goes through pieces of a history.\<close>

fun scope_tests :: "scope_state \<Rightarrow> (scope_op list \<times> loop_lifetime_token) list \<Rightarrow> (scope_state \<times> loop_lifetime_token) list" where
  "scope_tests state [] = []"
| "scope_tests state ((ops, token) # later) = (fold scope_do ops state, token) # scope_tests (fold scope_do ops state) later"

definition upto_test :: "scope_op list \<Rightarrow> (scope_op list \<times> loop_lifetime_token) list \<Rightarrow> nat \<Rightarrow> scope_op list" where
  "upto_test ops later k = ops @ concat (map fst (take (Suc k) later))"

lemma join_wait_tests:
  "join_wait on_loop (scope_tests (fold scope_do ops state) later) = Some (st, token) \<Longrightarrow>
   \<exists>k < length later. st = fold scope_do (upto_test ops later k) state \<and> token = snd (later ! k) \<and> join_pred on_loop token st"
proof (induction later arbitrary: ops)
  case (Cons a later)
  obtain more tok where a: "a = (more, tok)" by fastforce
  show ?case
  proof (cases "join_pred on_loop tok (fold scope_do (ops @ more) state)")
    case True
    then show ?thesis using Cons.prems a by (intro exI [of _ 0]) (auto simp: upto_test_def)
  next
    case False
    then obtain k where "k < length later" "st = fold scope_do (upto_test (ops @ more) later k) state" "token = snd (later ! k)"
      "join_pred on_loop token st" using Cons.IH [of "ops @ more"] Cons.prems a by auto
    then show ?thesis using a by (intro exI [of _ "Suc k"]) (simp add: upto_test_def)
  qed
qed simp

lemma join_wait_ends:
  "k < length later \<Longrightarrow> ts_active (fold scope_do (upto_test ops later k) state) = 0 \<Longrightarrow>
   join_wait on_loop (scope_tests (fold scope_do ops state) later) \<noteq> None"
proof (induction later arbitrary: ops k)
  case (Cons a later)
  obtain more tok where a: "a = (more, tok)" by fastforce
  show ?case
  proof (cases k)
    case 0
    then show ?thesis using Cons.prems a by (simp add: upto_test_def join_pred_def)
  next
    case (Suc j)
    then show ?thesis using Cons.IH [of j "ops @ more"] Cons.prems a by (simp add: upto_test_def)
  qed
qed simp

subsection \<open>Waiting for the last task\<close>

text \<open>
  One joiner and the tasks of the scope, on a live loop. \<open>on_loop\<close>: the joiner is a fiber of the loop, so that
  nothing runs between its test of the predicate and its suspension. Otherwise the joiner is another
  thread; tasks decrement and notify without holding \<open>std_mutex\<close>, so they may run between the two. On the
  thread of the loop a task that ends goes from the decrement to the notification without a suspension.
\<close>

datatype joiner = JoinTesting | JoinBlocking | JoinWaiting | JoinDone

record join_sys =
  jn_scope :: scope_state
  jn_notify :: bool
  jn_pc :: joiner

abbreviation jn_active :: "join_sys \<Rightarrow> nat" where
  "jn_active s \<equiv> ts_active (jn_scope s)"

inductive join_step :: "bool \<Rightarrow> join_sys \<Rightarrow> join_sys \<Rightarrow> bool" for on_loop where
  test_true: "jn_pc s = JoinTesting \<Longrightarrow> join_pred on_loop (Some True) (jn_scope s) \<Longrightarrow>
    join_step on_loop s (s\<lparr>jn_pc := JoinDone\<rparr>)"
| test_false: "jn_pc s = JoinTesting \<Longrightarrow> \<not> join_pred on_loop (Some True) (jn_scope s) \<Longrightarrow>
    join_step on_loop s (s\<lparr>jn_pc := if on_loop then JoinWaiting else JoinBlocking\<rparr>)"
| block: "jn_pc s = JoinBlocking \<Longrightarrow> join_step on_loop s (s\<lparr>jn_pc := JoinWaiting\<rparr>)"
| task_spawns: "jn_active s > 0 \<Longrightarrow> \<not> jn_notify s \<Longrightarrow> scope_spawn (Some (jn_scope s)) = (Return (), Some st) \<Longrightarrow>
    join_step on_loop s (s\<lparr>jn_scope := st\<rparr>)"
| task_ends: "jn_active s > 0 \<Longrightarrow> \<not> jn_notify s \<Longrightarrow> scope_task_end r (jn_scope s) = (is_last, st) \<Longrightarrow>
    join_step on_loop s (s\<lparr>jn_scope := st, jn_notify := is_last\<rparr>)"
| notify: "jn_notify s \<Longrightarrow>
    join_step on_loop s (s\<lparr>jn_notify := False, jn_pc := if jn_pc s = JoinWaiting then JoinTesting else jn_pc s\<rparr>)"

inductive_simps join_step_simps: "join_step on_loop s t"

definition join_start :: "nat \<Rightarrow> join_sys" where
  "join_start n = \<lparr>jn_scope = scope_init\<lparr>ts_active := n\<rparr>, jn_notify = False, jn_pc = JoinTesting\<rparr>"

lemma scope_catch_active [simp]: "ts_active (scope_catch ex st) = ts_active st"
  by (simp add: scope_catch_def Let_def)

lemma scope_task_end_active:
  "scope_task_end r st = (is_last, st') \<Longrightarrow> is_last = (ts_active st = 1) \<and> ts_active st' = ts_active st - 1"
  by (auto simp: scope_task_end_def scope_leave_def split: outcome.splits)

lemma join_on_loop_inv:
  assumes "(join_step True)\<^sup>*\<^sup>* (join_start n) s"
  shows "jn_pc s \<noteq> JoinBlocking \<and> (jn_pc s = JoinWaiting \<longrightarrow> jn_active s > 0 \<or> jn_notify s) \<and>
    (jn_pc s = JoinDone \<longrightarrow> jn_active s = 0)"
  using assms
proof (induction rule: rtranclp_induct)
  case (step s t)
  then show ?case
    by (auto simp: join_step_simps join_pred_def scope_spawn_def dest!: scope_task_end_active split: if_splits)
qed (simp add: join_start_def)

subsection \<open>Properties\<close>

lemma scope_history_live:
  assumes "scope_live 0 (ops @ ops2) = Some n"
  shows "\<exists>m. scope_live 0 ops = Some m \<and> ts_active (fold scope_do ops scope_init) = m \<and>
    rethrow_first (fold scope_do ops scope_init) = (case failures ops of [] \<Rightarrow> Inr () | ex # _ \<Rightarrow> Inl ex)"
proof -
  obtain m where m: "scope_live 0 ops = Some m" using assms by (auto simp: scope_live_append bind_eq_Some_conv)
  then have "scope_live (ts_active scope_init) ops = Some m" by (simp add: scope_init_def)
  from scope_history [OF this] m show ?thesis by (auto simp: scope_init_def rethrow_first_def split: list.splits)
qed

text \<open>
  C29. For any history of spawned, ended and cancelled tasks: the scope counts the tasks alive, and is cancelled exactly when one
  failed or cancellation was asked for. A \<open>join\<close> that begins after a history \<open>ops\<close> and tests its predicate after each piece of \<open>later\<close>
  returns at once, and throws nothing, when the loop is dead already. Otherwise it ends as soon as a test finds no task left, throwing the exception of the
  first task that had failed by then or returning if none had; the only other way it can end is, on a foreign thread, that a
  test finds the loop dead, and then it throws nothing if tasks are left.
\<close>

theorem scope_first_failure:
  assumes "scope_live 0 (ops @ concat (map fst later)) = Some n"
  shows "scope_live 0 ops = Some (ts_active (fold scope_do ops scope_init)) \<and>
    (cancel_requested (Some (fold scope_do ops scope_init)) \<longleftrightarrow> failures ops \<noteq> [] \<or> ScopeCancel \<in> set ops) \<and>
    (\<not> is_loop_alive token \<longrightarrow> scope_join on_loop token (Some (fold scope_do ops scope_init)) tests = Some (Inr ())) \<and>
    (\<forall>r. is_loop_alive token \<and>
      scope_join on_loop token (Some (fold scope_do ops scope_init)) (scope_tests (fold scope_do ops scope_init) later) = Some r \<longrightarrow>
      (\<exists>k < length later.
         (scope_live 0 (upto_test ops later k) = Some 0 \<and> r = (case failures (upto_test ops later k) of [] \<Rightarrow> Inr () | ex # _ \<Rightarrow> Inl ex)) \<or>
         (scope_live 0 (upto_test ops later k) \<noteq> Some 0 \<and> \<not> on_loop \<and> \<not> is_loop_alive (snd (later ! k)) \<and> r = Inr ()))) \<and>
    ((\<exists>k < length later. scope_live 0 (upto_test ops later k) = Some 0) \<longrightarrow>
      scope_join on_loop token (Some (fold scope_do ops scope_init)) (scope_tests (fold scope_do ops scope_init) later) \<noteq> None)"
proof -
  let ?s = "fold scope_do ops scope_init"
  obtain m where m: "scope_live 0 ops = Some m" "ts_active ?s = m" using scope_history_live [OF assms] by blast
  have "scope_live (ts_active scope_init) ops = Some m" using m(1) by (simp add: scope_init_def)
  from scope_history [OF this] have cancel: "cancel_requested (Some ?s) \<longleftrightarrow> failures ops \<noteq> [] \<or> ScopeCancel \<in> set ops"
    by (simp add: cancel_requested_def scope_init_def)
  have live: "\<exists>m. scope_live 0 (upto_test ops later k) = Some m \<and> ts_active (fold scope_do (upto_test ops later k) scope_init) = m \<and>
      rethrow_first (fold scope_do (upto_test ops later k) scope_init) =
        (case failures (upto_test ops later k) of [] \<Rightarrow> Inr () | ex # _ \<Rightarrow> Inl ex)" for k
  proof -
    have "ops @ concat (map fst later) = upto_test ops later k @ concat (map fst (drop (Suc k) later))"
      by (simp add: upto_test_def concat_append [symmetric] map_append [symmetric] del: concat_append map_append)
    then show ?thesis using scope_history_live [of "upto_test ops later k"] assms by simp
  qed
  have ends: "\<exists>k < length later.
         (scope_live 0 (upto_test ops later k) = Some 0 \<and> r = (case failures (upto_test ops later k) of [] \<Rightarrow> Inr () | ex # _ \<Rightarrow> Inl ex)) \<or>
         (scope_live 0 (upto_test ops later k) \<noteq> Some 0 \<and> \<not> on_loop \<and> \<not> is_loop_alive (snd (later ! k)) \<and> r = Inr ())"
    if al: "is_loop_alive token" and j: "scope_join on_loop token (Some ?s) (scope_tests ?s later) = Some r" for r
  proof -
    obtain st tok where w: "join_wait on_loop (scope_tests ?s later) = Some (st, tok)" "r = join_after on_loop tok st"
      using al j by (auto simp: scope_join_def join_before_def)
    then obtain k where k: "k < length later" "st = fold scope_do (upto_test ops later k) scope_init" "tok = snd (later ! k)"
      "join_pred on_loop tok st" using join_wait_tests by blast
    show ?thesis using live [of k] k w(2) by (intro exI [of _ k]) (auto simp: join_after_def join_pred_def split: if_splits)
  qed
  have "scope_join on_loop token (Some ?s) (scope_tests ?s later) \<noteq> None"
    if "k < length later" "scope_live 0 (upto_test ops later k) = Some 0" for k
    using join_wait_ends [OF that(1), of ops scope_init on_loop] live [of k] that(2)
    by (auto simp: scope_join_def join_before_def split: option.splits)
  moreover have "scope_join on_loop token (Some ?s) tests = Some (Inr ())" if "\<not> is_loop_alive token"
    using that by (simp add: scope_join_def join_before_def)
  ultimately show ?thesis using m cancel ends by blast
qed

text \<open>Two tasks that fail while a fiber of the loop joins.\<close>

theorem scope_first_failure_witness:
  "scope_join True (Some True) (Some (fold scope_do [ScopeSpawn, ScopeSpawn] scope_init))
     (scope_tests (fold scope_do [ScopeSpawn, ScopeSpawn] scope_init)
       [([], Some True), ([ScopeEnd (Exception (UserExn 1)), ScopeEnd (Exception (UserExn 2))], Some True)]) = Some (Inl (UserExn 1))"
proof -
  let ?later = "[([], Some True), ([ScopeEnd (Exception (UserExn 1)), ScopeEnd (Exception (UserExn 2))], Some True)]"
  have live: "scope_live 0 ([ScopeSpawn, ScopeSpawn] @ concat (map fst ?later)) = Some 0" by simp
  have k: "upto_test [ScopeSpawn, ScopeSpawn] ?later 0 = [ScopeSpawn, ScopeSpawn]"
    "upto_test [ScopeSpawn, ScopeSpawn] ?later 1 = [ScopeSpawn, ScopeSpawn, ScopeEnd (Exception (UserExn 1)), ScopeEnd (Exception (UserExn 2))]"
    by (simp_all add: upto_test_def)
  have "k < length ?later \<longleftrightarrow> k = 0 \<or> k = 1" for k by auto
  with scope_first_failure [OF live, of "Some True" True "[]"] k show ?thesis by force
qed

text \<open>
  C30. A \<open>join\<close> on the loop's own thread does not miss the end of the last task: a waiting joiner always
  has a live task or a notification on its way, it is done only when no task is left, and until it is
  done some step of the joiner or of a task is possible.
\<close>

theorem scope_join_on_loop:
  assumes "(join_step True)\<^sup>*\<^sup>* (join_start n) s"
  shows "(jn_pc s = JoinWaiting \<longrightarrow> jn_active s > 0 \<or> jn_notify s) \<and> (jn_pc s = JoinDone \<longrightarrow> jn_active s = 0) \<and>
    (jn_pc s \<noteq> JoinDone \<longrightarrow> (\<exists>t. join_step True s t))"
proof -
  have inv: "jn_pc s \<noteq> JoinBlocking \<and> (jn_pc s = JoinWaiting \<longrightarrow> jn_active s > 0 \<or> jn_notify s) \<and>
    (jn_pc s = JoinDone \<longrightarrow> jn_active s = 0)" by (rule join_on_loop_inv [OF assms])
  moreover have "\<exists>t. join_step True s t" if "jn_pc s \<noteq> JoinDone"
  proof (cases "jn_pc s")
    case JoinTesting
    then show ?thesis using join_step.test_true [of s True] join_step.test_false [of s True] by blast
  next
    case JoinWaiting
    obtain is_last st where "scope_task_end (Value ()) (jn_scope s) = (is_last, st)" by (metis surj_pair)
    then show ?thesis using JoinWaiting inv join_step.task_ends [of s "Value ()" is_last st True]
        join_step.notify [of s True] by blast
  qed (use inv that in auto)
  ultimately show ?thesis by blast
qed

theorem scope_join_on_loop_witness:
  "\<exists>s. (join_step True)\<^sup>*\<^sup>* (join_start 1) s \<and> jn_pc s = JoinWaiting \<and> (jn_active s > 0 \<or> jn_notify s)"
proof -
  let ?s = "(join_start 1)\<lparr>jn_pc := JoinWaiting\<rparr>"
  have run: "(join_step True)\<^sup>*\<^sup>* (join_start 1) ?s"
    using join_step.test_false [of "join_start 1" True] by (simp add: join_start_def join_pred_def)
  from scope_join_on_loop [OF this] have "jn_active ?s > 0 \<or> jn_notify ?s" by simp
  with run show ?thesis by (intro exI [of _ ?s]) simp
qed

text \<open>
  A \<open>join\<close> on another thread can miss it: there is a run in which the only task has ended and
  notified, and the joiner waits with nothing left that would wake it.
\<close>

theorem scope_join_lost_wakeup:
  "\<exists>s. (join_step False)\<^sup>*\<^sup>* (join_start 1) s \<and> jn_pc s = JoinWaiting \<and> jn_active s = 0 \<and> \<not> jn_notify s \<and>
     (\<nexists>t. join_step False s t)"
proof (intro exI conjI)
  let ?s0 = "join_start 1"
  let ?s1 = "?s0\<lparr>jn_pc := JoinBlocking\<rparr>"
  let ?s2 = "?s1\<lparr>jn_scope := scope_init, jn_notify := True\<rparr>"
  let ?s3 = "?s1\<lparr>jn_scope := scope_init\<rparr>"
  let ?s4 = "?s3\<lparr>jn_pc := JoinWaiting\<rparr>"
  have "join_step False ?s0 ?s1"
    using join_step.test_false [of ?s0 False] by (simp add: join_start_def join_pred_def)
  moreover have "join_step False ?s1 ?s2"
    using join_step.task_ends [of ?s1 "Value ()" True scope_init False]
    by (simp add: join_start_def scope_task_end_def scope_leave_def scope_init_def)
  moreover have "join_step False ?s2 ?s3" using join_step.notify [of ?s2 False] by (simp add: join_start_def)
  moreover have "join_step False ?s3 ?s4" using join_step.block [of ?s3 False] by simp
  ultimately show "(join_step False)\<^sup>*\<^sup>* ?s0 ?s4" by (meson converse_rtranclp_into_rtranclp r_into_rtranclp)
  show "\<nexists>t. join_step False ?s4 t" by (simp add: join_step_simps scope_init_def join_start_def)
  show "jn_active ?s4 = 0" by (simp add: scope_init_def)
qed (simp_all add: join_start_def)

end
