(* ===== verification/Scope_Loop.thy ===== *)
theory Scope_Loop
  imports Task_Scope Event_Loop
begin

text \<open>
  A \<open>TaskScope\<close> on its event loop. \<open>TaskScope::spawn\<close> counts the task and gives \<open>EventLoop::spawn\<close> a closure that
  catches whatever the task throws, so that a task is counted twice: by the scope until its closure
  is over, and by the loop until the fiber around the closure is over. Other fibers of the
  loop come and go between these steps. \<open>sl_leaving\<close> counts the closures that are over while their fiber
  is not, \<open>sl_others\<close> the fibers that are not of the scope; \<open>sl_failed\<close> and \<open>sl_escaped\<close> record what tasks of
  the scope and other fibers threw.
\<close>

record 'k scope_loop =
  sl_loop :: "'k event_loop"
  sl_scope :: scope_state
  sl_leaving :: nat
  sl_others :: nat
  sl_failed :: "err list"
  sl_escaped :: nat

definition scope_loop_start :: "'k event_loop \<Rightarrow> 'k scope_loop" where
  "scope_loop_start s = \<lparr>sl_loop = s, sl_scope = scope_init, sl_leaving = 0, sl_others = el_active_fibers s,
     sl_failed = [], sl_escaped = el_exception_count s\<rparr>"

text \<open>\<open>TaskScope::spawn\<close> with the \<open>EventLoop::spawn\<close> it calls.\<close>

definition scope_spawn_on :: "'k \<Rightarrow> scope_state option \<times> 'k event_loop \<Rightarrow> unit reply \<times> scope_state option \<times> 'k event_loop" where
  "scope_spawn_on closure sl =
     (case scope_spawn (fst sl) of
        (Return u, ptr) \<Rightarrow> (Return u, ptr, spawn closure (snd sl))
      | (r, ptr) \<Rightarrow> (r, ptr, snd sl))"

fun failed_with :: "unit outcome \<Rightarrow> err list" where
  "failed_with (Value _) = []"
| "failed_with (Exception ex) = [ex]"

inductive scope_loop_step ::
  "(err \<Rightarrow> 'k event_loop \<Rightarrow> 'k event_loop) \<Rightarrow> 'k scope_loop \<Rightarrow> 'k scope_loop \<Rightarrow> bool" for handler where
  scope_task: "scope_spawn_on closure (Some (sl_scope s), sl_loop s) = (Return (), Some st, el) \<Longrightarrow>
    scope_loop_step handler s (s\<lparr>sl_scope := st, sl_loop := el\<rparr>)"
| closure_ends: "0 < ts_active (sl_scope s) \<Longrightarrow>
    scope_loop_step handler s (s\<lparr>sl_scope := snd (scope_task_end r (sl_scope s)), sl_leaving := sl_leaving s + 1,
      sl_failed := sl_failed s @ failed_with r\<rparr>)"
| fiber_ends: "0 < sl_leaving s \<Longrightarrow>
    scope_loop_step handler s (s\<lparr>sl_leaving := sl_leaving s - 1, sl_loop := fiber_body handler (Value ()) (sl_loop s)\<rparr>)"
| other_spawns: "scope_loop_step handler s (s\<lparr>sl_others := sl_others s + 1, sl_loop := spawn fn (sl_loop s)\<rparr>)"
| other_ends: "0 < sl_others s \<Longrightarrow>
    scope_loop_step handler s (s\<lparr>sl_others := sl_others s - 1, sl_loop := fiber_body handler r (sl_loop s),
      sl_escaped := sl_escaped s + length (failed_with r)\<rparr>)"
| cancel: "request_cancel (Some (sl_scope s)) = Some st \<Longrightarrow> scope_loop_step handler s (s\<lparr>sl_scope := st\<rparr>)"

text \<open>A handler reports: it leaves the counters of the loop alone.\<close>

definition reporting :: "(err \<Rightarrow> 'k event_loop \<Rightarrow> 'k event_loop) \<Rightarrow> bool" where
  "reporting handler \<longleftrightarrow> (\<forall>ex t. el_active_fibers (handler ex t) = el_active_fibers t \<and>
     el_exception_count (handler ex t) = el_exception_count t)"

definition scope_loop_inv :: "'k scope_loop \<Rightarrow> bool" where
  "scope_loop_inv s \<longleftrightarrow>
     el_active_fibers (sl_loop s) = ts_active (sl_scope s) + sl_leaving s + sl_others s \<and>
     el_exception_count (sl_loop s) = sl_escaped s \<and>
     ts_first_exception (sl_scope s) = (case sl_failed s of [] \<Rightarrow> None | ex # _ \<Rightarrow> Some ex) \<and>
     (sl_failed s \<noteq> [] \<longrightarrow> ts_cancel_requested (sl_scope s))"

lemma fiber_body_counts:
  assumes "reporting handler"
  shows "el_active_fibers (fiber_body handler r s) = el_active_fibers s - 1"
    "el_exception_count (fiber_body handler r s) = el_exception_count s + length (failed_with r)"
  using assms by (cases r; simp add: fiber_body_def report_unhandled_exception_def uv_async_send_def Let_def reporting_def)+

lemma scope_task_end_facts:
  "ts_active (snd (scope_task_end r st)) = ts_active st - 1"
  "ts_first_exception (snd (scope_task_end r st)) =
     (case ts_first_exception st of Some ex \<Rightarrow> Some ex | None \<Rightarrow> (case failed_with r of [] \<Rightarrow> None | ex # _ \<Rightarrow> Some ex))"
  "ts_cancel_requested (snd (scope_task_end r st)) \<longleftrightarrow> ts_cancel_requested st \<or> failed_with r \<noteq> []"
  by (cases r; simp add: scope_task_end_def scope_leave_def scope_catch_def Let_def split: option.splits)+

lemma scope_loop_inv_step:
  assumes "scope_loop_step handler s t" "reporting handler" "scope_loop_inv s"
  shows "scope_loop_inv t"
  using assms(1,3)
proof (induction rule: scope_loop_step.induct)
  case (closure_ends s r)
  then show ?case by (auto simp: scope_loop_inv_def scope_task_end_facts split: list.splits)
next
  case (fiber_ends s)
  then show ?case using fiber_body_counts [OF assms(2)] by (auto simp: scope_loop_inv_def)
next
  case (other_ends s r)
  then show ?case using fiber_body_counts [OF assms(2)] by (auto simp: scope_loop_inv_def)
qed (auto simp: scope_loop_inv_def scope_spawn_on_def scope_spawn_def spawn_def uv_async_send_def request_cancel_def)

lemma scope_loop_reach_inv:
  assumes "(scope_loop_step handler)\<^sup>*\<^sup>* s t" "reporting handler" "scope_loop_inv s"
  shows "scope_loop_inv t"
  using assms by (induction rule: rtranclp_induct) (auto intro: scope_loop_inv_step)

lemma scope_loop_start_inv: "scope_loop_inv (scope_loop_start s)"
  by (simp add: scope_loop_inv_def scope_loop_start_def scope_init_def)

text \<open>
  C28. A scope and its loop agree, whatever order spawning, ending and cancelling come in. The loop does not
  go idle while a task of the scope lives, so \<open>run\<close> does not return on its own before the scope is joined.
  What a task of the scope throws is never reported as unhandled, and the first such exception
  is the one \<open>join\<close> throws once no task is left.
\<close>

theorem scope_outlived_by_loop:
  assumes "(scope_loop_step handler)\<^sup>*\<^sup>* (scope_loop_start el) s" "reporting handler"
  shows "(idle uv_loop_alive (sl_loop s) \<longrightarrow> join_pred True token (sl_scope s) \<and> sl_leaving s = 0) \<and>
    unhandled_exception_count (sl_loop s) = sl_escaped s \<and>
    (ts_active (sl_scope s) = 0 \<longrightarrow>
       join_after True token (sl_scope s) = (case sl_failed s of [] \<Rightarrow> Inr () | ex # _ \<Rightarrow> Inl ex))"
  using scope_loop_reach_inv [OF assms scope_loop_start_inv]
  by (auto simp: scope_loop_inv_def idle_def join_pred_def join_after_def rethrow_first_def unhandled_exception_count_def
      split: list.splits)

theorem scope_outlived_by_loop_witness:
  "\<exists>s. (scope_loop_step (\<lambda>ex t. t))\<^sup>*\<^sup>* (scope_loop_start demo_loop) s \<and> sl_failed s = [UserExn 4] \<and>
     unhandled_exception_count (sl_loop s) = 0 \<and> join_after True (Some True) (sl_scope s) = Inl (UserExn 4)"
proof -
  let ?s0 = "scope_loop_start demo_loop"
  let ?s1 = "?s0\<lparr>sl_scope := scope_init\<lparr>ts_active := 1\<rparr>, sl_loop := spawn 1 demo_loop\<rparr>"
  let ?s2 = "?s1\<lparr>sl_scope := snd (scope_task_end (Exception (UserExn 4)) (sl_scope ?s1)), sl_leaving := 1, sl_failed := [UserExn 4]\<rparr>"
  have "scope_loop_step (\<lambda>ex t. t) ?s0 ?s1"
    using scope_loop_step.scope_task [of 1 ?s0 "scope_init\<lparr>ts_active := 1\<rparr>" "spawn 1 demo_loop" "\<lambda>ex t. t"]
    by (simp add: scope_loop_start_def scope_spawn_on_def scope_spawn_def scope_init_def)
  moreover have "scope_loop_step (\<lambda>ex t. t) ?s1 ?s2"
    using scope_loop_step.closure_ends [of ?s1 "\<lambda>ex t. t" "Exception (UserExn 4)"] by (simp add: scope_loop_start_def)
  ultimately have r: "(scope_loop_step (\<lambda>ex t. t))\<^sup>*\<^sup>* ?s0 ?s2" by (meson converse_rtranclp_into_rtranclp r_into_rtranclp)
  have "reporting (\<lambda>ex (t :: nat event_loop). t)" by (simp add: reporting_def)
  from scope_outlived_by_loop [OF r this, of _ "Some True"] r show ?thesis
    by (intro exI [of _ ?s2]) (simp add: scope_task_end_facts scope_loop_start_def demo_loop_def scope_init_def)
qed

end
