(* ===== verification/Poll_Wait.thy ===== *)
theory Poll_Wait
  imports Prelude
begin

text \<open>
  Waiting for a file descriptor, with and without a time-out (src/io_unified.cpp, \<open>wait_fd\<close> and
  \<open>wait_fd_for\<close>). The timed wait owns two libuv handles, a poll and a timer, inside one heap object that
  is deleted by the last close callback. Beside the fields of \<open>PollWaitForState\<close> the record keeps, for
  each handle, whether it was initialised, given to \<open>uv_close\<close>, and its close callback run, and whether
  the object was deleted; the code learns of these only through \<open>uv_is_closing\<close>.
\<close>

record poll_wait =
  pw_completed :: bool
  pw_pending_close :: nat
  pw_poll_closing :: bool
  pw_timer_closing :: bool
  pw_timer_initialized :: bool
  pw_poll_closed :: bool
  pw_timer_closed :: bool
  pw_deleted :: bool

datatype poll_effect = SetReady "bool outcome" | ClosePoll | CloseTimer

definition new_poll_wait :: poll_wait where
  "new_poll_wait = \<lparr>pw_completed = False, pw_pending_close = 0, pw_poll_closing = False, pw_timer_closing = False,
     pw_timer_initialized = False, pw_poll_closed = False, pw_timer_closed = False, pw_deleted = False\<rparr>"

definition on_poll_wait_for_closed :: "poll_wait \<Rightarrow> poll_wait" where
  "on_poll_wait_for_closed state =
     (let state1 = (if pw_pending_close state > 0
                    then state\<lparr>pw_pending_close := pw_pending_close state - 1\<rparr> else state) in
      if pw_pending_close state1 = 0 then state1\<lparr>pw_deleted := True\<rparr> else state1)"

definition close_poll_wait_for_handles :: "poll_wait \<Rightarrow> poll_wait \<times> poll_effect list" where
  "close_poll_wait_for_handles state =
     (let state0 = state\<lparr>pw_pending_close := 0\<rparr>;
          (state1, effs1) = (if \<not> pw_poll_closing state0
            then (state0\<lparr>pw_pending_close := pw_pending_close state0 + 1, pw_poll_closing := True\<rparr>, [ClosePoll])
            else (state0, []));
          (state2, effs2) = (if \<not> pw_timer_closing state1
            then (state1\<lparr>pw_pending_close := pw_pending_close state1 + 1, pw_timer_closing := True\<rparr>, [CloseTimer])
            else (state1, []))
      in (if pw_pending_close state2 = 0 then state2\<lparr>pw_deleted := True\<rparr> else state2, effs1 @ effs2))"

definition finish_poll_wait_for ::
  "bool option \<Rightarrow> err option \<Rightarrow> poll_wait \<Rightarrow> poll_wait \<times> poll_effect list" where
  "finish_poll_wait_for value ex state =
     (if pw_completed state then (state, [])
      else
        let outcome = (case ex of
              Some e \<Rightarrow> Exception e
            | None \<Rightarrow> Value (case value of Some b \<Rightarrow> b | None \<Rightarrow> False));
            (state1, effs) = close_poll_wait_for_handles (state\<lparr>pw_completed := True\<rparr>)
        in (state1, SetReady outcome # effs))"

definition on_poll_event_for :: "int \<Rightarrow> poll_wait \<Rightarrow> poll_wait \<times> poll_effect list" where
  "on_poll_event_for status state =
     (if status < 0 then finish_poll_wait_for None (Some (uv_error ''uv_poll_start'' status)) state
      else finish_poll_wait_for (Some True) None state)"

definition on_poll_timeout_for :: "poll_wait \<Rightarrow> poll_wait \<times> poll_effect list" where
  "on_poll_timeout_for state = finish_poll_wait_for (Some False) None state"

text \<open>
  \<open>wait_fd_for\<close> up to \<open>future.get()\<close>; the four answers of libuv are arguments. The last component is the
  time-out given to the timer.
\<close>

definition wait_fd_for ::
  "pid \<Rightarrow> int \<Rightarrow> int \<Rightarrow> int \<Rightarrow> int \<Rightarrow> int \<Rightarrow> bool reply \<times> poll_wait \<times> poll_effect list \<times> nat option" where
  "wait_fd_for promise timeout init_poll_rc init_timer_rc start_poll_rc start_timer_rc =
     (let state = new_poll_wait in
      if init_poll_rc < 0
      then (Throw (uv_error ''uv_poll_init_socket'' init_poll_rc), state\<lparr>pw_deleted := True\<rparr>, [], None)
      else if init_timer_rc < 0 then
        (let (state', effs) = close_poll_wait_for_handles state in
         (Throw (uv_error ''uv_timer_init'' init_timer_rc), state', effs, None))
      else
        let state1 = state\<lparr>pw_timer_initialized := True\<rparr> in
        if start_poll_rc < 0 then
          (let (state', effs) = close_poll_wait_for_handles state1 in
           (Throw (uv_error ''uv_poll_start'' start_poll_rc), state', effs, None))
        else
          let timeout_ms = (if timeout < 0 then 0 else nat timeout) in
          if start_timer_rc < 0 then
            (let (state', effs) = close_poll_wait_for_handles state1 in
             (Throw (uv_error ''uv_timer_start'' start_timer_rc), state', effs, Some timeout_ms))
          else (Await promise, state1, [], Some timeout_ms))"

text \<open>\<open>wait_fd\<close>: one handle; the close callback deletes the object.\<close>

record poll_wait1 =
  p1_completed :: bool
  p1_closing :: bool
  p1_deleted :: bool

datatype poll1_effect = SetDone "unit outcome" | ClosePoll1

definition on_poll_closed :: "poll_wait1 \<Rightarrow> poll_wait1" where
  "on_poll_closed state = state\<lparr>p1_deleted := True\<rparr>"

definition on_poll_event :: "int \<Rightarrow> poll_wait1 \<Rightarrow> poll_wait1 \<times> poll1_effect list" where
  "on_poll_event status state =
     (if p1_completed state then (state, [])
      else (state\<lparr>p1_completed := True, p1_closing := True\<rparr>,
        [SetDone (if status < 0 then Exception (uv_error ''uv_poll_start'' status) else Value ()), ClosePoll1]))"

definition wait_fd :: "pid \<Rightarrow> int \<Rightarrow> int \<Rightarrow> unit reply \<times> poll_wait1 \<times> poll1_effect list" where
  "wait_fd promise init_rc start_rc =
     (let state = \<lparr>p1_completed = False, p1_closing = False, p1_deleted = False\<rparr> in
      if init_rc < 0 then (Throw (uv_error ''uv_poll_init_socket'' init_rc), state\<lparr>p1_deleted := True\<rparr>, [])
      else if start_rc < 0
      then (Throw (uv_error ''uv_poll_start'' start_rc), state\<lparr>p1_closing := True\<rparr>, [ClosePoll1])
      else (Await promise, state, []))"

subsection \<open>The life of a timed wait\<close>

text \<open>
  Events and timer expiry come while the handle is open; a close callback comes once for each
  handle that was closed.
\<close>

inductive poll_reach :: "poll_wait \<Rightarrow> poll_effect list \<Rightarrow> bool" where
  poll_started: "wait_fd_for p timeout a b c d = (r, state, effs, t) \<Longrightarrow> 0 \<le> a \<Longrightarrow> 0 \<le> b \<Longrightarrow> poll_reach state effs"
| poll_event: "poll_reach state effs \<Longrightarrow> \<not> pw_poll_closing state \<Longrightarrow> on_poll_event_for status state = (state', e) \<Longrightarrow>
    poll_reach state' (effs @ e)"
| poll_timeout: "poll_reach state effs \<Longrightarrow> \<not> pw_timer_closing state \<Longrightarrow> on_poll_timeout_for state = (state', e) \<Longrightarrow>
    poll_reach state' (effs @ e)"
| poll_close_cb: "poll_reach state effs \<Longrightarrow> pw_poll_closing state \<Longrightarrow> \<not> pw_poll_closed state \<Longrightarrow>
    poll_reach (on_poll_wait_for_closed (state\<lparr>pw_poll_closed := True\<rparr>)) effs"
| timer_close_cb: "poll_reach state effs \<Longrightarrow> pw_timer_closing state \<Longrightarrow> \<not> pw_timer_closed state \<Longrightarrow>
    poll_reach (on_poll_wait_for_closed (state\<lparr>pw_timer_closed := True\<rparr>)) effs"

definition ready_sets :: "poll_effect list \<Rightarrow> nat" where
  "ready_sets effs = length (filter (\<lambda>e. \<exists>r. e = SetReady r) effs)"

definition poll_inv :: "poll_wait \<Rightarrow> poll_effect list \<Rightarrow> bool" where
  "poll_inv state effs \<longleftrightarrow>
     pw_timer_initialized state \<and> pw_poll_closing state = pw_timer_closing state \<and>
     (pw_poll_closed state \<or> pw_timer_closed state \<longrightarrow> pw_poll_closing state) \<and>
     (pw_completed state \<longrightarrow> pw_poll_closing state) \<and>
     ready_sets effs = (if pw_completed state then 1 else 0) \<and>
     count_list effs ClosePoll = (if pw_poll_closing state then 1 else 0) \<and>
     count_list effs CloseTimer = (if pw_poll_closing state then 1 else 0) \<and>
     (pw_poll_closing state \<longrightarrow> pw_pending_close state =
        (if pw_poll_closed state then 0 else 1) + (if pw_timer_closed state then 0 else 1)) \<and>
     (pw_deleted state \<longleftrightarrow> pw_poll_closed state \<and> pw_timer_closed state)"

lemma ready_sets_simps [simp]:
  "ready_sets [] = 0" "ready_sets (SetReady r # es) = Suc (ready_sets es)"
  "ready_sets (ClosePoll # es) = ready_sets es" "ready_sets (CloseTimer # es) = ready_sets es"
  "ready_sets (xs @ ys) = ready_sets xs + ready_sets ys"
  by (simp_all add: ready_sets_def)

lemma close_both:
  assumes "\<not> pw_poll_closing state" "\<not> pw_timer_closing state"
  shows "close_poll_wait_for_handles state =
    (state\<lparr>pw_pending_close := 2, pw_poll_closing := True, pw_timer_closing := True\<rparr>, [ClosePoll, CloseTimer])"
  using assms by (simp add: close_poll_wait_for_handles_def numeral_2_eq_2)

lemma finish_open:
  assumes "poll_inv state effs" "\<not> pw_poll_closing state"
  shows "finish_poll_wait_for v ex state =
    (state\<lparr>pw_completed := True, pw_pending_close := 2, pw_poll_closing := True, pw_timer_closing := True\<rparr>,
     [SetReady (case ex of Some e \<Rightarrow> Exception e | None \<Rightarrow> Value (case v of Some b \<Rightarrow> b | None \<Rightarrow> False)), ClosePoll, CloseTimer])"
  using assms close_both [of "state\<lparr>pw_completed := True\<rparr>"] by (auto simp: finish_poll_wait_for_def poll_inv_def)

lemma poll_reach_inv: "poll_reach state effs \<Longrightarrow> poll_inv state effs"
proof (induction rule: poll_reach.induct)
  case (poll_started p timeout a b c d r state effs t)
  then show ?case using close_both [of "new_poll_wait\<lparr>pw_timer_initialized := True\<rparr>"]
    by (auto simp: wait_fd_for_def new_poll_wait_def Let_def poll_inv_def split: if_splits)
next
  case (poll_event state effs status state' e)
  then show ?case using finish_open [of state effs]
    by (auto simp: on_poll_event_for_def poll_inv_def split: if_splits)
next
  case (poll_timeout state effs state' e)
  then have "\<not> pw_poll_closing state" by (auto simp: poll_inv_def)
  then show ?case using poll_timeout finish_open [of state effs]
    by (auto simp: on_poll_timeout_for_def poll_inv_def)
next
  case (poll_close_cb state effs)
  then show ?case by (auto simp: on_poll_wait_for_closed_def poll_inv_def Let_def split: if_splits)
next
  case (timer_close_cb state effs)
  then show ?case by (auto simp: on_poll_wait_for_closed_def poll_inv_def Let_def split: if_splits)
qed

subsection \<open>Properties\<close>

text \<open>
  C31. A timed wait whose two handles were initialised, under any order of events, expiry and close callbacks: the promise is set at most
  once, each handle is closed at most once and both together, and the object is deleted exactly when
  both close callbacks have run, so that no callback finds it deleted.
\<close>

theorem poll_wait_for_once:
  assumes "poll_reach state effs"
  shows "ready_sets effs \<le> 1 \<and> (pw_completed state \<longleftrightarrow> ready_sets effs = 1) \<and>
    count_list effs ClosePoll = count_list effs CloseTimer \<and> count_list effs ClosePoll \<le> 1 \<and>
    (pw_deleted state \<longleftrightarrow> pw_poll_closed state \<and> pw_timer_closed state)"
  using poll_reach_inv [OF assms] by (auto simp: poll_inv_def)

theorem poll_wait_for_once_witness:
  "\<exists>state effs. poll_reach state effs \<and> SetReady (Value False) \<in> set effs \<and> pw_completed state \<and> ready_sets effs = 1"
proof -
  let ?s = "new_poll_wait\<lparr>pw_timer_initialized := True\<rparr>"
  let ?t = "?s\<lparr>pw_completed := True, pw_pending_close := 2, pw_poll_closing := True, pw_timer_closing := True\<rparr>"
  have 0: "poll_reach ?s []"
    by (rule poll_reach.poll_started [of 1 10 0 0 0 0 "Await 1" _ _ "Some 10"]) (simp_all add: wait_fd_for_def)
  have 1: "poll_reach ?t ([] @ [SetReady (Value False), ClosePoll, CloseTimer])"
    by (rule poll_reach.poll_timeout [OF 0])
      (simp_all add: new_poll_wait_def on_poll_timeout_for_def finish_poll_wait_for_def close_both)
  show ?thesis using 1 poll_wait_for_once [OF 1] by (intro exI [of _ ?t] exI conjI) auto
qed

text \<open>
  The failure paths of \<open>wait_fd_for\<close> throw the error of the step that failed and leave nothing open:
  the object is deleted at once or both its handles are being closed. But when \<open>uv_timer_init\<close> fails,
  the timer given to \<open>uv_close\<close> was never initialised.
\<close>

theorem wait_fd_for_failures:
  assumes "wait_fd_for p timeout a b c d = (Throw ex, state, effs, t)"
  shows "(pw_deleted state \<and> effs = [] \<or> pw_pending_close state = 2 \<and> effs = [ClosePoll, CloseTimer]) \<and>
    (0 \<le> a \<and> b < 0 \<longrightarrow> CloseTimer \<in> set effs \<and> \<not> pw_timer_initialized state)"
  using assms close_both [of new_poll_wait] close_both [of "new_poll_wait\<lparr>pw_timer_initialized := True\<rparr>"]
  by (auto simp: wait_fd_for_def new_poll_wait_def Let_def split: if_splits)

theorem wait_fd_for_failures_witness:
  "CloseTimer \<in> set [ClosePoll, CloseTimer]"
  using wait_fd_for_failures [of 1 10 0 "-12" 0 0 "UvError ''uv_timer_init'' (-12)"
      "new_poll_wait\<lparr>pw_pending_close := 2, pw_poll_closing := True, pw_timer_closing := True\<rparr>" "[ClosePoll, CloseTimer]" None]
  by simp

end
