(* ===== verification/Timers.thy ===== *)
theory Timers
  imports Prelude
begin

text \<open>
  \<open>sleep_for\<close>, \<open>every\<close> and \<open>PeriodicTask\<close> (src/event_loop.cpp). The record of a periodic task has the
  fields of \<open>PeriodicTask::Impl\<close>, the repeat interval given to the timer, and the two facts libuv keeps of
  the handle: whether it is closing and whether it is started.
\<close>

record periodic =
  pt_initialized :: bool
  pt_active :: bool
  pt_stopping :: bool
  pt_keepalive :: bool
  pt_repeat :: nat
  pt_started :: bool
  pt_uv_closing :: bool

datatype timer_effect = SpawnCallback | CloseTimerHandle | SetSleep

definition new_periodic :: periodic where
  "new_periodic = \<lparr>pt_initialized = False, pt_active = False, pt_stopping = False, pt_keepalive = False,
     pt_repeat = 0, pt_started = False, pt_uv_closing = False\<rparr>"

definition on_periodic_timer_closed :: "periodic \<Rightarrow> periodic" where
  "on_periodic_timer_closed impl = impl\<lparr>pt_active := False, pt_stopping := False, pt_keepalive := False\<rparr>"

definition stop_periodic_on_loop :: "periodic option \<Rightarrow> periodic option \<times> timer_effect list" where
  "stop_periodic_on_loop ptr =
     (case ptr of
        None \<Rightarrow> (None, [])
      | Some impl \<Rightarrow>
          (if \<not> pt_initialized impl then (ptr, [])
           else if pt_stopping impl then (ptr, [])
           else
             let impl1 = impl\<lparr>pt_stopping := True\<rparr> in
             if \<not> pt_uv_closing impl1
             then (Some (impl1\<lparr>pt_started := False, pt_uv_closing := True\<rparr>), [CloseTimerHandle])
             else (Some (on_periodic_timer_closed impl1), [])))"

text \<open>A libuv timer with repeat interval 0 stops after it fired once.\<close>

definition uv_timer_fired :: "periodic \<Rightarrow> periodic" where
  "uv_timer_fired impl = (if pt_repeat impl = 0 then impl\<lparr>pt_started := False\<rparr> else impl)"

definition on_periodic_timer :: "periodic \<Rightarrow> timer_effect list" where
  "on_periodic_timer impl = (if \<not> pt_active impl \<or> pt_stopping impl then [] else [SpawnCallback])"

definition start_periodic_on_loop ::
  "loop_lifetime_token \<Rightarrow> int \<Rightarrow> int \<Rightarrow> int \<Rightarrow> periodic option \<Rightarrow> (err + unit) \<times> periodic option \<times> timer_effect list" where
  "start_periodic_on_loop token interval init_rc start_rc ptr =
     (case ptr of
        None \<Rightarrow> (Inl (RuntimeError ''invalid periodic task state''), None, [])
      | Some impl \<Rightarrow>
          (if \<not> is_loop_alive token then (Inl (RuntimeError ''event loop is not alive''), ptr, [])
           else
             let repeat = nat (clamp_ms interval);
                 impl1 = impl\<lparr>pt_keepalive := True\<rparr>
             in if init_rc < 0
                then (Inl (uv_error ''uv_timer_init(periodic)'' init_rc), Some (impl1\<lparr>pt_keepalive := False\<rparr>), [])
                else if start_rc < 0
                then (Inl (uv_error ''uv_timer_start(periodic)'' start_rc),
                      Some (impl1\<lparr>pt_uv_closing := True\<rparr>), [CloseTimerHandle])
                else (Inr (), Some (impl1\<lparr>pt_started := True, pt_repeat := repeat, pt_initialized := True,
                        pt_active := True\<rparr>), [])))"

text \<open>
  \<open>PeriodicTask::stop\<close>: on a dead loop, on the loop's thread, or by a dispatched closure that runs later
  (the last component) if the object still exists then.
\<close>

definition stop ::
  "loop_lifetime_token \<Rightarrow> bool \<Rightarrow> periodic option \<Rightarrow> periodic option \<times> timer_effect list \<times> bool" where
  "stop token on_loop ptr =
     (case ptr of
        None \<Rightarrow> (None, [], False)
      | Some impl \<Rightarrow>
          (if \<not> is_loop_alive token then (Some (on_periodic_timer_closed impl), [], False)
           else if on_loop then (let (ptr', effs) = stop_periodic_on_loop ptr in (ptr', effs, False))
           else (ptr, [], True)))"

definition periodic_destroy ::
  "loop_lifetime_token \<Rightarrow> bool \<Rightarrow> periodic option \<Rightarrow> periodic option \<times> timer_effect list \<times> bool" where
  "periodic_destroy token on_loop ptr = stop token on_loop ptr"

definition active :: "periodic option \<Rightarrow> bool" where
  "active ptr = (case ptr of None \<Rightarrow> False | Some impl \<Rightarrow> pt_active impl)"

text \<open>\<open>every\<close>; the closure that starts the timer does not wait, so it may be dispatched.\<close>

definition every ::
  "loop_lifetime_token \<Rightarrow> bool \<Rightarrow> bool \<Rightarrow> int \<Rightarrow> int \<Rightarrow> int \<Rightarrow> (err + periodic option) \<times> timer_effect list" where
  "every token on_loop has_fn interval init_rc start_rc =
     (if \<not> has_fn then (Inl (RuntimeError ''every() requires a valid callback''), [])
      else
        let (r, ptr, effs) = start_periodic_on_loop token (clamp_ms interval) init_rc start_rc (Some new_periodic);
            r' = (if on_loop then r else future_get (capture r))
        in (case r' of Inl ex \<Rightarrow> (Inl ex, effs) | Inr _ \<Rightarrow> (Inr ptr, effs)))"

text \<open>\<open>sleep_for\<close>: \<open>tls\<close> tells whether a loop runs on this thread; the time-out given to the timer comes last.\<close>

definition sleep_for ::
  "bool \<Rightarrow> pid \<Rightarrow> int \<Rightarrow> int \<Rightarrow> int \<Rightarrow> unit reply \<times> timer_effect list \<times> nat option" where
  "sleep_for tls promise delay init_rc start_rc =
     (if \<not> tls then (Throw (RuntimeError ''No running EventLoop on current thread.''), [], None)
      else if init_rc < 0 then (Throw (uv_error ''uv_timer_init'' init_rc), [], None)
      else
        let timeout = (if delay < 0 then 0 else nat delay) in
        if start_rc < 0 then (Throw (uv_error ''uv_timer_start'' start_rc), [CloseTimerHandle], Some timeout)
        else (Await promise, [], Some timeout))"

definition on_sleep_timer :: "timer_effect list" where
  "on_sleep_timer = [SetSleep, CloseTimerHandle]"

subsection \<open>The life of a periodic task\<close>

inductive periodic_reach :: "periodic \<Rightarrow> timer_effect list \<Rightarrow> bool" where
  periodic_started: "every token on_loop True interval init_rc start_rc = (Inr (Some impl), effs) \<Longrightarrow>
    periodic_reach impl effs"
| periodic_tick: "periodic_reach impl effs \<Longrightarrow> pt_started impl \<Longrightarrow>
    periodic_reach (uv_timer_fired impl) (effs @ on_periodic_timer impl)"
| periodic_stop: "periodic_reach impl effs \<Longrightarrow> stop token on_loop (Some impl) = (Some impl', e, later) \<Longrightarrow>
    periodic_reach impl' (effs @ e)"
| periodic_stop_later: "periodic_reach impl effs \<Longrightarrow> stop_periodic_on_loop (Some impl) = (Some impl', e) \<Longrightarrow>
    periodic_reach impl' (effs @ e)"
| periodic_closed: "periodic_reach impl effs \<Longrightarrow> pt_uv_closing impl \<Longrightarrow>
    periodic_reach (on_periodic_timer_closed impl) effs"

definition periodic_inv :: "periodic \<Rightarrow> timer_effect list \<Rightarrow> bool" where
  "periodic_inv impl effs \<longleftrightarrow> pt_initialized impl \<and>
     count_list effs CloseTimerHandle = (if pt_uv_closing impl then 1 else 0) \<and>
     (pt_uv_closing impl \<longrightarrow> \<not> pt_started impl) \<and> (pt_active impl \<longrightarrow> pt_keepalive impl)"

lemma stop_periodic_inv:
  assumes "periodic_inv impl effs" "stop_periodic_on_loop (Some impl) = (Some impl', e)"
  shows "periodic_inv impl' (effs @ e)"
  using assms
  by (auto simp: periodic_inv_def stop_periodic_on_loop_def on_periodic_timer_closed_def Let_def split: if_splits)

lemma periodic_reach_inv: "periodic_reach impl effs \<Longrightarrow> periodic_inv impl effs"
proof (induction rule: periodic_reach.induct)
  case (periodic_started token on_loop interval init_rc start_rc impl effs)
  then show ?case
    by (auto simp: every_def start_periodic_on_loop_def new_periodic_def periodic_inv_def capture_def Let_def
        split: if_splits)
next
  case (periodic_tick impl effs)
  then show ?case by (auto simp: periodic_inv_def uv_timer_fired_def on_periodic_timer_def)
next
  case (periodic_stop impl effs token on_loop impl' e later)
  show ?case
  proof (cases "is_loop_alive token \<and> on_loop")
    case True
    then show ?thesis using periodic_stop stop_periodic_inv [of impl effs impl' e] by (auto simp: stop_def split: prod.splits)
  next
    case False
    then show ?thesis using periodic_stop
      by (auto simp: stop_def periodic_inv_def on_periodic_timer_closed_def split: if_splits)
  qed
next
  case (periodic_stop_later impl effs impl' e)
  then show ?case using stop_periodic_inv by blast
next
  case (periodic_closed impl effs)
  then show ?case by (auto simp: periodic_inv_def on_periodic_timer_closed_def)
qed

subsection \<open>Properties\<close>

text \<open>
  C32. A periodic task, under any order of ticks, stops from any thread and close callbacks: its timer
  is given to \<open>uv_close\<close> at most once, an active task keeps itself alive, and once stopped on its loop
  no tick runs the callback again.
\<close>

theorem periodic_stops_once:
  assumes "periodic_reach impl effs" "stop_periodic_on_loop (Some impl) = (Some impl', e)"
  shows "count_list (effs @ e) CloseTimerHandle \<le> 1 \<and> (pt_active impl \<longrightarrow> pt_keepalive impl) \<and>
    on_periodic_timer impl' = [] \<and> (pt_uv_closing impl' \<longrightarrow> \<not> pt_started impl')"
proof -
  have "periodic_inv impl effs" using periodic_reach_inv [OF assms(1)] .
  moreover have "periodic_inv impl' (effs @ e)" using stop_periodic_inv [OF calculation assms(2)] .
  moreover have "on_periodic_timer impl' = []" using assms(2) calculation(1)
    by (auto simp: stop_periodic_on_loop_def on_periodic_timer_def on_periodic_timer_closed_def periodic_inv_def Let_def
        split: if_splits)
  ultimately show ?thesis by (auto simp: periodic_inv_def)
qed

definition running_periodic :: "nat \<Rightarrow> periodic" where
  "running_periodic n = new_periodic\<lparr>pt_keepalive := True, pt_started := True, pt_repeat := n, pt_initialized := True, pt_active := True\<rparr>"

lemma running_periodic_reach: "periodic_reach (running_periodic 10) []"
  by (rule periodic_reach.periodic_started [of "Some True" True 10 0 0])
    (simp add: every_def start_periodic_on_loop_def running_periodic_def clamp_ms_def Let_def)

theorem periodic_stops_once_witness:
  "\<exists>impl'. stop_periodic_on_loop (Some (running_periodic 10)) = (Some impl', [CloseTimerHandle]) \<and>
     on_periodic_timer impl' = []"
proof -
  let ?t = "(running_periodic 10)\<lparr>pt_stopping := True, pt_started := False, pt_uv_closing := True\<rparr>"
  have 1: "stop_periodic_on_loop (Some (running_periodic 10)) = (Some ?t, [CloseTimerHandle])"
    by (simp add: stop_periodic_on_loop_def running_periodic_def new_periodic_def)
  show ?thesis using 1 periodic_stops_once [OF running_periodic_reach 1] by blast
qed

text \<open>
  A task created with an interval below one millisecond is not periodic: the repeat interval given
  to libuv is 0, its callback is spawned once and the timer does not fire again, while the task still
  calls itself active. An interval of at least one millisecond repeats.
\<close>

theorem every_below_one_ms_fires_once:
  assumes "every (Some True) on_loop True (duration_to_ms ticks num den) 0 0 = (Inr (Some impl), effs)"
  shows "pt_started impl \<and> on_periodic_timer impl = [SpawnCallback] \<and> active (Some (uv_timer_fired impl)) \<and>
    (duration_to_ms ticks num den = 0 \<longrightarrow> \<not> pt_started (uv_timer_fired impl)) \<and>
    (duration_to_ms ticks num den > 0 \<longrightarrow> pt_started (uv_timer_fired impl))"
  using assms
  by (auto simp: every_def start_periodic_on_loop_def new_periodic_def capture_def uv_timer_fired_def
      on_periodic_timer_def active_def clamp_ms_def Let_def split: if_splits)

theorem every_below_one_ms_fires_once_witness:
  "\<not> pt_started (uv_timer_fired (running_periodic 0))"
  using every_below_one_ms_fires_once [of True 500 1 1000000 "running_periodic 0" "[]"]
  by (simp add: every_def start_periodic_on_loop_def running_periodic_def clamp_ms_def duration_to_ms_def
      duration_cast_ms_def trunc_div_def Let_def)

end
