(* ===== verification/Unified_File.thy ===== *)
theory Unified_File
  imports File_Io
begin

text \<open>
  \<open>io::File\<close> and the directory operations (src/io_unified.cpp), over the same interface to the file system
  as \<open>File_Io\<close>. The helpers \<open>fs_open\<close>, \<open>fs_close\<close>, \<open>fs_read_at\<close>, \<open>fs_write_at\<close> start a request and wait for its
  callback, so they are closures in the sense of \<open>invoke_on_loop\<close>. \<open>fs_write_at\<close> goes on until everything is
  written, and forever if the system keeps writing nothing, so it is partial.
\<close>

definition fs_open ::
  "'os fs_env \<Rightarrow> string \<Rightarrow> open_flag list \<Rightarrow> nat \<Rightarrow> ('os fs_world, int) closure" where
  "fs_open env path flags mode w =
     (let req = FsOpen path flags mode in
      case issue env req w of (rc, w1) \<Rightarrow>
        if rc < 0 then (Inl (uv_error ''uv_fs_open(start)'' rc), False, w1)
        else case complete env req w1 of (res, w2) \<Rightarrow>
          if fst res < 0 then (Inl (uv_error ''uv_fs_open'' (fst res)), True, w2)
          else (Inr (fst res), True, w2))"

definition fs_close :: "'os fs_env \<Rightarrow> int \<Rightarrow> ('os fs_world, unit) closure" where
  "fs_close env fd w =
     (let req = FsClose fd in
      case issue env req w of (rc, w1) \<Rightarrow>
        if rc < 0 then (Inl (uv_error ''uv_fs_close(start)'' rc), False, w1)
        else case complete env req w1 of (res, w2) \<Rightarrow>
          if fst res < 0 then (Inl (uv_error ''uv_fs_close'' (fst res)), True, w2)
          else (Inr (), True, w2))"

text \<open>\<open>static_cast<int64_t>\<close> of a \<open>std::uint64_t\<close>.\<close>

definition to_int64 :: "nat \<Rightarrow> int" where
  "to_int64 n = (let m = int n mod 2 ^ 64 in if m < 2 ^ 63 then m else m - 2 ^ 64)"

definition fs_read_at :: "'os fs_env \<Rightarrow> int \<Rightarrow> nat \<Rightarrow> nat \<Rightarrow> ('os fs_world, byte list) closure" where
  "fs_read_at env fd sz offset w =
     (let req = FsRead fd (to_uint sz) (to_int64 offset) in
      case issue env req w of (rc, w1) \<Rightarrow>
        if rc < 0 then (Inl (uv_error ''uv_fs_read(start)'' rc), False, w1)
        else case complete env req w1 of (res, w2) \<Rightarrow>
          if fst res < 0 then (Inl (uv_error ''uv_fs_read'' (fst res)), True, w2)
          else (Inr (take (nat (fst res)) (snd res)), True, w2))"

text \<open>\<open>on_fs_write\<close> with the request it starts next; \<open>written\<close> is the count so far.\<close>

partial_function (option) on_fs_write ::
  "'os fs_env \<Rightarrow> int \<Rightarrow> byte list \<Rightarrow> nat \<Rightarrow> nat \<Rightarrow> int \<Rightarrow> 'os fs_world \<Rightarrow> ((err + nat) \<times> 'os fs_world) option" where
  "on_fs_write env fd data base_offset written result w =
     (if result < 0 then Some (Inl (uv_error ''uv_fs_write'' result), w)
      else let written' = written + nat result in
        if written' \<ge> length data then Some (Inr written', w)
        else
          let remaining = length data - written';
              req = FsWrite fd (take (to_uint remaining) (drop written' data)) (to_int64 (base_offset + written'))
          in case issue env req w of (rc, w1) \<Rightarrow>
            if rc < 0 then Some (Inl (uv_error ''uv_fs_write(start)'' rc), w1)
            else case complete env req w1 of (res, w2) \<Rightarrow>
              on_fs_write env fd data base_offset written' (fst res) w2)"

definition fs_write_at ::
  "'os fs_env \<Rightarrow> int \<Rightarrow> byte list \<Rightarrow> nat \<Rightarrow> 'os fs_world \<Rightarrow> ((err + nat) \<times> bool \<times> 'os fs_world) option" where
  "fs_write_at env fd data offset w =
     (if data = [] then Some (Inr 0, False, w)
      else
        let req = FsWrite fd (take (to_uint (length data)) data) (to_int64 offset) in
        case issue env req w of (rc, w1) \<Rightarrow>
          if rc < 0 then Some (Inl (uv_error ''uv_fs_write(start)'' rc), False, w1)
          else case complete env req w1 of (res, w2) \<Rightarrow>
            map_option (\<lambda>(r, w3). (r, True, w3)) (on_fs_write env fd data offset 0 (fst res) w2))"

text \<open>\<open>File\<close>: the record has the fields of \<open>File::Impl\<close>; \<open>None\<close> is a null \<open>impl_\<close>.\<close>

record file_impl =
  uf_fd :: int
  uf_cursor :: nat
  uf_closed :: bool

definition file_open ::
  "'os fs_env \<Rightarrow> bool \<Rightarrow> string \<Rightarrow> open_flag list \<Rightarrow> nat \<Rightarrow> 'os fs_world \<Rightarrow> ((err + file_impl) \<times> 'os fs_world) option" where
  "file_open env on_loop path flags mode w =
     map_option (\<lambda>(r, w1). (map_sum id (\<lambda>fd. \<lparr>uf_fd = fd, uf_cursor = 0, uf_closed = False\<rparr>) r, w1))
       (invoke_on_loop on_loop (fs_open env path flags mode) w)"

definition open_read where
  "open_read env on_loop path w = file_open env on_loop path [UV_FS_O_RDONLY] 0 w"

definition open_write_flags :: "bool \<Rightarrow> bool \<Rightarrow> bool \<Rightarrow> open_flag list" where
  "open_write_flags app trunc create =
     [UV_FS_O_WRONLY] @ (if app then [UV_FS_O_APPEND] else []) @ (if trunc then [UV_FS_O_TRUNC] else []) @
     (if create then [UV_FS_O_CREAT] else [])"

definition open_write where
  "open_write env on_loop path app trunc create w =
     file_open env on_loop path (open_write_flags app trunc create) 420 w"

definition file_guard :: "loop_lifetime_token \<Rightarrow> file_impl option \<Rightarrow> err option" where
  "file_guard token impl =
     (case impl of
        None \<Rightarrow> Some (RuntimeError ''invalid file'')
      | Some f \<Rightarrow> if uf_closed f then Some (RuntimeError ''invalid file'') else ensure_loop_alive token)"

definition read_at ::
  "'os fs_env \<Rightarrow> bool \<Rightarrow> loop_lifetime_token \<Rightarrow> nat \<Rightarrow> nat \<Rightarrow> file_impl option \<Rightarrow> 'os fs_world \<Rightarrow>
   ((err + byte list) \<times> 'os fs_world) option" where
  "read_at env on_loop token sz offset impl w =
     (case file_guard token impl of
        Some ex \<Rightarrow> Some (Inl ex, w)
      | None \<Rightarrow> invoke_on_loop on_loop (fs_read_at env (uf_fd (the impl)) sz offset) w)"

definition write_at ::
  "'os fs_env \<Rightarrow> bool \<Rightarrow> loop_lifetime_token \<Rightarrow> byte list \<Rightarrow> nat \<Rightarrow> file_impl option \<Rightarrow> 'os fs_world \<Rightarrow>
   ((err + nat) \<times> 'os fs_world) option" where
  "write_at env on_loop token data offset impl w =
     (case file_guard token impl of
        Some ex \<Rightarrow> Some (Inl ex, w)
      | None \<Rightarrow> Option.bind (fs_write_at env (uf_fd (the impl)) data offset w)
          (\<lambda>res. invoke_on_loop on_loop (\<lambda>_. res) w))"

text \<open>The cursor is a \<open>std::uint64_t\<close>.\<close>

definition advance :: "nat \<Rightarrow> file_impl \<Rightarrow> file_impl" where
  "advance n f = f\<lparr>uf_cursor := (uf_cursor f + n) mod 2 ^ 64\<rparr>"

text \<open>
  \<open>read_some\<close> and \<open>write_some\<close> read the cursor in one critical section, transfer, and advance the cursor in
  another. The two sections are operations of their own, so that overlapping calls can be described.
\<close>

definition some_begin :: "loop_lifetime_token \<Rightarrow> file_impl option \<Rightarrow> err + nat" where
  "some_begin token impl =
     (case file_guard token impl of Some ex \<Rightarrow> Inl ex | None \<Rightarrow> Inr (uf_cursor (the impl)))"

definition read_some_end ::
  "err + byte list \<Rightarrow> file_impl option \<Rightarrow> (err + byte list) \<times> file_impl option" where
  "read_some_end r impl =
     (case r of Inl ex \<Rightarrow> (Inl ex, impl) | Inr out \<Rightarrow> (Inr out, map_option (advance (length out)) impl))"

definition write_some_end :: "err + nat \<Rightarrow> file_impl option \<Rightarrow> (err + nat) \<times> file_impl option" where
  "write_some_end r impl =
     (case r of Inl ex \<Rightarrow> (Inl ex, impl) | Inr wrote \<Rightarrow> (Inr wrote, map_option (advance wrote) impl))"

definition read_some ::
  "'os fs_env \<Rightarrow> bool \<Rightarrow> loop_lifetime_token \<Rightarrow> nat \<Rightarrow> file_impl option \<Rightarrow> 'os fs_world \<Rightarrow>
   ((err + byte list) \<times> file_impl option \<times> 'os fs_world) option" where
  "read_some env on_loop token sz impl w =
     (case some_begin token impl of
        Inl ex \<Rightarrow> Some (Inl ex, impl, w)
      | Inr offset \<Rightarrow>
          map_option (\<lambda>(r, w1). case read_some_end r impl of (r', impl') \<Rightarrow> (r', impl', w1))
            (read_at env on_loop token sz offset impl w))"

definition write_some ::
  "'os fs_env \<Rightarrow> bool \<Rightarrow> loop_lifetime_token \<Rightarrow> byte list \<Rightarrow> file_impl option \<Rightarrow> 'os fs_world \<Rightarrow>
   ((err + nat) \<times> file_impl option \<times> 'os fs_world) option" where
  "write_some env on_loop token data impl w =
     (case some_begin token impl of
        Inl ex \<Rightarrow> Some (Inl ex, impl, w)
      | Inr offset \<Rightarrow>
          map_option (\<lambda>(r, w1). case write_some_end r impl of (r', impl') \<Rightarrow> (r', impl', w1))
            (write_at env on_loop token data offset impl w))"

text \<open>
  Two calls of \<open>read_some\<close> by two fibers of the loop, the second made while the first waits for its data.
\<close>

definition read_some_overlapped ::
  "'os fs_env \<Rightarrow> loop_lifetime_token \<Rightarrow> nat \<Rightarrow> nat \<Rightarrow> file_impl option \<Rightarrow> 'os fs_world \<Rightarrow>
   ((err + byte list) \<times> (err + byte list) \<times> file_impl option \<times> 'os fs_world) option" where
  "read_some_overlapped env token sz1 sz2 impl w =
     (case (some_begin token impl, some_begin token impl) of
        (Inr offset1, Inr offset2) \<Rightarrow>
          Option.bind (read_at env True token sz1 offset1 impl w) (\<lambda>(r1, w1).
          Option.bind (read_at env True token sz2 offset2 impl w1) (\<lambda>(r2, w2).
            case read_some_end r1 impl of (r1', impl1) \<Rightarrow>
            case read_some_end r2 impl1 of (r2', impl2) \<Rightarrow> Some (r1', r2', impl2, w2)))
      | _ \<Rightarrow> None)"

definition seek :: "loop_lifetime_token \<Rightarrow> nat \<Rightarrow> file_impl option \<Rightarrow> (err + unit) \<times> file_impl option" where
  "seek token offset impl =
     (case file_guard token impl of
        Some ex \<Rightarrow> (Inl ex, impl)
      | None \<Rightarrow> (Inr (), Some ((the impl)\<lparr>uf_cursor := offset\<rparr>)))"

definition tell :: "loop_lifetime_token \<Rightarrow> file_impl option \<Rightarrow> err + nat" where
  "tell token impl = (case file_guard token impl of Some ex \<Rightarrow> Inl ex | None \<Rightarrow> Inr (uf_cursor (the impl)))"

definition file_close_closure :: "'os fs_env \<Rightarrow> (file_impl \<times> 'os fs_world, unit) closure" where
  "file_close_closure env fw =
     (case fw of (f, w) \<Rightarrow>
        if uf_closed f then (Inr (), False, f, w)
        else if uf_fd f \<ge> 0 then
          (case fs_close env (uf_fd f) w of (r, waited, w1) \<Rightarrow>
             (case r of
                Inl ex \<Rightarrow> (Inl ex, waited, f, w1)
              | Inr _ \<Rightarrow> (Inr (), waited, f\<lparr>uf_fd := -1, uf_closed := True\<rparr>, w1)))
        else (Inr (), False, f\<lparr>uf_closed := True\<rparr>, w))"

definition file_close ::
  "'os fs_env \<Rightarrow> bool \<Rightarrow> loop_lifetime_token \<Rightarrow> file_impl option \<Rightarrow> 'os fs_world \<Rightarrow>
   ((err + unit) \<times> file_impl option \<times> 'os fs_world) option" where
  "file_close env on_loop token impl w =
     (case impl of
        None \<Rightarrow> Some (Inr (), None, w)
      | Some f \<Rightarrow>
          (if uf_closed f then Some (Inr (), impl, w)
           else if \<not> is_loop_alive token then Some (Inr (), Some (f\<lparr>uf_fd := -1, uf_closed := True\<rparr>), w)
           else map_option (\<lambda>(r, f', w1). (r, Some f', w1)) (invoke_on_loop on_loop (file_close_closure env) (f, w))))"

definition file_valid :: "loop_lifetime_token \<Rightarrow> file_impl option \<Rightarrow> bool" where
  "file_valid token impl =
     (case impl of None \<Rightarrow> False | Some f \<Rightarrow> \<not> uf_closed f \<and> uf_fd f \<ge> 0 \<and> is_loop_alive token)"

text \<open>
  The directory operations, over a system of their own: the code returned when a request is started and the
  result its callback reports. A failure that is expected is reported as \<open>false\<close>.
\<close>

datatype dir_req = FsMkdir string int | FsRmdir string | FsUnlink string

record 'os dir_env =
  dir_start :: "dir_req \<Rightarrow> 'os \<Rightarrow> int \<times> 'os"
  dir_finish :: "dir_req \<Rightarrow> 'os \<Rightarrow> int \<times> 'os"

definition fs_raw :: "'os dir_env \<Rightarrow> string \<Rightarrow> dir_req \<Rightarrow> ('os, int) closure" where
  "fs_raw env name req os =
     (case dir_start env req os of (rc, os1) \<Rightarrow>
        if rc < 0 then (Inl (uv_error (name @ ''(start)'') rc), False, os1)
        else case dir_finish env req os1 of (result, os2) \<Rightarrow> (Inr result, True, os2))"

definition fs_mkdir_raw :: "'os dir_env \<Rightarrow> string \<Rightarrow> int \<Rightarrow> ('os, int) closure" where
  "fs_mkdir_raw env path mode = fs_raw env ''uv_fs_mkdir'' (FsMkdir path mode)"

definition fs_rmdir_raw :: "'os dir_env \<Rightarrow> string \<Rightarrow> ('os, int) closure" where
  "fs_rmdir_raw env path = fs_raw env ''uv_fs_rmdir'' (FsRmdir path)"

definition fs_unlink_raw :: "'os dir_env \<Rightarrow> string \<Rightarrow> ('os, int) closure" where
  "fs_unlink_raw env path = fs_raw env ''uv_fs_unlink'' (FsUnlink path)"

definition raw_to_bool :: "string \<Rightarrow> int \<Rightarrow> ('os, int) closure \<Rightarrow> ('os, bool) closure" where
  "raw_to_bool name benign raw os =
     (case raw os of (r, waited, os') \<Rightarrow>
        ((case r of
            Inl ex \<Rightarrow> Inl ex
          | Inr result \<Rightarrow>
              if result \<ge> 0 then Inr True
              else if result = benign then Inr False
              else Inl (uv_error name result)), waited, os'))"

definition create_directory ::
  "uv_codes \<Rightarrow> 'os dir_env \<Rightarrow> bool \<Rightarrow> string \<Rightarrow> int \<Rightarrow> 'os \<Rightarrow> ((err + bool) \<times> 'os) option" where
  "create_directory c env on_loop path mode os =
     invoke_on_loop on_loop (raw_to_bool ''uv_fs_mkdir'' (uv_eexist c) (fs_mkdir_raw env path mode)) os"

definition remove_directory ::
  "uv_codes \<Rightarrow> 'os dir_env \<Rightarrow> bool \<Rightarrow> string \<Rightarrow> 'os \<Rightarrow> ((err + bool) \<times> 'os) option" where
  "remove_directory c env on_loop path os =
     invoke_on_loop on_loop (raw_to_bool ''uv_fs_rmdir'' (uv_enoent c) (fs_rmdir_raw env path)) os"

definition remove_file ::
  "uv_codes \<Rightarrow> 'os dir_env \<Rightarrow> bool \<Rightarrow> string \<Rightarrow> 'os \<Rightarrow> ((err + bool) \<times> 'os) option" where
  "remove_file c env on_loop path os =
     invoke_on_loop on_loop (raw_to_bool ''uv_fs_unlink'' (uv_enoent c) (fs_unlink_raw env path)) os"

definition create_file_closure :: "'os fs_env \<Rightarrow> string \<Rightarrow> bool \<Rightarrow> ('os fs_world, bool) closure" where
  "create_file_closure env path trunc w =
     (let flags = [UV_FS_O_WRONLY, UV_FS_O_CREAT] @ (if trunc then [UV_FS_O_TRUNC] else []) in
      case fs_open env path flags 420 w of (r, waited, w1) \<Rightarrow>
        case r of
          Inl ex \<Rightarrow> (Inl ex, waited, w1)
        | Inr fd \<Rightarrow>
            (case fs_close env fd w1 of (r2, waited2, w2) \<Rightarrow>
               (case r2 of Inl ex \<Rightarrow> (Inl ex, waited \<or> waited2, w2) | Inr _ \<Rightarrow> (Inr True, waited \<or> waited2, w2))))"

definition create_file where
  "create_file env on_loop path trunc w = invoke_on_loop on_loop (create_file_closure env path trunc) w"

lemma to_int64_small [simp]: "n < 2 ^ 63 \<Longrightarrow> to_int64 n = int n"
proof -
  assume "n < 2 ^ 63"
  then have "int n < 2 ^ 63" by (metis of_nat_less_iff of_nat_numeral of_nat_power)
  then show ?thesis by (simp add: to_int64_def Let_def)
qed

lemma to_uint_small [simp]: "n < 2 ^ 32 \<Longrightarrow> to_uint n = n"
  by (simp add: to_uint_def)

text \<open>Successive calls of \<open>read_some\<close> by one fiber; the first exception ends the sequence.\<close>

fun read_sequence ::
  "'os fs_env \<Rightarrow> loop_lifetime_token \<Rightarrow> nat list \<Rightarrow> file_impl option \<Rightarrow> 'os fs_world \<Rightarrow>
   ((err + byte list list) \<times> file_impl option \<times> 'os fs_world) option" where
  "read_sequence env token [] impl w = Some (Inr [], impl, w)"
| "read_sequence env token (sz # szs) impl w =
     Option.bind (read_some env True token sz impl w) (\<lambda>(r, impl1, w1).
       case r of
         Inl ex \<Rightarrow> Some (Inl ex, impl1, w1)
       | Inr out \<Rightarrow>
           map_option (\<lambda>(r2, impl2, w2). (map_sum id (\<lambda>outs. out # outs) r2, impl2, w2))
             (read_sequence env token szs impl1 w1))"

lemma file_guard_open [simp]:
  "is_loop_alive token \<Longrightarrow> \<not> uf_closed f \<Longrightarrow> file_guard token (Some f) = None"
  by (simp add: file_guard_def)

lemma advance_simps [simp]:
  "uf_fd (advance n f) = uf_fd f" "uf_closed (advance n f) = uf_closed f"
  "uf_cursor (advance n f) = (uf_cursor f + n) mod 2 ^ 64"
  by (simp_all add: advance_def)

text \<open>
  The abstract file: a content and a position. Seeking moves the position, writing overwrites from the
  position on and moves it past the data. A history of the two operations on it, on a \<open>File\<close>, and the
  condition under which they are compared: no write beyond the end, nor of 4 GiB, nor past offset \<open>2 ^ 63\<close>.
\<close>

datatype file_op = FSeek nat | FWrite "byte list"

fun abs_file_op :: "file_op \<Rightarrow> byte list \<times> nat \<Rightarrow> byte list \<times> nat" where
  "abs_file_op (FSeek off) (bs, pos) = (bs, off)"
| "abs_file_op (FWrite data) (bs, pos) = (splice pos data bs, pos + length data)"

fun abs_file_ok :: "file_op list \<Rightarrow> byte list \<times> nat \<Rightarrow> bool" where
  "abs_file_ok [] a = True"
| "abs_file_ok (FSeek off # ops) a = (off < 2 ^ 63 \<and> abs_file_ok ops (abs_file_op (FSeek off) a))"
| "abs_file_ok (FWrite data # ops) a =
     (length data < 2 ^ 32 \<and> snd a + length data < 2 ^ 63 \<and>
      abs_file_ok ops (abs_file_op (FWrite data) a))"

fun file_do ::
  "'os fs_env \<Rightarrow> loop_lifetime_token \<Rightarrow> file_op \<Rightarrow> file_impl option \<Rightarrow> 'os fs_world \<Rightarrow>
   ((err + unit) \<times> file_impl option \<times> 'os fs_world) option" where
  "file_do env token (FSeek off) impl w = (case seek token off impl of (r, impl') \<Rightarrow> Some (r, impl', w))"
| "file_do env token (FWrite data) impl w =
     map_option (\<lambda>(r, impl', w'). (map_sum id (\<lambda>_. ()) r, impl', w')) (write_some env True token data impl w)"

fun file_history ::
  "'os fs_env \<Rightarrow> loop_lifetime_token \<Rightarrow> file_op list \<Rightarrow> file_impl option \<Rightarrow> 'os fs_world \<Rightarrow>
   ((err + unit) \<times> file_impl option \<times> 'os fs_world) option" where
  "file_history env token [] impl w = Some (Inr (), impl, w)"
| "file_history env token (a # ops) impl w =
     Option.bind (file_do env token a impl w) (\<lambda>(r, impl1, w1).
       case r of Inl ex \<Rightarrow> Some (Inl ex, impl1, w1) | Inr _ \<Rightarrow> file_history env token ops impl1 w1)"

subsection \<open>The write loop\<close>

lemma complete_finish_result: "fst (fst (complete env req w)) = fst (fst (fs_finish env req (w_os w)))"
  by (simp add: complete_def split: prod.splits)

lemma on_fs_write_ends:
  assumes progress: "\<forall>fd bs off os. fst (fst (fs_finish env (FsWrite fd bs off) os)) \<noteq> 0" and "result \<noteq> 0"
  shows "on_fs_write env fd data base k result w \<noteq> None"
  using assms(2)
proof (induction "length data - k" arbitrary: k result w rule: less_induct)
  case less
  let ?k = "k + nat result"
  let ?req = "FsWrite fd (take (to_uint (length data - ?k)) (drop ?k data)) (to_int64 (base + ?k))"
  obtain rc w1 where i: "issue env ?req w = (rc, w1)" by (metis surj_pair)
  obtain res w2 where c: "complete env ?req w1 = (res, w2)" by (metis surj_pair)
  have "fst res \<noteq> 0" using progress complete_finish_result [of env ?req w1] c by simp
  then have "on_fs_write env fd data base ?k (fst res) w2 \<noteq> None" if "0 < result" "?k < length data"
    using less.hyps [of ?k "fst res" w2] that by (simp add: diff_less_mono2)
  then show ?case using less.prems i c by (subst on_fs_write.simps) (auto simp: Let_def)
qed

text \<open>A write that moves no byte, from a state in which it will do so again, is repeated for ever.\<close>

lemma on_fs_write_stuck:
  assumes stuck: "\<And>v. P v \<Longrightarrow> \<exists>rc w1 bs w2. issue env (FsWrite fd (take (to_uint (length data)) data) (to_int64 base)) v = (rc, w1) \<and>
      0 \<le> rc \<and> complete env (FsWrite fd (take (to_uint (length data)) data) (to_int64 base)) w1 = ((0, bs), w2) \<and> P w2"
    and "data \<noteq> []" "P w"
  shows "on_fs_write env fd data base 0 0 w = None"
proof -
  have "e = env \<longrightarrow> g = fd \<longrightarrow> d = data \<longrightarrow> b = base \<longrightarrow> k = 0 \<longrightarrow> r = 0 \<longrightarrow> P v \<longrightarrow> False"
    if "on_fs_write e g d b k r v = Some y" for e g d b k r v y
  proof (rule on_fs_write.raw_induct [OF _ that])
    fix f e g d b k r v y
    assume IH: "\<And>e g d b k r v y. f e g d b k r v = Some y \<Longrightarrow>
        e = env \<longrightarrow> g = fd \<longrightarrow> d = data \<longrightarrow> b = base \<longrightarrow> k = 0 \<longrightarrow> r = 0 \<longrightarrow> P v \<longrightarrow> False"
      and body: "(if r < 0 then Some (Inl (uv_error ''uv_fs_write'' r), v)
      else let written' = k + nat r in
        if written' \<ge> length d then Some (Inr written', v)
        else
          let remaining = length d - written';
              req = FsWrite g (take (to_uint remaining) (drop written' d)) (to_int64 (b + written'))
          in case issue e req v of (rc, w1) \<Rightarrow>
            if rc < 0 then Some (Inl (uv_error ''uv_fs_write(start)'' rc), w1)
            else case complete e req w1 of (res, w2) \<Rightarrow> f e g d b written' (fst res) w2) = Some y"
    show "e = env \<longrightarrow> g = fd \<longrightarrow> d = data \<longrightarrow> b = base \<longrightarrow> k = 0 \<longrightarrow> r = 0 \<longrightarrow> P v \<longrightarrow> False"
    proof (intro impI)
      assume h: "e = env" "g = fd" "d = data" "b = base" "k = 0" "r = 0" "P v"
      obtain rc w1 bs w2 where i: "issue env (FsWrite fd (take (to_uint (length data)) data) (to_int64 base)) v = (rc, w1)" "0 \<le> rc"
        "complete env (FsWrite fd (take (to_uint (length data)) data) (to_int64 base)) w1 = ((0, bs), w2)" "P w2"
        using stuck [OF h(7)] by blast
      have "f env fd data base 0 0 w2 = Some y" using body h i assms(2) by (simp add: Let_def)
      then show False using IH i(4) by blast
    qed
  qed
  from this [of env fd data base 0 0 w] assms(3) show ?thesis by (cases "on_fs_write env fd data base 0 0 w") auto
qed

lemma on_fs_write_diverges:
  assumes stuck: "\<forall>fd bs off os. fst (fst (fs_finish env (FsWrite fd bs off) os)) = 0"
    and start: "\<forall>req os. 0 \<le> fst (fs_start env req os)" and "data \<noteq> []"
  shows "on_fs_write env fd data base 0 0 w = None"
proof (rule on_fs_write_stuck [of "\<lambda>_. True", OF _ assms(3) TrueI])
  fix v
  let ?req = "FsWrite fd (take (to_uint (length data)) data) (to_int64 base)"
  obtain rc w1 where i: "issue env ?req v = (rc, w1)" by (metis surj_pair)
  obtain r bs w2 where c: "complete env ?req w1 = ((r, bs), w2)" by (metis surj_pair)
  have "0 \<le> rc" using start i by (simp add: issue_def split: prod.splits) (metis fst_conv)
  moreover have "r = 0" using stuck complete_finish_result [of env ?req w1] c by simp
  ultimately show "\<exists>rc w1 bs w2. issue env ?req v = (rc, w1) \<and> 0 \<le> rc \<and> complete env ?req w1 = ((0, bs), w2) \<and> True"
    using i c by auto
qed

subsection \<open>On a regular file\<close>

context regular_file
begin

lemma fs_read_at_ok:
  assumes "refers (w_os w) fd ForReading" "0 < sz" "sz < 2 ^ 32" "off < 2 ^ 63"
  obtains out w' where "fs_read_at env fd sz off w = (Inr out, True, w')"
    "refers (w_os w') = refers (w_os w)" "content (w_os w') = content (w_os w)"
    "out = take (length out) (drop off (content (w_os w)))" "length out \<le> sz"
    "out = [] \<longleftrightarrow> length (content (w_os w)) \<le> off"
proof -
  let ?req = "FsRead fd sz (int off)"
  obtain rc w1 where i: "issue env ?req w = (rc, w1)" "0 \<le> rc"
    "content (w_os w1) = content (w_os w)" "refers (w_os w1) = refers (w_os w)" by (rule issue_ok)
  obtain r bs w2 where c: "complete env ?req w1 = ((r, bs), w2)"
    "fs_finish env ?req (w_os w1) = ((r, bs), w_os w2)" by (rule complete_finish)
  note law = read_law [OF _ assms(2) c(2), unfolded i(3,4), OF assms(1)]
  have "0 \<le> r" using law by (simp split: if_splits)
  then have "fs_read_at env fd sz off w = (Inr (take (nat r) bs), True, w2)"
    using i c(1) assms by (simp add: fs_read_at_def)
  then show thesis using law by (intro that [of "take (nat r) bs" w2]) (auto split: if_splits simp: min_def)
qed

text \<open>The loop of \<open>on_fs_write\<close> ends, since every write moves at least a byte.\<close>

lemma on_fs_write_ok:
  assumes "refers (w_os w) fd ForWriting" "written + nat result \<le> length data" "0 \<le> result"
    "length data < 2 ^ 32" "base + length data < 2 ^ 63"
    "content (w_os w) = splice base (take (written + nat result) data) old"
  shows "\<exists>w'. on_fs_write env fd data base written result w = Some (Inr (length data), w') \<and>
    refers (w_os w') = refers (w_os w) \<and> content (w_os w') = splice base data old"
  using assms
proof (induction "length data - (written + nat result)" arbitrary: written result w rule: less_induct)
  case less
  let ?k = "written + nat result"
  show ?case
  proof (cases "?k < length data")
    case True
    let ?buf = "drop ?k data" let ?req = "FsWrite fd ?buf (int (base + ?k))"
    have buf: "take (to_uint (length data - ?k)) (drop ?k data) = ?buf"
      using less.prems(4) by simp
    obtain rc w1 where i: "issue env ?req w = (rc, w1)" "0 \<le> rc"
      "content (w_os w1) = content (w_os w)" "refers (w_os w1) = refers (w_os w)" by (rule issue_ok)
    obtain r bs w2 where c: "complete env ?req w1 = ((r, bs), w2)"
      "fs_finish env ?req (w_os w1) = ((r, bs), w_os w2)" by (rule complete_finish)
    have law: "0 < r" "nat r \<le> length ?buf" "refers (w_os w2) = refers (w_os w)"
      "content (w_os w2) = splice (base + ?k) (take (nat r) ?buf) (content (w_os w1))"
      using write_law [OF _ _ c(2)] less.prems(1) i True by auto
    then have cont: "content (w_os w2) = splice base (take (?k + nat r) data) old"
      using splice_splice [of base "take ?k data" "take (nat r) ?buf" old] i(3) less.prems True by (simp add: take_add)
    have run: "on_fs_write env fd data base written result w = on_fs_write env fd data base ?k r w2"
      using True less.prems(3,5) i c(1) buf
      by (subst on_fs_write.simps) (simp add: Let_def)
    show ?thesis
      unfolding run using less.hyps [of ?k r w2] law less.prems True cont by auto
  next
    case False
    then show ?thesis using less.prems by (subst on_fs_write.simps) simp
  qed
qed

lemma fs_write_at_ok:
  assumes "refers (w_os w) fd ForWriting" "length data < 2 ^ 32" "off + length data < 2 ^ 63"
  shows "\<exists>waited w'. fs_write_at env fd data off w = Some (Inr (length data), waited, w') \<and>
    refers (w_os w') = refers (w_os w) \<and>
    content (w_os w') = splice off data (content (w_os w))"
proof (cases "data = []")
  case False
  let ?req = "FsWrite fd data (int off)"
  obtain rc w1 where i: "issue env ?req w = (rc, w1)" "0 \<le> rc"
    "content (w_os w1) = content (w_os w)" "refers (w_os w1) = refers (w_os w)" by (rule issue_ok)
  obtain r bs w2 where c: "complete env ?req w1 = ((r, bs), w2)"
    "fs_finish env ?req (w_os w1) = ((r, bs), w_os w2)" by (rule complete_finish)
  note law = write_law [OF _ False c(2), unfolded i(3,4), OF assms(1)]
  show ?thesis
    using on_fs_write_ok [of w2 fd 0 r data off "content (w_os w)"] law assms i c(1) False
    by (auto simp: fs_write_at_def)
qed (auto simp: fs_write_at_def)

lemma fs_write_at_4gib:
  assumes "refers (w_os w) fd (write_access app)" "0 < length data" "2 ^ 32 dvd length data"
  shows "fs_write_at env fd data off w = None"
proof -
  let ?req = "FsWrite fd [] (to_int64 off)"
  have z: "to_uint (length data) = 0" using assms(3) by (simp add: to_uint_def)
  have stuck: "\<exists>rc w1 bs w2. issue env ?req v = (rc, w1) \<and> 0 \<le> rc \<and> complete env ?req w1 = ((0, bs), w2) \<and>
      refers (w_os w2) fd (write_access app)" if v: "refers (w_os v) fd (write_access app)" for v
  proof -
    obtain rc w1 where i: "issue env ?req v = (rc, w1)" "0 \<le> rc" "refers (w_os w1) = refers (w_os v)" by (rule issue_ok)
    obtain r bs w2 where c: "complete env ?req w1 = ((r, bs), w2)" "fs_finish env ?req (w_os w1) = ((r, bs), w_os w2)"
      by (rule complete_finish)
    show ?thesis using write_empty_law [OF _ c(2), of app] v i c(1) by auto
  qed
  then have "on_fs_write env fd data off 0 0 v = None" if "refers (w_os v) fd (write_access app)" for v
    using on_fs_write_stuck [of "\<lambda>v. refers (w_os v) fd (write_access app)" env fd data off v] z assms(2) that by simp
  then show ?thesis using stuck [OF assms(1)] assms(2) z by (auto simp: fs_write_at_def Let_def)
qed

lemma read_some_ok:
  assumes "refers (w_os w) (uf_fd f) ForReading" "0 < sz" "sz < 2 ^ 32" "is_loop_alive token" "\<not> uf_closed f"
    "uf_cursor f < 2 ^ 63" "length (content (w_os w)) < 2 ^ 63"
  obtains out w' where "read_some env True token sz (Some f) w = Some (Inr out, Some (f\<lparr>uf_cursor := uf_cursor f + length out\<rparr>), w')"
    "refers (w_os w') = refers (w_os w)" "content (w_os w') = content (w_os w)"
    "out = take (length out) (drop (uf_cursor f) (content (w_os w)))" "length out \<le> sz"
    "out = [] \<longleftrightarrow> length (content (w_os w)) \<le> uf_cursor f" "uf_cursor f + length out < 2 ^ 63"
proof -
  obtain out w' where r: "fs_read_at env (uf_fd f) sz (uf_cursor f) w = (Inr out, True, w')"
    "refers (w_os w') = refers (w_os w)" "content (w_os w') = content (w_os w)"
    "out = take (length out) (drop (uf_cursor f) (content (w_os w)))" "length out \<le> sz"
    "out = [] \<longleftrightarrow> length (content (w_os w)) \<le> uf_cursor f"
    using fs_read_at_ok [OF assms(1-3,6)] by metis
  have "length out \<le> length (content (w_os w)) - uf_cursor f" by (subst r(4)) simp
  then have "uf_cursor f + length out < 2 ^ 63" using assms(6,7) by linarith
  moreover from this have "read_some env True token sz (Some f) w =
      Some (Inr out, Some (f\<lparr>uf_cursor := uf_cursor f + length out\<rparr>), w')"
    using assms(4,5) r(1) by (simp add: read_some_def some_begin_def read_at_def read_some_end_def advance_def)
  ultimately show thesis using that r by blast
qed

lemma read_sequence_ok:
  assumes "refers (w_os w) (uf_fd f) ForReading" "\<forall>sz \<in> set szs. 0 < sz \<and> sz < 2 ^ 32" "is_loop_alive token"
    "\<not> uf_closed f" "uf_cursor f < 2 ^ 63" "length (content (w_os w)) < 2 ^ 63"
  shows "\<exists>outs w'. read_sequence env token szs (Some f) w =
      Some (Inr outs, Some (f\<lparr>uf_cursor := uf_cursor f + length (concat outs)\<rparr>), w') \<and>
    length outs = length szs \<and> content (w_os w') = content (w_os w) \<and>
    concat outs = take (length (concat outs)) (drop (uf_cursor f) (content (w_os w))) \<and>
    (outs \<noteq> [] \<and> last outs = [] \<longrightarrow> concat outs = drop (uf_cursor f) (content (w_os w)))"
  using assms
proof (induction szs arbitrary: f w)
  case (Cons sz szs)
  obtain out w1 where r: "read_some env True token sz (Some f) w =
      Some (Inr out, Some (f\<lparr>uf_cursor := uf_cursor f + length out\<rparr>), w1)"
    "refers (w_os w1) = refers (w_os w)" "content (w_os w1) = content (w_os w)"
    "out = take (length out) (drop (uf_cursor f) (content (w_os w)))"
    "out = [] \<longleftrightarrow> length (content (w_os w)) \<le> uf_cursor f" "uf_cursor f + length out < 2 ^ 63"
    using read_some_ok [of w f sz token] Cons.prems by (metis list.set_intros(1))
  let ?f = "f\<lparr>uf_cursor := uf_cursor f + length out\<rparr>"
  obtain outs w2 where q: "read_sequence env token szs (Some ?f) w1 =
      Some (Inr outs, Some (?f\<lparr>uf_cursor := uf_cursor ?f + length (concat outs)\<rparr>), w2)"
    "length outs = length szs" "content (w_os w2) = content (w_os w1)"
    "concat outs = take (length (concat outs)) (drop (uf_cursor ?f) (content (w_os w1)))"
    "outs \<noteq> [] \<and> last outs = [] \<longrightarrow> concat outs = drop (uf_cursor ?f) (content (w_os w1))"
    using Cons.IH [of w1 ?f] Cons.prems r by (auto simp: r(2,3))
  have run: "read_sequence env token (sz # szs) (Some f) w =
      Some (Inr (out # outs), Some (f\<lparr>uf_cursor := uf_cursor f + length (concat (out # outs))\<rparr>), w2)"
    using r(1) q(1) by (simp add: add.assoc)
  have pieces: "concat (out # outs) = take (length (concat (out # outs))) (drop (uf_cursor f) (content (w_os w)))"
    using q(4) r(3,4) by (simp add: take_add add.commute)
  have "last (out # outs) = [] \<longrightarrow> concat (out # outs) = drop (uf_cursor f) (content (w_os w))"
    using q(5) r(3-5) by (cases "outs = []") (auto simp: add.commute, metis append_take_drop_id drop_drop)
  moreover have "length (out # outs) = length (sz # szs)" "content (w_os w2) = content (w_os w)"
    using q(2,3) r(3) by simp_all
  ultimately show ?case using run pieces by blast
qed simp

text \<open>What an open file shows of the system: the content and the cursor.\<close>

lemma write_some_refines:
  assumes "refers (w_os w) (uf_fd f) ForWriting" "is_loop_alive token" "\<not> uf_closed f" "length data < 2 ^ 32"
    "uf_cursor f + length data < 2 ^ 63"
  shows "\<exists>w'. write_some env True token data (Some f) w =
      Some (Inr (length data), Some (f\<lparr>uf_cursor := uf_cursor f + length data\<rparr>), w') \<and>
    refers (w_os w') = refers (w_os w) \<and>
    (content (w_os w'), uf_cursor f + length data) = abs_file_op (FWrite data) (content (w_os w), uf_cursor f)"
proof -
  obtain waited w' where "fs_write_at env (uf_fd f) data (uf_cursor f) w = Some (Inr (length data), waited, w')"
    "refers (w_os w') = refers (w_os w)"
    "content (w_os w') = splice (uf_cursor f) data (content (w_os w))"
    using fs_write_at_ok [OF assms(1,4,5)] by blast
  moreover have "(uf_cursor f + length data) mod 2 ^ 64 = uf_cursor f + length data" using assms(5) by simp
  ultimately show ?thesis using assms(2,3)
    by (simp add: write_some_def some_begin_def write_at_def write_some_end_def advance_def)
qed

lemma file_history_ok:
  assumes "refers (w_os w) (uf_fd f) ForWriting" "is_loop_alive token" "\<not> uf_closed f"
    "abs_file_ok ops (content (w_os w), uf_cursor f)"
  shows "\<exists>f' w'. file_history env token ops (Some f) w = Some (Inr (), Some f', w') \<and> uf_fd f' = uf_fd f \<and>
    \<not> uf_closed f' \<and> refers (w_os w') = refers (w_os w) \<and>
    (content (w_os w'), uf_cursor f') = fold abs_file_op ops (content (w_os w), uf_cursor f)"
  using assms
proof (induction ops arbitrary: f w)
  case (Cons a ops)
  show ?case
  proof (cases a)
    case (FSeek off)
    then show ?thesis using Cons.IH [of w "f\<lparr>uf_cursor := off\<rparr>"] Cons.prems by (simp add: seek_def)
  next
    case (FWrite data)
    then obtain w1 where w1: "write_some env True token data (Some f) w =
        Some (Inr (length data), Some (f\<lparr>uf_cursor := uf_cursor f + length data\<rparr>), w1)"
      "refers (w_os w1) = refers (w_os w)"
      "(content (w_os w1), uf_cursor f + length data) = abs_file_op (FWrite data) (content (w_os w), uf_cursor f)"
      using write_some_refines [of w f token data] Cons.prems by auto
    show ?thesis
      using Cons.IH [of w1 "f\<lparr>uf_cursor := uf_cursor f + length data\<rparr>"] w1 FWrite Cons.prems by (simp flip: w1(3))
  qed
qed simp

end

subsection \<open>Properties\<close>

text \<open>
  \<open>write_at\<close> on an open file stores the data at the offset, changes nothing else of the content,
  and returns the number of bytes of the data, however the system splits the writes; the data is below 4 GiB.
\<close>

theorem file_write_at_stores:
  assumes "regular_file env path content refers" "refers (w_os w) (uf_fd f) ForWriting" "is_loop_alive token"
    "\<not> uf_closed f" "length data < 2 ^ 32" "off + length data < 2 ^ 63"
  shows "\<exists>w'. write_at env True token data off (Some f) w = Some (Inr (length data), w') \<and>
    content (w_os w') = splice off data (content (w_os w))"
  using regular_file.fs_write_at_ok [OF assms(1,2,5,6)] assms(3,4) by (auto simp: write_at_def)

theorem file_write_at_stores_witness:
  "\<exists>w'. write_at (mem_fs 1) True (Some True) [7, 8, 9] 1
      (Some \<lparr>uf_fd = 3, uf_cursor = 0, uf_closed = False\<rparr>) \<lparr>w_os = [1, 2, 3, 4, 5], w_log = []\<rparr> = Some (Inr 3, w') \<and>
    w_os w' = [1, 7, 8, 9, 5]"
  using file_write_at_stores [OF mem_fs_law [of 1], where w = "\<lparr>w_os = [1, 2, 3, 4, 5], w_log = []\<rparr>" and
      f = "\<lparr>uf_fd = 3, uf_cursor = 0, uf_closed = False\<rparr>" and token = "Some True" and data = "[7, 8, 9]" and
      off = 1] by (simp add: splice_def numeral_3_eq_3)

text \<open>
  C21. An open \<open>File\<close>, not opened for appending, refines the abstract file: on a live loop a history of \<open>seek\<close> and \<open>write_some\<close>, of
  data below 4 GiB at offsets below \<open>2^63\<close>, returns, without an
  exception, and leaves the content and the cursor that the abstract operations leave, however the
  system splits the writes.
\<close>

theorem file_refines_abstract:
  assumes "regular_file env path content refers" "refers (w_os w) (uf_fd f) ForWriting" "is_loop_alive token"
    "\<not> uf_closed f" "abs_file_ok ops (content (w_os w), uf_cursor f)"
  shows "\<exists>f' w'. file_history env token ops (Some f) w = Some (Inr (), Some f', w') \<and>
    (content (w_os w'), uf_cursor f') = fold abs_file_op ops (content (w_os w), uf_cursor f) \<and>
    tell token (Some f') = Inr (snd (fold abs_file_op ops (content (w_os w), uf_cursor f)))"
proof -
  obtain f' w' where "file_history env token ops (Some f) w = Some (Inr (), Some f', w')" "\<not> uf_closed f'"
    and abs: "(content (w_os w'), uf_cursor f') = fold abs_file_op ops (content (w_os w), uf_cursor f)"
    using regular_file.file_history_ok [OF assms] by blast
  moreover have "tell token (Some f') = Inr (snd (fold abs_file_op ops (content (w_os w), uf_cursor f)))"
    using \<open>\<not> uf_closed f'\<close> assms(3) by (simp add: tell_def flip: abs)
  ultimately show ?thesis by blast
qed

theorem file_refines_abstract_witness:
  "\<exists>f' w'. file_history (mem_fs 0) (Some True) [FWrite [7, 8], FSeek 5, FWrite [9]]
      (Some \<lparr>uf_fd = 3, uf_cursor = 0, uf_closed = False\<rparr>) \<lparr>w_os = [1, 2, 3], w_log = []\<rparr> = Some (Inr (), Some f', w') \<and>
    w_os w' = [7, 8, 3, 0, 0, 9] \<and> uf_cursor f' = 6"
proof -
  let ?f = "\<lparr>uf_fd = 3, uf_cursor = 0, uf_closed = False\<rparr>" and ?w = "\<lparr>w_os = [1, 2, 3], w_log = []\<rparr> :: byte list fs_world"
  have "abs_file_ok [FWrite [7, 8], FSeek 5, FWrite [9]] (w_os ?w, uf_cursor ?f)" by simp
  from file_refines_abstract [OF mem_fs_law [of 0 "''/a''"] _ _ _ this, of "Some True"] show ?thesis
    by (auto simp: splice_def eval_nat_numeral simp del: file_history.simps)
qed

text \<open>
  C22. On an open file, not opened for appending, and a live loop, writing pieces of less than 4 GiB in all, below the offset \<open>2^63\<close>,
  one after the other leaves the same content and the same cursor as
  writing all of them with one call.
\<close>

theorem file_write_pieces_equiv:
  assumes "regular_file env path content refers" "refers (w_os w) (uf_fd f) ForWriting" "is_loop_alive token"
    "\<not> uf_closed f" "length (concat pieces) < 2 ^ 32"
    "uf_cursor f + length (concat pieces) < 2 ^ 63"
  shows "\<exists>f' w1 w2. file_history env token (map FWrite pieces) (Some f) w = Some (Inr (), Some f', w1) \<and>
    write_some env True token (concat pieces) (Some f) w = Some (Inr (length (concat pieces)), Some f', w2) \<and>
    content (w_os w1) = content (w_os w2)"
  using assms(2-)
proof (induction pieces arbitrary: f w)
  case Nil
  then show ?case
    using regular_file.write_some_refines [OF assms(1), of w f token "[]"] by auto
next
  case (Cons p ps)
  let ?k = "uf_cursor f + length p" let ?f = "f\<lparr>uf_cursor := ?k\<rparr>"
  obtain w1 where w1: "write_some env True token p (Some f) w = Some (Inr (length p), Some ?f, w1)"
    "refers (w_os w1) = refers (w_os w)"
    "content (w_os w1) = splice (uf_cursor f) p (content (w_os w))"
    using regular_file.write_some_refines [OF assms(1), of w f token p] Cons.prems by auto
  obtain f' v1 v2 where ih: "file_history env token (map FWrite ps) (Some ?f) w1 = Some (Inr (), Some f', v1)"
    "write_some env True token (concat ps) (Some ?f) w1 = Some (Inr (length (concat ps)), Some f', v2)"
    "content (w_os v1) = content (w_os v2)"
    using Cons.IH [of w1 ?f] w1 Cons.prems by auto
  obtain v where v: "content (w_os v) = splice ?k (concat ps) (content (w_os w1))"
    "v = v2" "f' = f\<lparr>uf_cursor := ?k + length (concat ps)\<rparr>"
    using regular_file.write_some_refines [OF assms(1), of w1 ?f token "concat ps"] ih(2) w1 Cons.prems by auto
  obtain w2 where w2: "write_some env True token (p @ concat ps) (Some f) w =
      Some (Inr (length (p @ concat ps)), Some (f\<lparr>uf_cursor := uf_cursor f + length (p @ concat ps)\<rparr>), w2)"
    "content (w_os w2) = splice (uf_cursor f) (p @ concat ps) (content (w_os w))"
    using regular_file.write_some_refines [OF assms(1), of w f token "p @ concat ps"] Cons.prems by auto
  have "content (w_os v) = content (w_os w2)"
    using v(1) w1(3) w2(2) by (simp add: splice_splice)
  then show ?case using w1(1) ih(1,3) w2(1) v(2,3) by (simp add: add.assoc)
qed

theorem file_write_pieces_equiv_witness:
  "\<exists>f' w1 w2. file_history (mem_fs 1) (Some True) (map FWrite [[7], [8, 9]])
      (Some \<lparr>uf_fd = 3, uf_cursor = 0, uf_closed = False\<rparr>) \<lparr>w_os = [1, 2, 3], w_log = []\<rparr> = Some (Inr (), Some f', w1) \<and>
    write_some (mem_fs 1) True (Some True) (concat [[7], [8, 9]])
      (Some \<lparr>uf_fd = 3, uf_cursor = 0, uf_closed = False\<rparr>) \<lparr>w_os = [1, 2, 3], w_log = []\<rparr> =
      Some (Inr (length (concat [[7 :: byte], [8, 9]])), Some f', w2) \<and> w_os w1 = w_os w2"
  by (rule file_write_pieces_equiv [OF mem_fs_law [of 1 "''/a''"]]) simp_all

text \<open>
  C24. On the thread of a live loop, and for an open file, \<open>write_at\<close> returns on every system whose writes move at least a byte or fail, whatever else
  happens. If the system reports every write as done with no byte moved, it never returns: \<open>on_fs_write\<close>
  starts the same write again for ever.
\<close>

theorem file_write_returns:
  assumes "is_loop_alive token" "\<not> uf_closed f"
  shows "((\<forall>fd bs off os. fst (fst (fs_finish env (FsWrite fd bs off) os)) \<noteq> 0) \<longrightarrow>
      write_at env True token data off (Some f) w \<noteq> None) \<and>
    ((\<forall>fd bs off os. fst (fst (fs_finish env (FsWrite fd bs off) os)) = 0) \<and>
       (\<forall>req os. 0 \<le> fst (fs_start env req os)) \<and> data \<noteq> [] \<longrightarrow>
      write_at env True token data off (Some f) w = None)"
proof (intro conjI impI)
  let ?req = "FsWrite (uf_fd f) (take (to_uint (length data)) data) (to_int64 off)"
  obtain rc w1 where i: "issue env ?req w = (rc, w1)" by (metis surj_pair)
  obtain res w2 where c: "complete env ?req w1 = (res, w2)" by (metis surj_pair)
  {
    assume progress: "\<forall>fd bs off os. fst (fst (fs_finish env (FsWrite fd bs off) os)) \<noteq> 0"
    then have "fst res \<noteq> 0" using complete_finish_result [of env ?req w1] c by simp
    from on_fs_write_ends [OF progress this] show "write_at env True token data off (Some f) w \<noteq> None"
      using assms i c by (auto simp: write_at_def fs_write_at_def Let_def Option.bind_eq_None_conv)
  next
    assume h: "(\<forall>fd bs off os. fst (fst (fs_finish env (FsWrite fd bs off) os)) = 0) \<and>
       (\<forall>req os. 0 \<le> fst (fs_start env req os)) \<and> data \<noteq> []"
    have "\<not> rc < 0" using h i by (simp add: issue_def split: prod.splits) (metis fst_conv linorder_not_less)
    moreover have "fst res = 0" using h complete_finish_result [of env ?req w1] c by simp
    ultimately show "write_at env True token data off (Some f) w = None"
      using assms i c h on_fs_write_diverges [of env data] by (simp add: write_at_def fs_write_at_def Let_def)
  }
qed

theorem file_write_returns_witness:
  "write_at broken_fs True (Some True) [7] 0 (Some \<lparr>uf_fd = 3, uf_cursor = 0, uf_closed = False\<rparr>)
     \<lparr>w_os = (), w_log = []\<rparr> \<noteq> None"
proof -
  have "fst (fst (fs_finish broken_fs (FsWrite fd bs off) os)) \<noteq> 0" for fd bs off os
    by (simp add: broken_fs_def)
  then show ?thesis
    using file_write_returns [of "Some True" "\<lparr>uf_fd = 3, uf_cursor = 0, uf_closed = False\<rparr>" broken_fs "[7]" 0] by simp
qed

text \<open>
  Data whose size is a positive multiple of 4 GiB is never written either: the length of the buffer is cut to 32 bits, the system
  writes the empty buffer, and \<open>write_at\<close> starts the same write again for ever.
\<close>

theorem file_write_4gib_hangs:
  assumes "regular_file env path content refers" "refers (w_os w) (uf_fd f) (write_access app)" "is_loop_alive token"
    "\<not> uf_closed f" "0 < length data" "2 ^ 32 dvd length data"
  shows "write_at env True token data off (Some f) w = None"
  using regular_file.fs_write_at_4gib [OF assms(1,2,5,6)] assms(3,4) by (simp add: write_at_def)

theorem file_write_4gib_hangs_witness:
  "write_at (mem_fs 9) True (Some True) (replicate (2 ^ 32) 0) 0 (Some \<lparr>uf_fd = 3, uf_cursor = 0, uf_closed = False\<rparr>)
     \<lparr>w_os = [1, 2, 3], w_log = []\<rparr> = None"
  by (rule file_write_4gib_hangs [OF mem_fs_law]) simp_all

text \<open>
  C23. On an open file and a live loop, successive calls of \<open>read_some\<close>, of sizes above 0 and below \<open>2^32\<close>, return consecutive pieces of the content from the cursor on, the cursor
  ends after the last byte returned, and an empty result means that the end was reached.
\<close>

theorem file_read_some_consecutive:
  assumes "regular_file env path content refers" "refers (w_os w) (uf_fd f) ForReading" "is_loop_alive token"
    "\<not> uf_closed f" "\<forall>sz \<in> set szs. 0 < sz \<and> sz < 2 ^ 32" "uf_cursor f < 2 ^ 63"
    "length (content (w_os w)) < 2 ^ 63"
  shows "\<exists>outs w'. read_sequence env token szs (Some f) w =
      Some (Inr outs, Some (f\<lparr>uf_cursor := uf_cursor f + length (concat outs)\<rparr>), w') \<and>
    length outs = length szs \<and> content (w_os w') = content (w_os w) \<and>
    concat outs = take (length (concat outs)) (drop (uf_cursor f) (content (w_os w))) \<and>
    (outs \<noteq> [] \<and> last outs = [] \<longrightarrow> concat outs = drop (uf_cursor f) (content (w_os w)))"
  by (rule regular_file.read_sequence_ok [OF assms(1,2,5,3,4,6,7)])

theorem file_read_some_consecutive_witness:
  "\<exists>outs w'. read_sequence (mem_fs 1) (Some True) [2, 2, 2]
      (Some \<lparr>uf_fd = 3, uf_cursor = 1, uf_closed = False\<rparr>) \<lparr>w_os = [1, 2, 3, 4, 5], w_log = []\<rparr> =
      Some (Inr outs, Some \<lparr>uf_fd = 3, uf_cursor = 1 + length (concat outs), uf_closed = False\<rparr>, w') \<and>
    length outs = 3"
  using file_read_some_consecutive [OF mem_fs_law [of 1], where w = "\<lparr>w_os = [1, 2, 3, 4, 5], w_log = []\<rparr>" and
      f = "\<lparr>uf_fd = 3, uf_cursor = 1, uf_closed = False\<rparr>" and token = "Some True" and szs = "[2, 2, 2]"] by fastforce

text \<open>
  Two calls of \<open>read_some\<close> that overlap read from the same offset and advance the cursor by both
  lengths: they return the same bytes, and as many bytes after them are never read.
\<close>

theorem file_read_some_overlap:
  assumes "regular_file env path content refers" "refers (w_os w) (uf_fd f) ForReading" "is_loop_alive token"
    "\<not> uf_closed f" "0 < sz" "sz < 2 ^ 32" "uf_cursor f < 2 ^ 63" "length (content (w_os w)) < 2 ^ 62"
  shows "\<exists>out1 out2 w'. read_some_overlapped env token sz sz (Some f) w =
      Some (Inr out1, Inr out2, Some (f\<lparr>uf_cursor := uf_cursor f + length out1 + length out2\<rparr>), w') \<and>
    out1 = take (length out1) (drop (uf_cursor f) (content (w_os w))) \<and>
    out2 = take (length out2) (drop (uf_cursor f) (content (w_os w))) \<and>
    (uf_cursor f < length (content (w_os w)) \<longrightarrow> out1 \<noteq> [] \<and> out2 \<noteq> [])"
proof -
  obtain out1 w1 where r: "fs_read_at env (uf_fd f) sz (uf_cursor f) w = (Inr out1, True, w1)"
    "refers (w_os w1) = refers (w_os w)" "content (w_os w1) = content (w_os w)"
    "out1 = take (length out1) (drop (uf_cursor f) (content (w_os w)))"
    "out1 = [] \<longleftrightarrow> length (content (w_os w)) \<le> uf_cursor f"
    using regular_file.fs_read_at_ok [OF assms(1,2,5,6,7)] by metis
  obtain out2 w2 where q: "fs_read_at env (uf_fd f) sz (uf_cursor f) w1 = (Inr out2, True, w2)"
    "out2 = take (length out2) (drop (uf_cursor f) (content (w_os w)))"
    "out2 = [] \<longleftrightarrow> length (content (w_os w)) \<le> uf_cursor f"
    using regular_file.fs_read_at_ok [OF assms(1), of w1 "uf_fd f" sz "uf_cursor f"] assms r(2,3) by metis
  have "length out1 \<le> length (content (w_os w))" "length out2 \<le> length (content (w_os w))"
    by (subst r(4), simp) (subst q(2), simp)
  then have "uf_cursor f + length out1 + length out2 < 2 ^ 64" using assms(7,8) by simp
  then show ?thesis using r q assms(3,4)
    by (auto simp: read_some_overlapped_def some_begin_def read_at_def read_some_end_def advance_def)
qed

theorem file_read_some_overlap_witness:
  "\<exists>out1 out2 w'. read_some_overlapped (mem_fs 1) (Some True) 4 4
      (Some \<lparr>uf_fd = 3, uf_cursor = 0, uf_closed = False\<rparr>) \<lparr>w_os = [1, 2, 3, 4, 5], w_log = []\<rparr> =
      Some (Inr out1, Inr out2, Some \<lparr>uf_fd = 3, uf_cursor = length out1 + length out2, uf_closed = False\<rparr>, w') \<and>
    out1 \<noteq> [] \<and> out2 \<noteq> []"
  using file_read_some_overlap [OF mem_fs_law [of 1], where w = "\<lparr>w_os = [1, 2, 3, 4, 5], w_log = []\<rparr>" and
      f = "\<lparr>uf_fd = 3, uf_cursor = 0, uf_closed = False\<rparr>" and token = "Some True" and sz = 4] by fastforce

text \<open>
  \<open>close\<close> on the loop requests the close of an open descriptor exactly once: if it succeeds the file is
  closed and a further \<open>close\<close> requests nothing; if it fails the exception is thrown and the file keeps its
  descriptor. With the loop gone nothing is requested, and the descriptor is forgotten without being closed.
\<close>

theorem file_close_requests:
  assumes "\<not> uf_closed f" "0 \<le> uf_fd f"
  shows "\<exists>r f' w'. file_close env True token (Some f) w = Some (r, Some f', w') \<and>
    (if is_loop_alive token
     then closes (w_log w') = closes (w_log w) @ [uf_fd f] \<and>
       (case r of
          Inl ex \<Rightarrow> f' = f
        | Inr _ \<Rightarrow> uf_closed f' \<and> uf_fd f' = -1 \<and> file_close env True token (Some f') w' = Some (Inr (), Some f', w'))
     else r = Inr () \<and> w' = w \<and> uf_closed f' \<and> uf_fd f' = -1)"
  using assms
  by (auto simp: file_close_def file_close_closure_def fs_close_def issue_def complete_def
      Let_def split: prod.splits if_splits sum.splits)

theorem file_close_requests_witness:
  "\<exists>r f' w'. file_close broken_fs True (Some True) (Some \<lparr>uf_fd = 3, uf_cursor = 0, uf_closed = False\<rparr>)
      \<lparr>w_os = (), w_log = []\<rparr> = Some (r, Some f', w') \<and>
    closes (w_log w') = [3]"
  using file_close_requests [of "\<lparr>uf_fd = 3, uf_cursor = 0, uf_closed = False\<rparr>" broken_fs "Some True"
      "\<lparr>w_os = (), w_log = []\<rparr>"] by fastforce

end
