(* ===== verification/Unified_Socket.thy ===== *)
theory Unified_Socket
  imports Udp_Socket
begin

text \<open>
  \<open>io::Socket\<close> (src/io_unified.cpp), the facade over \<open>TcpServer\<close>, \<open>TcpClient\<close>, \<open>TcpConnection\<close> and \<open>UdpSocket\<close>.
  The record has the fields of \<open>Socket::Impl\<close>, a component being known by its identity. Every call
  on a component is an element of \<open>sock_call\<close>; its answer, and whether the caller was suspended for it, come
  from the parameter \<open>sock_env\<close>, and the world logs the calls, which the code does not read. The
  behaviour of the components themselves is the matter of the theories of their own.

  The member functions are closures in the sense of \<open>invoke_on_loop\<close>, written with the combinators
  \<open>cbind\<close>, \<open>creturn\<close>, \<open>cthrow\<close>: an exception leaves the closure at once and keeps the state reached.
\<close>

type_synonym endpoint = "string \<times> int"

datatype socket_type = TcpSocket | UdpSocketType

record socket_impl =
  sk_type :: socket_type
  sk_closed :: bool
  sk_listening :: bool
  sk_local :: "endpoint option"
  sk_peer :: "endpoint option"
  sk_server :: "nat option"
  sk_conn :: "nat option"
  sk_udp :: "nat option"

datatype sock_call =
    NewServer
  | ServerListen nat string int int
  | ServerAccept nat
  | ServerAcceptFor nat int
  | ServerClose nat
  | ServerDestroy nat
  | ClientConnect string int
  | ClientConnectFor string int int
  | ConnWrite nat "byte list"
  | ConnRead nat
  | ConnReadFor nat int
  | ConnClose nat
  | ConnDestroy nat
  | NewUdp
  | UdpBind nat string int
  | UdpSendTo nat string int "byte list"
  | UdpRecvFrom nat
  | UdpRecvFromFor nat int
  | UdpClose nat
  | UdpDestroy nat

datatype sock_answer = Unit | Object nat | Nothing | Bytes "byte list" | Packet udp_packet

record 'os sock_env =
  se_call :: "sock_call \<Rightarrow> 'os \<Rightarrow> (err + sock_answer) \<times> bool \<times> 'os"

record 'os sock_world =
  sw_os :: 'os
  sw_calls :: "sock_call list"

type_synonym ('os, 'a) sock_op = "(socket_impl \<times> 'os sock_world, 'a) closure"

definition creturn :: "'a \<Rightarrow> ('s, 'a) closure" where
  "creturn x s = (Inr x, False, s)"

definition cthrow :: "string \<Rightarrow> ('s, 'a) closure" where
  "cthrow msg s = (Inl (RuntimeError msg), False, s)"

definition cbind :: "('s, 'a) closure \<Rightarrow> ('a \<Rightarrow> ('s, 'b) closure) \<Rightarrow> ('s, 'b) closure" where
  "cbind m k s =
     (case m s of (r, waited, s1) \<Rightarrow>
        (case r of
           Inl ex \<Rightarrow> (Inl ex, waited, s1)
         | Inr x \<Rightarrow> (case k x s1 of (r2, waited2, s2) \<Rightarrow> (r2, waited \<or> waited2, s2))))"

definition cget :: "('os, socket_impl) sock_op" where
  "cget s = (Inr (fst s), False, s)"

definition cput :: "(socket_impl \<Rightarrow> socket_impl) \<Rightarrow> ('os, unit) sock_op" where
  "cput f s = (Inr (), False, (f (fst s), snd s))"

definition ccall :: "'os sock_env \<Rightarrow> sock_call \<Rightarrow> ('os, sock_answer) sock_op" where
  "ccall env c s =
     (case se_call env c (sw_os (snd s)) of (r, waited, os) \<Rightarrow>
        (r, waited, (fst s, \<lparr>sw_os = os, sw_calls = sw_calls (snd s) @ [c]\<rparr>)))"

text \<open>A destructor: what it throws is dropped.\<close>

definition cdestroy :: "'os sock_env \<Rightarrow> sock_call \<Rightarrow> ('os, unit) sock_op" where
  "cdestroy env c s = (case ccall env c s of (r, waited, s1) \<Rightarrow> (Inr (), waited, s1))"

text \<open>The identity carried by an answer; a component that answers anything else was not made.\<close>

fun object :: "sock_answer \<Rightarrow> nat option" where
  "object (Object i) = Some i"
| "object a = None"

fun bytes_of :: "sock_answer \<Rightarrow> byte list" where
  "bytes_of (Bytes bs) = bs"
| "bytes_of a = []"

fun packet_of :: "sock_answer \<Rightarrow> udp_packet option" where
  "packet_of (Packet p) = Some p"
| "packet_of a = None"

subsection \<open>The operations\<close>

definition new_socket :: "socket_type \<Rightarrow> socket_impl" where
  "new_socket t = \<lparr>sk_type = t, sk_closed = False, sk_listening = False, sk_local = None, sk_peer = None,
     sk_server = None, sk_conn = None, sk_udp = None\<rparr>"

definition socket_tcp :: socket_impl where
  "socket_tcp = new_socket TcpSocket"

text \<open>\<open>if (!impl->udp) impl->udp.emplace(*impl->loop)\<close>\<close>

definition ensure_udp :: "'os sock_env \<Rightarrow> ('os, unit) sock_op" where
  "ensure_udp env =
     cbind cget (\<lambda>impl.
       if sk_udp impl = None
       then cbind (ccall env NewUdp) (\<lambda>a. cput (\<lambda>i. i\<lparr>sk_udp := object a\<rparr>))
       else creturn ())"

definition socket_udp :: "'os sock_env \<Rightarrow> 'os sock_world \<Rightarrow> (err + unit) \<times> bool \<times> (socket_impl \<times> 'os sock_world)" where
  "socket_udp env w = ensure_udp env (new_socket UdpSocketType, w)"

definition bind_body :: "'os sock_env \<Rightarrow> endpoint \<Rightarrow> ('os, unit) sock_op" where
  "bind_body env local =
     cbind cget (\<lambda>impl.
       if sk_closed impl then cthrow ''socket is closed''
       else if sk_type impl = TcpSocket then cput (\<lambda>i. i\<lparr>sk_local := Some local\<rparr>)
       else cbind (ensure_udp env) (\<lambda>_. cbind cget (\<lambda>impl.
         cbind (ccall env (UdpBind (the (sk_udp impl)) (fst local) (snd local))) (\<lambda>_.
           cput (\<lambda>i. i\<lparr>sk_local := Some local\<rparr>)))))"

definition listen_body :: "'os sock_env \<Rightarrow> int \<Rightarrow> ('os, unit) sock_op" where
  "listen_body env backlog =
     cbind cget (\<lambda>impl.
       if sk_type impl \<noteq> TcpSocket then cthrow ''listen is only valid for TCP sockets''
       else case sk_local impl of
         None \<Rightarrow> cthrow ''bind() must be called before listen()''
       | Some (host, port) \<Rightarrow>
           cbind (if sk_server impl = None
                  then cbind (ccall env NewServer) (\<lambda>a. cput (\<lambda>i. i\<lparr>sk_server := object a\<rparr>))
                  else creturn ()) (\<lambda>_.
           cbind cget (\<lambda>impl.
           cbind (ccall env (ServerListen (the (sk_server impl)) host port backlog)) (\<lambda>_.
             cput (\<lambda>i. i\<lparr>sk_listening := True\<rparr>)))))"

definition child_socket :: "nat option \<Rightarrow> socket_impl" where
  "child_socket conn = (new_socket TcpSocket)\<lparr>sk_conn := conn\<rparr>"

definition can_accept :: "socket_impl \<Rightarrow> bool" where
  "can_accept impl \<longleftrightarrow> \<not> (sk_type impl \<noteq> TcpSocket \<or> \<not> sk_listening impl \<or> sk_server impl = None)"

definition accept_body :: "'os sock_env \<Rightarrow> ('os, socket_impl) sock_op" where
  "accept_body env =
     cbind cget (\<lambda>impl.
       if \<not> can_accept impl then cthrow ''accept() requires a listening TCP socket''
       else cbind (ccall env (ServerAccept (the (sk_server impl)))) (\<lambda>a. creturn (child_socket (object a))))"

definition accept_for_body :: "'os sock_env \<Rightarrow> int \<Rightarrow> ('os, socket_impl option) sock_op" where
  "accept_for_body env timeout =
     cbind cget (\<lambda>impl.
       if \<not> can_accept impl then cthrow ''accept_for() requires a listening TCP socket''
       else cbind (ccall env (ServerAcceptFor (the (sk_server impl)) timeout)) (\<lambda>a.
         creturn (if a = Nothing then None else Some (child_socket (object a)))))"

text \<open>Assigning to the engaged optional \<open>tcp_conn\<close> drops the old connection without closing it.\<close>

definition connect_body :: "'os sock_env \<Rightarrow> endpoint \<Rightarrow> ('os, unit) sock_op" where
  "connect_body env remote =
     cbind cget (\<lambda>impl.
       if sk_closed impl then cthrow ''socket is closed''
       else if sk_type impl = TcpSocket
       then cbind (ccall env (ClientConnect (fst remote) (snd remote))) (\<lambda>a.
         cput (\<lambda>i. i\<lparr>sk_conn := object a, sk_peer := Some remote\<rparr>))
       else cbind (ensure_udp env) (\<lambda>_. cput (\<lambda>i. i\<lparr>sk_peer := Some remote\<rparr>)))"

definition connect_for_body :: "'os sock_env \<Rightarrow> endpoint \<Rightarrow> int \<Rightarrow> ('os, bool) sock_op" where
  "connect_for_body env remote timeout =
     cbind cget (\<lambda>impl.
       if sk_closed impl then cthrow ''socket is closed''
       else if sk_type impl = TcpSocket
       then cbind (ccall env (ClientConnectFor (fst remote) (snd remote) timeout)) (\<lambda>a.
         if a = Nothing then creturn False
         else cbind (cput (\<lambda>i. i\<lparr>sk_conn := object a, sk_peer := Some remote\<rparr>)) (\<lambda>_. creturn True))
       else cbind (ensure_udp env) (\<lambda>_. cbind (cput (\<lambda>i. i\<lparr>sk_peer := Some remote\<rparr>)) (\<lambda>_. creturn True)))"

definition send_body :: "'os sock_env \<Rightarrow> byte list \<Rightarrow> ('os, unit) sock_op" where
  "send_body env data =
     cbind cget (\<lambda>impl.
       if sk_type impl = TcpSocket
       then (case sk_conn impl of
           None \<Rightarrow> cthrow ''TCP socket is not connected''
         | Some conn \<Rightarrow> cbind (ccall env (ConnWrite conn data)) (\<lambda>_. creturn ()))
       else case (sk_udp impl, sk_peer impl) of
           (Some udp, Some (host, port)) \<Rightarrow> cbind (ccall env (UdpSendTo udp host port data)) (\<lambda>_. creturn ())
         | _ \<Rightarrow> cthrow ''UDP socket is not connected'')"

definition packet_endpoint :: "udp_packet \<Rightarrow> endpoint" where
  "packet_endpoint p = (pk_host p, pk_port p)"

definition recv_body :: "'os sock_env \<Rightarrow> ('os, byte list) sock_op" where
  "recv_body env =
     cbind cget (\<lambda>impl.
       if sk_type impl = TcpSocket
       then (case sk_conn impl of
           None \<Rightarrow> cthrow ''TCP socket is not connected''
         | Some conn \<Rightarrow> cbind (ccall env (ConnRead conn)) (\<lambda>a. creturn (bytes_of a)))
       else case sk_udp impl of
           None \<Rightarrow> cthrow ''UDP socket is not initialized''
         | Some udp \<Rightarrow>
             cbind (ccall env (UdpRecvFrom udp)) (\<lambda>a.
             cbind (cput (\<lambda>i. i\<lparr>sk_peer := map_option packet_endpoint (packet_of a)\<rparr>)) (\<lambda>_.
               creturn (pk_data (the (packet_of a))))))"

definition recv_for_body :: "'os sock_env \<Rightarrow> int \<Rightarrow> ('os, byte list option) sock_op" where
  "recv_for_body env timeout =
     cbind cget (\<lambda>impl.
       if sk_type impl = TcpSocket
       then (case sk_conn impl of
           None \<Rightarrow> cthrow ''TCP socket is not connected''
         | Some conn \<Rightarrow> cbind (ccall env (ConnReadFor conn timeout)) (\<lambda>a.
             creturn (if a = Nothing then None else Some (bytes_of a))))
       else case sk_udp impl of
           None \<Rightarrow> cthrow ''UDP socket is not initialized''
         | Some udp \<Rightarrow>
             cbind (ccall env (UdpRecvFromFor udp timeout)) (\<lambda>a.
               case packet_of a of
                 None \<Rightarrow> creturn None
               | Some p \<Rightarrow> cbind (cput (\<lambda>i. i\<lparr>sk_peer := Some (packet_endpoint p)\<rparr>)) (\<lambda>_. creturn (Some (pk_data p)))))"

definition send_to_body :: "'os sock_env \<Rightarrow> endpoint \<Rightarrow> byte list \<Rightarrow> ('os, unit) sock_op" where
  "send_to_body env remote data =
     cbind cget (\<lambda>impl.
       if sk_type impl \<noteq> UdpSocketType then cthrow ''send_to() is only valid for UDP sockets''
       else cbind (ensure_udp env) (\<lambda>_. cbind cget (\<lambda>impl.
         cbind (ccall env (UdpSendTo (the (sk_udp impl)) (fst remote) (snd remote) data)) (\<lambda>_. creturn ()))))"

definition recv_from_body :: "'os sock_env \<Rightarrow> ('os, udp_packet) sock_op" where
  "recv_from_body env =
     cbind cget (\<lambda>impl.
       if sk_type impl \<noteq> UdpSocketType \<or> sk_udp impl = None
       then cthrow ''recv_from() is only valid for UDP sockets''
       else cbind (ccall env (UdpRecvFrom (the (sk_udp impl)))) (\<lambda>a. creturn (the (packet_of a))))"

definition recv_from_for_body :: "'os sock_env \<Rightarrow> int \<Rightarrow> ('os, udp_packet option) sock_op" where
  "recv_from_for_body env timeout =
     cbind cget (\<lambda>impl.
       if sk_type impl \<noteq> UdpSocketType \<or> sk_udp impl = None
       then cthrow ''recv_from_for() is only valid for UDP sockets''
       else cbind (ccall env (UdpRecvFromFor (the (sk_udp impl)) timeout)) (\<lambda>a. creturn (packet_of a)))"

text \<open>
  The wrapper every member function but \<open>close\<close> shares: a null \<open>impl_\<close> and a dead loop throw, then the body is
  run on the loop. \<open>None\<close>: the call does not return.
\<close>

definition on_socket ::
  "bool \<Rightarrow> loop_lifetime_token \<Rightarrow> ('os, 'a) sock_op \<Rightarrow> socket_impl option \<Rightarrow> 'os sock_world \<Rightarrow>
   ((err + 'a) \<times> socket_impl option \<times> 'os sock_world) option" where
  "on_socket on_loop token body impl w =
     (case impl of
        None \<Rightarrow> Some (Inl (RuntimeError ''invalid socket''), None, w)
      | Some i \<Rightarrow>
          (case ensure_loop_alive token of
             Some ex \<Rightarrow> Some (Inl ex, impl, w)
           | None \<Rightarrow> map_option (\<lambda>(r, i', w'). (r, Some i', w')) (invoke_on_loop on_loop body (i, w))))"

text \<open>The member functions; a negative time-out becomes zero.\<close>

definition socket_bind where
  "socket_bind env on_loop token local impl w = on_socket on_loop token (bind_body env local) impl w"

definition socket_listen where
  "socket_listen env on_loop token backlog impl w = on_socket on_loop token (listen_body env backlog) impl w"

definition socket_accept where
  "socket_accept env on_loop token impl w = on_socket on_loop token (accept_body env) impl w"

definition socket_accept_for where
  "socket_accept_for env on_loop token timeout impl w = on_socket on_loop token (accept_for_body env (clamp_ms timeout)) impl w"

definition socket_connect where
  "socket_connect env on_loop token remote impl w = on_socket on_loop token (connect_body env remote) impl w"

definition socket_connect_for where
  "socket_connect_for env on_loop token remote timeout impl w = on_socket on_loop token (connect_for_body env remote (clamp_ms timeout)) impl w"

definition socket_send where
  "socket_send env on_loop token data impl w = on_socket on_loop token (send_body env data) impl w"

definition socket_recv where
  "socket_recv env on_loop token impl w = on_socket on_loop token (recv_body env) impl w"

definition socket_recv_for where
  "socket_recv_for env on_loop token timeout impl w = on_socket on_loop token (recv_for_body env (clamp_ms timeout)) impl w"

definition socket_send_to where
  "socket_send_to env on_loop token remote data impl w = on_socket on_loop token (send_to_body env remote data) impl w"

definition socket_recv_from where
  "socket_recv_from env on_loop token impl w = on_socket on_loop token (recv_from_body env) impl w"

definition socket_recv_from_for where
  "socket_recv_from_for env on_loop token timeout impl w = on_socket on_loop token (recv_from_for_body env (clamp_ms timeout)) impl w"

text \<open>\<open>impl->x->close(); impl->x.reset();\<close> for an engaged optional; \<open>reset\<close> runs the destructor.\<close>

definition close_part ::
  "'os sock_env \<Rightarrow> (socket_impl \<Rightarrow> nat option) \<Rightarrow> (nat \<Rightarrow> sock_call) \<Rightarrow> (nat \<Rightarrow> sock_call) \<Rightarrow>
   (socket_impl \<Rightarrow> socket_impl) \<Rightarrow> ('os, unit) sock_op" where
  "close_part env part close_call destroy_call reset =
     cbind cget (\<lambda>impl.
       case part impl of
         None \<Rightarrow> creturn ()
       | Some x \<Rightarrow> cbind (ccall env (close_call x)) (\<lambda>_. cbind (cdestroy env (destroy_call x)) (\<lambda>_. cput reset)))"

definition reset_part ::
  "'os sock_env \<Rightarrow> (socket_impl \<Rightarrow> nat option) \<Rightarrow> (nat \<Rightarrow> sock_call) \<Rightarrow> (socket_impl \<Rightarrow> socket_impl) \<Rightarrow>
   ('os, unit) sock_op" where
  "reset_part env part destroy_call reset =
     cbind cget (\<lambda>impl.
       case part impl of
         None \<Rightarrow> creturn ()
       | Some x \<Rightarrow> cbind (cdestroy env (destroy_call x)) (\<lambda>_. cput reset))"

definition drop_conn :: "socket_impl \<Rightarrow> socket_impl" where
  "drop_conn i = i\<lparr>sk_conn := None\<rparr>"

definition drop_server :: "socket_impl \<Rightarrow> socket_impl" where
  "drop_server i = i\<lparr>sk_server := None\<rparr>"

definition drop_udp :: "socket_impl \<Rightarrow> socket_impl" where
  "drop_udp i = i\<lparr>sk_udp := None\<rparr>"

definition close_body :: "'os sock_env \<Rightarrow> ('os, unit) sock_op" where
  "close_body env =
     cbind cget (\<lambda>impl.
       if sk_closed impl then creturn ()
       else
         cbind (close_part env sk_conn ConnClose ConnDestroy drop_conn) (\<lambda>_.
         cbind (close_part env sk_server ServerClose ServerDestroy drop_server) (\<lambda>_.
         cbind (close_part env sk_udp UdpClose UdpDestroy drop_udp) (\<lambda>_.
           cput (\<lambda>i. i\<lparr>sk_closed := True, sk_listening := False\<rparr>)))))"

definition close_dead :: "'os sock_env \<Rightarrow> ('os, unit) sock_op" where
  "close_dead env =
     cbind (cput (\<lambda>i. i\<lparr>sk_closed := True, sk_listening := False\<rparr>)) (\<lambda>_.
     cbind (reset_part env sk_conn ConnDestroy drop_conn) (\<lambda>_.
     cbind (reset_part env sk_server ServerDestroy drop_server) (\<lambda>_.
       reset_part env sk_udp UdpDestroy drop_udp)))"

definition socket_close ::
  "'os sock_env \<Rightarrow> bool \<Rightarrow> loop_lifetime_token \<Rightarrow> socket_impl option \<Rightarrow> 'os sock_world \<Rightarrow>
   ((err + unit) \<times> socket_impl option \<times> 'os sock_world) option" where
  "socket_close env on_loop token impl w =
     (case impl of
        None \<Rightarrow> Some (Inr (), None, w)
      | Some i \<Rightarrow>
          (if \<not> is_loop_alive token
           then (case close_dead env (i, w) of (r, waited, i', w') \<Rightarrow> Some (r, Some i', w'))
           else map_option (\<lambda>(r, i', w'). (r, Some i', w')) (invoke_on_loop on_loop (close_body env) (i, w))))"

text \<open>The destructor of \<open>Socket::Impl\<close> destroys its members in the reverse of their order.\<close>

definition socket_destroy :: "'os sock_env \<Rightarrow> ('os, unit) sock_op" where
  "socket_destroy env =
     cbind (reset_part env sk_udp UdpDestroy drop_udp) (\<lambda>_.
     cbind (reset_part env sk_conn ConnDestroy drop_conn) (\<lambda>_.
       reset_part env sk_server ServerDestroy drop_server))"

definition socket_valid ::
  "loop_lifetime_token \<Rightarrow> (nat \<Rightarrow> bool) \<Rightarrow> (nat \<Rightarrow> bool) \<Rightarrow> socket_impl option \<Rightarrow> bool" where
  "socket_valid token conn_valid udp_is_valid impl =
     (case impl of
        None \<Rightarrow> False
      | Some i \<Rightarrow>
          (if sk_closed i \<or> \<not> is_loop_alive token then False
           else if sk_type i = TcpSocket
           then (case sk_conn i of Some x \<Rightarrow> conn_valid x | None \<Rightarrow> False) \<or> sk_listening i
           else case sk_udp i of Some x \<Rightarrow> udp_is_valid x | None \<Rightarrow> False))"

definition socket_type_of :: "socket_impl option \<Rightarrow> socket_type" where
  "socket_type_of impl = (case impl of None \<Rightarrow> TcpSocket | Some i \<Rightarrow> sk_type i)"

subsection \<open>Closing\<close>

named_theorems socket_bodies \<open>the bodies of the member functions and their combinators\<close>

declare cbind_def [socket_bodies] cget_def [socket_bodies] cput_def [socket_bodies] creturn_def [socket_bodies]
  cthrow_def [socket_bodies] bind_body_def [socket_bodies] accept_body_def [socket_bodies]
  accept_for_body_def [socket_bodies] connect_body_def [socket_bodies] connect_for_body_def [socket_bodies]
  send_body_def [socket_bodies] recv_body_def [socket_bodies] recv_for_body_def [socket_bodies]
  recv_from_body_def [socket_bodies] recv_from_for_body_def [socket_bodies] send_to_body_def [socket_bodies]
  listen_body_def [socket_bodies] ensure_udp_def [socket_bodies] can_accept_def [socket_bodies]

text \<open>What \<open>close\<close> leaves: the flags are set and no component is held.\<close>

definition shut_down :: "socket_impl \<Rightarrow> socket_impl" where
  "shut_down i = i\<lparr>sk_closed := True, sk_listening := False, sk_conn := None, sk_server := None, sk_udp := None\<rparr>"

definition part_calls :: "(nat \<Rightarrow> sock_call) \<Rightarrow> (nat \<Rightarrow> sock_call) \<Rightarrow> nat option \<Rightarrow> sock_call list" where
  "part_calls close_call destroy_call x = (case x of None \<Rightarrow> [] | Some n \<Rightarrow> [close_call n, destroy_call n])"

definition close_calls :: "socket_impl \<Rightarrow> sock_call list" where
  "close_calls i = part_calls ConnClose ConnDestroy (sk_conn i) @ part_calls ServerClose ServerDestroy (sk_server i) @
     part_calls UdpClose UdpDestroy (sk_udp i)"

text \<open>The \<open>close\<close> members of the components set a value on their promise and never throw.\<close>

definition closes_ok :: "'os sock_env \<Rightarrow> bool" where
  "closes_ok env \<longleftrightarrow> (\<forall>n os. isl (fst (se_call env (ConnClose n) os)) = False \<and>
     isl (fst (se_call env (ServerClose n) os)) = False \<and> isl (fst (se_call env (UdpClose n) os)) = False)"

text \<open>An operation that throws at once, with no call on a component.\<close>

definition rejects :: "('os, 'a) sock_op \<Rightarrow> socket_impl \<Rightarrow> 'os sock_world \<Rightarrow> bool" where
  "rejects m i w \<longleftrightarrow> (case m (i, w) of (Inl (RuntimeError msg), waited, s) \<Rightarrow> \<not> waited \<and> s = (i, w) | _ \<Rightarrow> False)"

lemma close_part_ok:
  assumes "\<And>n os. \<not> isl (fst (se_call env (close_call n) os))"
  shows "\<exists>waited os. close_part env part close_call destroy_call reset (i, w) =
    (Inr (), waited, (if part i = None then i else reset i,
      \<lparr>sw_os = os, sw_calls = sw_calls w @ part_calls close_call destroy_call (part i)\<rparr>))"
proof (cases "part i")
  case None
  then show ?thesis
    by (intro exI [of _ False] exI [of _ "sw_os w"]) (simp add: close_part_def part_calls_def cbind_def cget_def creturn_def)
next
  case (Some x)
  obtain a b os1 where c1: "se_call env (close_call x) (sw_os w) = (Inr a, b, os1)"
    using assms [of x "sw_os w"] by (metis fst_conv isl_def obj_sumE prod.exhaust)
  obtain r c os2 where c2: "se_call env (destroy_call x) os1 = (r, c, os2)" by (metis surj_pair)
  show ?thesis using Some c1 c2
    by (intro exI [of _ "b \<or> c"] exI [of _ os2])
      (simp add: close_part_def part_calls_def cbind_def cget_def cput_def ccall_def cdestroy_def)
qed

lemma close_body_ok:
  assumes "closes_ok env" "\<not> sk_closed i"
  shows "\<exists>waited os. close_body env (i, w) =
    (Inr (), waited, (shut_down i, \<lparr>sw_os = os, sw_calls = sw_calls w @ close_calls i\<rparr>))"
proof -
  let ?i1 = "if sk_conn i = None then i else drop_conn i"
  let ?i2 = "if sk_server ?i1 = None then ?i1 else drop_server ?i1"
  let ?i3 = "if sk_udp ?i2 = None then ?i2 else drop_udp ?i2"
  have ok: "\<not> isl (fst (se_call env (ConnClose n) os))" "\<not> isl (fst (se_call env (ServerClose n) os))"
    "\<not> isl (fst (se_call env (UdpClose n) os))" for n os using assms(1) by (simp_all add: closes_ok_def)
  obtain b1 o1 where c1: "close_part env sk_conn ConnClose ConnDestroy drop_conn (i, w) =
      (Inr (), b1, ?i1, \<lparr>sw_os = o1, sw_calls = sw_calls w @ part_calls ConnClose ConnDestroy (sk_conn i)\<rparr>)"
    (is "_ = (_, _, _, ?w1)") using close_part_ok [of env ConnClose, OF ok(1)] by blast
  obtain b2 o2 where c2: "close_part env sk_server ServerClose ServerDestroy drop_server (?i1, ?w1) =
      (Inr (), b2, ?i2, \<lparr>sw_os = o2, sw_calls = sw_calls ?w1 @ part_calls ServerClose ServerDestroy (sk_server ?i1)\<rparr>)"
    (is "_ = (_, _, _, ?w2)") using close_part_ok [of env ServerClose, OF ok(2)] by blast
  obtain b3 o3 where c3: "close_part env sk_udp UdpClose UdpDestroy drop_udp (?i2, ?w2) =
      (Inr (), b3, ?i3, \<lparr>sw_os = o3, sw_calls = sw_calls ?w2 @ part_calls UdpClose UdpDestroy (sk_udp ?i2)\<rparr>)"
    using close_part_ok [of env UdpClose, OF ok(3)] by blast
  have parts: "sk_server ?i1 = sk_server i" "sk_udp ?i2 = sk_udp i" by (simp_all add: drop_conn_def drop_server_def)
  have final: "?i3\<lparr>sk_closed := True, sk_listening := False\<rparr> = shut_down i"
    by (cases i) (simp add: drop_conn_def drop_server_def drop_udp_def shut_down_def)
  show ?thesis
    using assms(2) c1 c2 c3 parts final
    by (intro exI [of _ "b1 \<or> b2 \<or> b3"] exI [of _ o3])
      (simp add: close_body_def close_calls_def cbind_def cget_def cput_def)
qed

subsection \<open>What a socket holds\<close>

text \<open>The member functions, as a history; the result of a call is dropped.\<close>

datatype socket_op =
    SBind endpoint
  | SListen int
  | SAccept
  | SAcceptFor int
  | SConnect endpoint
  | SConnectFor endpoint int
  | SSend "byte list"
  | SRecv
  | SRecvFor int
  | SSendTo endpoint "byte list"
  | SRecvFrom
  | SRecvFromFor int
  | SClose

fun socket_do :: "'os sock_env \<Rightarrow> socket_op \<Rightarrow> socket_impl \<times> 'os sock_world \<Rightarrow> socket_impl \<times> 'os sock_world" where
  "socket_do env (SBind local) s = snd (snd (bind_body env local s))"
| "socket_do env (SListen backlog) s = snd (snd (listen_body env backlog s))"
| "socket_do env SAccept s = snd (snd (accept_body env s))"
| "socket_do env (SAcceptFor timeout) s = snd (snd (accept_for_body env timeout s))"
| "socket_do env (SConnect remote) s = snd (snd (connect_body env remote s))"
| "socket_do env (SConnectFor remote timeout) s = snd (snd (connect_for_body env remote timeout s))"
| "socket_do env (SSend data) s = snd (snd (send_body env data s))"
| "socket_do env SRecv s = snd (snd (recv_body env s))"
| "socket_do env (SRecvFor timeout) s = snd (snd (recv_for_body env timeout s))"
| "socket_do env (SSendTo remote data) s = snd (snd (send_to_body env remote data s))"
| "socket_do env SRecvFrom s = snd (snd (recv_from_body env s))"
| "socket_do env (SRecvFromFor timeout) s = snd (snd (recv_from_for_body env timeout s))"
| "socket_do env SClose s = snd (snd (close_body env s))"

text \<open>A socket holds only components of its own type, and \<open>closed\<close> is never taken back.\<close>

definition socket_inv :: "socket_impl \<Rightarrow> bool" where
  "socket_inv i \<longleftrightarrow>
     (case sk_type i of
        TcpSocket \<Rightarrow> sk_udp i = None
      | UdpSocketType \<Rightarrow> sk_conn i = None \<and> sk_server i = None \<and> \<not> sk_listening i)"

text \<open>An operation keeps the type and the invariant and does not reopen.\<close>

definition keeps :: "('os, 'a) sock_op \<Rightarrow> socket_impl \<times> 'os sock_world \<Rightarrow> bool" where
  "keeps m s \<longleftrightarrow> (let i = fst (snd (snd (m s))) in
     socket_inv i \<and> sk_type i = sk_type (fst s) \<and> (sk_closed (fst s) \<longrightarrow> sk_closed i))"

lemma keeps_cbind:
  assumes "keeps m s" "\<And>x b s'. m s = (Inr x, b, s') \<Longrightarrow> keeps (k x) s'"
  shows "keeps (cbind m k) s"
  using assms unfolding keeps_def cbind_def Let_def by (auto split: prod.splits sum.splits)

lemma keeps_basic:
  "socket_inv (fst s) \<Longrightarrow> keeps (creturn x) s" "socket_inv (fst s) \<Longrightarrow> keeps (cthrow msg) s"
  "socket_inv (fst s) \<Longrightarrow> keeps cget s" "socket_inv (fst s) \<Longrightarrow> keeps (ccall env c) s"
  "socket_inv (fst s) \<Longrightarrow> keeps (cdestroy env c) s"
  by (auto simp: keeps_def creturn_def cthrow_def cget_def ccall_def cdestroy_def split: prod.splits)

lemma keeps_cput:
  "socket_inv (f (fst s)) \<Longrightarrow> sk_type (f (fst s)) = sk_type (fst s) \<Longrightarrow>
   (sk_closed (fst s) \<Longrightarrow> sk_closed (f (fst s))) \<Longrightarrow> keeps (cput f) s"
  by (auto simp: keeps_def cput_def)

lemma keeps_close_part:
  assumes "socket_inv (fst s)" "\<And>i. socket_inv i \<Longrightarrow> socket_inv (reset i) \<and> sk_type (reset i) = sk_type i \<and> sk_closed (reset i) = sk_closed i"
  shows "keeps (close_part env part close_call destroy_call reset) s"
  using assms
  by (auto simp: keeps_def close_part_def ccall_def cdestroy_def socket_bodies split: prod.splits option.splits sum.splits)

lemma keeps_seq:
  assumes "socket_inv (fst s)" "\<And>s. socket_inv (fst s) \<Longrightarrow> keeps m s" "\<And>x s. socket_inv (fst s) \<Longrightarrow> keeps (k x) s"
  shows "keeps (cbind m k) s"
proof (rule keeps_cbind [OF assms(2) [OF assms(1)]])
  fix x b s' assume "m s = (Inr x, b, s')"
  then have "socket_inv (fst s')" using assms(2) [OF assms(1)] by (simp add: keeps_def Let_def)
  then show "keeps (k x) s'" by (rule assms(3))
qed

lemma drop_inv [simp]:
  "socket_inv i \<Longrightarrow> socket_inv (drop_conn i)" "socket_inv i \<Longrightarrow> socket_inv (drop_server i)"
  "socket_inv i \<Longrightarrow> socket_inv (drop_udp i)"
  "sk_type (drop_conn i) = sk_type i" "sk_type (drop_server i) = sk_type i" "sk_type (drop_udp i) = sk_type i"
  "sk_closed (drop_conn i) = sk_closed i" "sk_closed (drop_server i) = sk_closed i" "sk_closed (drop_udp i) = sk_closed i"
  by (auto simp: socket_inv_def drop_conn_def drop_server_def drop_udp_def split: socket_type.splits)

lemma keeps_close_body: "socket_inv (fst s) \<Longrightarrow> keeps (close_body env) s"
proof -
  assume inv: "socket_inv (fst s)"
  have parts: "socket_inv (fst s) \<Longrightarrow> keeps (close_part env sk_conn ConnClose ConnDestroy drop_conn) s"
    "socket_inv (fst s) \<Longrightarrow> keeps (close_part env sk_server ServerClose ServerDestroy drop_server) s"
    "socket_inv (fst s) \<Longrightarrow> keeps (close_part env sk_udp UdpClose UdpDestroy drop_udp) s" for s
    by (simp_all add: keeps_close_part drop_inv)
  have flags: "socket_inv (fst s) \<Longrightarrow> keeps (cput (\<lambda>i. i\<lparr>sk_closed := True, sk_listening := False\<rparr>)) s" for s
    by (rule keeps_cput) (auto simp: socket_inv_def split: socket_type.splits)
  have rest: "keeps (cbind (close_part env sk_conn ConnClose ConnDestroy drop_conn) (\<lambda>_.
         cbind (close_part env sk_server ServerClose ServerDestroy drop_server) (\<lambda>_.
         cbind (close_part env sk_udp UdpClose UdpDestroy drop_udp) (\<lambda>_.
           cput (\<lambda>i. i\<lparr>sk_closed := True, sk_listening := False\<rparr>))))) s" if "socket_inv (fst s)" for s
    by (intro keeps_seq parts flags that)
  show ?thesis unfolding close_body_def
    by (rule keeps_seq [OF inv keeps_basic(3)]) (simp_all add: rest keeps_basic(1))
qed

lemmas keeps_splits = prod.splits sum.splits option.splits if_splits socket_type.splits

lemma socket_do_keeps:
  assumes "socket_inv i" "socket_do env a (i, w) = (i', w')"
  shows "socket_inv i' \<and> sk_type i' = sk_type i \<and> (sk_closed i \<longrightarrow> sk_closed i')"
proof (cases a)
  case SClose
  then show ?thesis using keeps_close_body [of "(i, w)" env] assms by (auto simp: keeps_def Let_def)
qed (use assms in \<open>auto simp: socket_inv_def ccall_def socket_bodies split: keeps_splits\<close>)

subsection \<open>Properties\<close>

text \<open>
  Whatever the components answer, a history of calls keeps the type of a socket, never gives a TCP
  socket a UDP component or the other way round, and never clears \<open>closed\<close>.
\<close>

theorem socket_history_inv:
  assumes "socket_inv i"
  shows "socket_inv (fst (fold (socket_do env) ops (i, w))) \<and> sk_type (fst (fold (socket_do env) ops (i, w))) = sk_type i \<and>
    (sk_closed i \<longrightarrow> sk_closed (fst (fold (socket_do env) ops (i, w))))"
  using assms
proof (induction ops arbitrary: i w)
  case (Cons a ops)
  obtain i' w' where d: "socket_do env a (i, w) = (i', w')" by (metis surj_pair)
  show ?case using Cons.IH [of i' w'] socket_do_keeps [OF Cons.prems d] d by simp
qed simp

text \<open>
  C35. If the components' own closes do not throw, \<open>close\<close> on the thread of a live loop closes each component of an open socket exactly once, connection, server and UDP
  socket in that order, and holds none of them afterwards; from then on \<open>bind\<close>, \<open>connect\<close>,
  \<open>connect_for\<close>, \<open>accept\<close>, \<open>accept_for\<close>, \<open>send\<close>, \<open>recv\<close>, \<open>recv_for\<close>, \<open>recv_from\<close> and \<open>recv_from_for\<close> throw, and a
  second \<open>close\<close> returns, all without a call on any component or a change of the socket.
\<close>

theorem socket_close_final:
  assumes "closes_ok env" "\<not> sk_closed i" "is_loop_alive token"
  shows "\<exists>i' os. socket_close env True token (Some i) w =
      Some (Inr (), Some i', \<lparr>sw_os = os, sw_calls = sw_calls w @ close_calls i\<rparr>) \<and>
    sk_closed i' \<and> \<not> sk_listening i' \<and> sk_conn i' = None \<and> sk_server i' = None \<and> sk_udp i' = None \<and>
    socket_close env True token (Some i') v = Some (Inr (), Some i', v) \<and>
    rejects (bind_body env e) i' v \<and>
    rejects (connect_body env e) i' v \<and>
    rejects (connect_for_body env e timeout) i' v \<and>
    rejects (accept_body env) i' v \<and>
    rejects (accept_for_body env timeout) i' v \<and>
    rejects (send_body env data) i' v \<and>
    rejects (recv_body env) i' v \<and>
    rejects (recv_for_body env timeout) i' v \<and>
    rejects (recv_from_body env) i' v \<and>
    rejects (recv_from_for_body env timeout) i' v"
proof -
  obtain waited os where c: "close_body env (i, w) =
      (Inr (), waited, (shut_down i, \<lparr>sw_os = os, sw_calls = sw_calls w @ close_calls i\<rparr>))"
    using close_body_ok [OF assms(1,2)] by blast
  show ?thesis
    using assms(3) c
    by (intro exI [of _ "shut_down i"] exI [of _ os] conjI)
      (auto simp: socket_close_def close_body_def shut_down_def rejects_def socket_bodies)
qed

lemma on_socket_alive:
  "is_loop_alive token \<Longrightarrow> on_socket True token body (Some i) w =
     (case body (i, w) of (r, waited, i', w') \<Rightarrow> Some (r, Some i', w'))"
  by (simp add: on_socket_def ensure_loop_alive_def split: prod.splits)

text \<open>A closed socket is left alone by \<open>close\<close>, whatever it holds.\<close>

lemma socket_close_closed:
  "is_loop_alive token \<Longrightarrow> sk_closed i \<Longrightarrow> socket_close env True token (Some i) w = Some (Inr (), Some i, w)"
  by (simp add: socket_close_def close_body_def cbind_def cget_def creturn_def)

text \<open>Components that always succeed; the identities are handed out by a counter.\<close>

fun easy_call :: "sock_call \<Rightarrow> nat \<Rightarrow> (err + sock_answer) \<times> bool \<times> nat" where
  "easy_call NewUdp n = (Inr (Object n), False, Suc n)"
| "easy_call NewServer n = (Inr (Object n), False, Suc n)"
| "easy_call (ClientConnect host port) n = (Inr (Object n), True, Suc n)"
| "easy_call c n = (Inr Unit, True, n)"

definition easy_env :: "nat sock_env" where
  "easy_env = \<lparr>se_call = easy_call\<rparr>"

lemma easy_closes_ok [simp]: "closes_ok easy_env"
  by (simp add: closes_ok_def easy_env_def)

theorem socket_history_inv_witness:
  "socket_inv (fst (fold (socket_do easy_env) [SBind (''h'', 1), SListen 5, SConnect (''h'', 2)]
      (socket_tcp, \<lparr>sw_os = 0, sw_calls = []\<rparr>)))"
proof -
  have "socket_inv socket_tcp" by (simp add: socket_tcp_def new_socket_def socket_inv_def)
  from socket_history_inv [OF this] show ?thesis by blast
qed

theorem socket_close_final_witness:
  "\<exists>i' os. socket_close easy_env True (Some True) (Some (socket_tcp\<lparr>sk_conn := Some 4, sk_server := Some 5\<rparr>))
      \<lparr>sw_os = 9, sw_calls = []\<rparr> =
    Some (Inr (), Some i', \<lparr>sw_os = os, sw_calls = [ConnClose 4, ConnDestroy 4, ServerClose 5, ServerDestroy 5]\<rparr>)"
  using socket_close_final [where env = easy_env and i = "socket_tcp\<lparr>sk_conn := Some 4, sk_server := Some 5\<rparr>" and
      token = "Some True" and w = "\<lparr>sw_os = 9, sw_calls = []\<rparr>" and v = "\<lparr>sw_os = 9, sw_calls = []\<rparr>" and
      e = "(''h'', 1)" and data = "[]" and timeout = 0]
  by (auto simp: socket_tcp_def new_socket_def close_calls_def part_calls_def)

text \<open>
  Two operations do not look at \<open>closed\<close>: after \<open>close\<close>, \<open>send_to\<close> on a UDP socket makes a new UDP
  socket and sends, and \<open>listen\<close> on a TCP socket that was bound makes a new server and listens. The
  new component is held by a socket that is closed, so that a later \<open>close\<close> does not close it.
\<close>

theorem socket_reopens_after_close:
  assumes "se_call env NewUdp (sw_os w) = (Inr (Object x), b1, os1)"
    "se_call env (UdpSendTo x host port data) os1 = (Inr Unit, b2, os2)" "is_loop_alive token"
    "sk_closed i" "sk_udp i = None" "sk_type i = UdpSocketType"
    and "se_call env NewServer (sw_os w) = (Inr (Object y), b3, os3)"
    "se_call env (ServerListen y host port backlog) os3 = (Inr Unit, b4, os4)"
    "sk_closed j" "sk_server j = None" "sk_type j = TcpSocket" "sk_local j = Some (host, port)"
  shows "\<exists>i' j' w1 w2. socket_send_to env True token (host, port) data (Some i) w = Some (Inr (), Some i', w1) \<and>
    sk_udp i' = Some x \<and> socket_close env True token (Some i') w1 = Some (Inr (), Some i', w1) \<and>
    socket_listen env True token backlog (Some j) w = Some (Inr (), Some j', w2) \<and>
    sk_server j' = Some y \<and> sk_listening j' \<and> socket_close env True token (Some j') w2 = Some (Inr (), Some j', w2)"
proof -
  have "\<exists>w1. send_to_body env (host, port) data (i, w) = (Inr (), b1 \<or> b2, (i\<lparr>sk_udp := Some x\<rparr>, w1))"
    using assms(1,2,5,6) by (simp add: ccall_def socket_bodies)
  moreover have "\<exists>w2. listen_body env backlog (j, w) =
      (Inr (), b3 \<or> b4, (j\<lparr>sk_server := Some y, sk_listening := True\<rparr>, w2))"
    using assms(7,8,10-12) by (simp add: ccall_def socket_bodies)
  ultimately show ?thesis using assms(3,4,9) by (auto simp: socket_send_to_def socket_listen_def on_socket_alive socket_close_closed)
qed

theorem socket_reopens_after_close_witness:
  "\<exists>i' w1. socket_send_to easy_env True (Some True) (''h'', 1) [7] (Some (shut_down (new_socket UdpSocketType)))
      \<lparr>sw_os = 0, sw_calls = []\<rparr> = Some (Inr (), Some i', w1) \<and> sk_udp i' = Some 0"
  using socket_reopens_after_close [of easy_env "\<lparr>sw_os = 0, sw_calls = []\<rparr>" 0 False 1 "''h''" 1 "[7]" True 1 "Some True"
      "shut_down (new_socket UdpSocketType)" 0 False 1 5 True 1
      "(shut_down (new_socket TcpSocket))\<lparr>sk_local := Some (''h'', 1)\<rparr>"]
  by (auto simp: easy_env_def shut_down_def new_socket_def)

text \<open>
  A second \<open>connect\<close> on a TCP socket replaces its connection: the old one is neither closed
  nor destroyed, so nobody holds it any more while libuv keeps its handle open.
\<close>

theorem socket_reconnect_drops:
  assumes "se_call env (ClientConnect host port) (sw_os w) = (Inr (Object new), b, os)" "is_loop_alive token"
    "\<not> sk_closed i" "sk_type i = TcpSocket" "sk_conn i = Some old" "old \<noteq> new"
  shows "\<exists>i'. socket_connect env True token (host, port) (Some i) w =
      Some (Inr (), Some i', \<lparr>sw_os = os, sw_calls = sw_calls w @ [ClientConnect host port]\<rparr>) \<and>
    sk_conn i' = Some new \<and> ConnClose old \<notin> set (close_calls i') \<and> ConnDestroy old \<notin> set (close_calls i')"
  using assms
  by (auto simp: socket_connect_def on_socket_alive ccall_def socket_bodies close_calls_def part_calls_def split: option.splits)

theorem socket_reconnect_drops_witness:
  "\<exists>i' w'. socket_connect easy_env True (Some True) (''h'', 1) (Some (child_socket (Some 7)))
      \<lparr>sw_os = 8, sw_calls = []\<rparr> = Some (Inr (), Some i', w') \<and> ConnClose 7 \<notin> set (close_calls i')"
  using socket_reconnect_drops [of easy_env "''h''" 1 "\<lparr>sw_os = 8, sw_calls = []\<rparr>" 8 True 9 "Some True"
      "child_socket (Some 7)" 7]
  by (auto simp: easy_env_def child_socket_def new_socket_def)

end
