(* ===== verification/Socket_Components.thy ===== *)
theory Socket_Components
  imports Unified_Socket Tcp_Server
begin

text \<open>
  \<open>io::Socket\<close> over the models of its components. The store keeps the state objects of the UDP sockets,
  connections and servers a socket makes; a call of the facade is the operation of the component's own
  theory. The answers of the network to a connect and to a receive, the codes libuv returns and the resolution of addresses are
  parameters. A caller of \<open>close\<close> that has to wait is resumed by the close callback, before which other things may
  happen to the component.

  Between the members of a history come the events of the components: callbacks of libuv (data, packets, connections that
  arrive, closed handles) and what fibers do with a component inside a member that has not returned yet: a read, receive or accept that suspends its caller,
  and one whose time-out expires. So callers may be suspended on a component, and connections wait to be accepted, when \<open>close\<close>
  is called.
\<close>

record net =
  nt_udps :: "nat \<Rightarrow> udp_state option"
  nt_conns :: "nat \<Rightarrow> connection_state option"
  nt_servers :: "nat \<Rightarrow> server_impl option"
  nt_next :: nat

text \<open>
  \<open>nw_rc nw c k\<close> is what the \<open>k\<close>-th libuv function of the call \<open>c\<close> returns; \<open>nw_conn_events nw c\<close> and \<open>nw_udp_events nw c\<close> are what
  happens to the component while the caller of \<open>c\<close> waits for its close callback.
\<close>

record net_world =
  nw_remote :: "sock_call \<Rightarrow> err + sock_answer"
  nw_rc :: "sock_call \<Rightarrow> nat \<Rightarrow> int"
  nw_resolve :: "string \<Rightarrow> int \<Rightarrow> sockaddr option"
  nw_codes :: uv_codes
  nw_names :: udp_names
  nw_little :: bool
  nw_conn_events :: "sock_call \<Rightarrow> conn_op list"
  nw_udp_events :: "sock_call \<Rightarrow> udp_op list"

text \<open>The operations of the component theories that are made on a live loop.\<close>

fun conn_live :: "conn_op \<Rightarrow> bool" where
  "conn_live (OpRead alive p rc) = alive"
| "conn_live (OpClose alive p) = alive"
| "conn_live a = True"

fun udp_live :: "udp_op \<Rightarrow> bool" where
  "udp_live (UdpRecv alive p rc) = alive"
| "udp_live (UdpCloseCall alive p) = alive"
| "udp_live a = True"

definition conn_event :: "uv_codes \<Rightarrow> conn_op \<Rightarrow> connection_state \<Rightarrow> connection_state" where
  "conn_event c a st = (if conn_live a \<and> conn_enabled a st then fst (conn_step c a st) else st)"

definition udp_event :: "udp_names \<Rightarrow> bool \<Rightarrow> udp_op \<Rightarrow> udp_state \<Rightarrow> udp_state" where
  "udp_event names little a st = (if udp_live a \<and> udp_enabled a st then fst (udp_step names little a st) else st)"

text \<open>A close that is waited for: the request and, when the caller is suspended, other events and the callback.\<close>

definition udp_close_wait :: "udp_names \<Rightarrow> bool \<Rightarrow> udp_op list \<Rightarrow> udp_state \<Rightarrow> udp_state" where
  "udp_close_wait names little ops st =
     (case udp_close (Some True) 0 (Some st) of
        (Await p, impl, effs) \<Rightarrow>
          (let st1 = fold (udp_event names little) ops (the impl) in
           if us_closed st1 then st1 else fst (on_udp_closed st1))
      | (r, impl, effs) \<Rightarrow> the impl)"

definition conn_close_wait :: "uv_codes \<Rightarrow> conn_op list \<Rightarrow> connection_state \<Rightarrow> connection_state" where
  "conn_close_wait c ops st =
     (case tcp_close (Some True) 0 (Some (Some st)) of
        (Await p, impl, effs) \<Rightarrow>
          (let st1 = fold (conn_event c) ops (the (the impl)) in
           if cs_closed st1 then st1 else fst (on_connection_closed st1))
      | (r, impl, effs) \<Rightarrow> the (the impl))"

definition update_at :: "nat \<Rightarrow> ('a \<Rightarrow> 'a) \<Rightarrow> (nat \<Rightarrow> 'a option) \<Rightarrow> nat \<Rightarrow> 'a option" where
  "update_at x f m = m(x := map_option f (m x))"

fun reply_answer :: "unit reply \<Rightarrow> err + sock_answer" where
  "reply_answer (Throw ex) = Inl ex"
| "reply_answer r = Inr Unit"

fun suspends :: "'a reply \<Rightarrow> bool" where
  "suspends (Await p) = True"
| "suspends r = False"

definition net_udp_close :: "net_world \<Rightarrow> sock_call \<Rightarrow> nat \<Rightarrow> net \<Rightarrow> (err + sock_answer) \<times> bool \<times> net" where
  "net_udp_close nw call x n =
     (let r = fst (udp_close (Some True) 0 (nt_udps n x)) in
      (reply_answer r, suspends r,
       n\<lparr>nt_udps := update_at x (udp_close_wait (nw_names nw) (nw_little nw) (nw_udp_events nw call)) (nt_udps n)\<rparr>))"

definition net_conn_close :: "net_world \<Rightarrow> sock_call \<Rightarrow> nat \<Rightarrow> net \<Rightarrow> (err + sock_answer) \<times> bool \<times> net" where
  "net_conn_close nw call x n =
     (let r = fst (tcp_close (Some True) 0 (map_option Some (nt_conns n x))) in
      (reply_answer r, suspends r,
       n\<lparr>nt_conns := update_at x (conn_close_wait (nw_codes nw) (nw_conn_events nw call)) (nt_conns n)\<rparr>))"

text \<open>\<open>TcpServer::close\<close> has no answer to wait for and drops its reference; the store keeps the object.\<close>

definition net_server_close :: "nat \<Rightarrow> net \<Rightarrow> (err + sock_answer) \<times> bool \<times> net" where
  "net_server_close x n =
     (Inr Unit, False, n\<lparr>nt_servers := update_at x (\<lambda>sv. fst (begin_close (Some True) sv)) (nt_servers n)\<rparr>)"

text \<open>A connect ends with an error, with its time-out (\<open>Nothing\<close>), or with a connection of its own.\<close>

definition net_connect :: "err + sock_answer \<Rightarrow> int \<Rightarrow> net \<Rightarrow> (err + sock_answer) \<times> bool \<times> net" where
  "net_connect outcome init_rc n =
     (case create_connection init_rc of
        Inl ex \<Rightarrow> (Inl ex, True, n)
      | Inr st \<Rightarrow>
          (case outcome of
             Inl ex \<Rightarrow> (Inl ex, True, n)
           | Inr Nothing \<Rightarrow> (Inr Nothing, True, n)
           | Inr a \<Rightarrow> (Inr (Object (nt_next n)), True,
               n\<lparr>nt_conns := (nt_conns n)(nt_next n \<mapsto> st), nt_next := Suc (nt_next n)\<rparr>)))"

fun net_call :: "net_world \<Rightarrow> sock_call \<Rightarrow> net \<Rightarrow> (err + sock_answer) \<times> bool \<times> net" where
  "net_call nw NewUdp n =
     (case create_udp_socket (nw_rc nw NewUdp 0) of
        Inl ex \<Rightarrow> (Inl ex, False, n)
      | Inr st \<Rightarrow> (Inr (Object (nt_next n)), False,
          n\<lparr>nt_udps := (nt_udps n)(nt_next n \<mapsto> st), nt_next := Suc (nt_next n)\<rparr>))"
| "net_call nw (UdpBind x host port) n =
     (case Udp_Socket.bind (Some True) (nw_resolve nw host port) (nw_rc nw (UdpBind x host port) 0) (nt_udps n x) of
        (r, impl) \<Rightarrow> (reply_answer r, False, n\<lparr>nt_udps := (nt_udps n)(x := impl)\<rparr>))"
| "net_call nw (UdpSendTo x host port payload) n =
     (case Udp_Socket.send_to (Some True) 0 (nw_resolve nw host port) (nw_rc nw (UdpSendTo x host port payload) 0) payload (nt_udps n x) of
        (r, sent) \<Rightarrow> (reply_answer r, sent \<noteq> None, n))"
| "net_call nw (UdpClose x) n = net_udp_close nw (UdpClose x) x n"
| "net_call nw (UdpDestroy x) n = net_udp_close nw (UdpDestroy x) x n"
| "net_call nw (ClientConnect host port) n = net_connect (nw_remote nw (ClientConnect host port)) (nw_rc nw (ClientConnect host port) 0) n"
| "net_call nw (ClientConnectFor host port timeout) n =
     net_connect (nw_remote nw (ClientConnectFor host port timeout)) (nw_rc nw (ClientConnectFor host port timeout) 0) n"
| "net_call nw (ConnClose x) n = net_conn_close nw (ConnClose x) x n"
| "net_call nw (ConnDestroy x) n = net_conn_close nw (ConnDestroy x) x n"
| "net_call nw NewServer n =
     (Inr (Object (nt_next n)), False,
      n\<lparr>nt_servers := (nt_servers n)(nt_next n \<mapsto> server_init), nt_next := Suc (nt_next n)\<rparr>)"
| "net_call nw (ServerListen x host port backlog) n =
     (case Tcp_Server.listen (Some True) (nw_rc nw (ServerListen x host port backlog) 0)
         (nw_rc nw (ServerListen x host port backlog) 1) (nw_rc nw (ServerListen x host port backlog) 2)
         (nw_rc nw (ServerListen x host port backlog) 3) (nt_servers n x) of
        (r, impl) \<Rightarrow> (reply_answer r, False, n\<lparr>nt_servers := (nt_servers n)(x := impl)\<rparr>))"
| "net_call nw (ServerClose x) n = net_server_close x n"
| "net_call nw (ServerDestroy x) n = net_server_close x n"
| "net_call nw c n = (nw_remote nw c, True, n)"

definition net_env :: "net_world \<Rightarrow> net sock_env" where
  "net_env nw = \<lparr>se_call = net_call nw\<rparr>"

text \<open>One step of a history: a member of the socket, or an event of a component.\<close>

definition at_net :: "(net \<Rightarrow> net) \<Rightarrow> net sock_world \<Rightarrow> net sock_world" where
  "at_net f w = w\<lparr>sw_os := f (sw_os w)\<rparr>"

inductive net_step ::
  "net_world \<Rightarrow> socket_impl \<times> net sock_world \<Rightarrow> socket_impl \<times> net sock_world \<Rightarrow> bool" for nw where
  a_member: "net_step nw s (socket_do (net_env nw) a s)"
| a_conn_event: "net_step nw (i, w) (i, at_net (\<lambda>n. n\<lparr>nt_conns := update_at x (conn_event (nw_codes nw) a) (nt_conns n)\<rparr>) w)"
| a_udp_event: "net_step nw (i, w) (i, at_net (\<lambda>n. n\<lparr>nt_udps := update_at x (udp_event (nw_names nw) (nw_little nw) a) (nt_udps n)\<rparr>) w)"
| a_server_event: "nt_servers (sw_os w) x = Some sv \<Longrightarrow> server_moves sv sv' \<Longrightarrow>
    net_step nw (i, w) (i, at_net (\<lambda>n. n\<lparr>nt_servers := (nt_servers n)(x \<mapsto> sv')\<rparr>) w)"

definition udp_sound :: "udp_state \<Rightarrow> bool" where
  "udp_sound st \<longleftrightarrow> udp_inv st \<and> udp_close_inv st"

definition server_sound :: "server_impl \<Rightarrow> bool" where
  "server_sound sv \<longleftrightarrow> (sv_closing sv \<longrightarrow> sv_waiters sv = [] \<and> sv_accepted sv = [])"

text \<open>The components a socket holds are in the store, in a state their own operations can reach.\<close>

definition holds :: "socket_impl \<Rightarrow> net \<Rightarrow> bool" where
  "holds i n \<longleftrightarrow>
     (\<forall>x. sk_udp i = Some x \<longrightarrow> (\<exists>st. nt_udps n x = Some st \<and> udp_sound st)) \<and>
     (\<forall>x. sk_conn i = Some x \<longrightarrow> (\<exists>st. nt_conns n x = Some st \<and> conn_inv st)) \<and>
     (\<forall>x. sk_server i = Some x \<longrightarrow> (\<exists>sv. nt_servers n x = Some sv \<and> server_sound sv))"

text \<open>
  What being closed means for each of them. \<open>TcpServer::close\<close> does not wait for the callback of its handle: a server is left
  closing.
\<close>

definition udp_gone :: "udp_state \<Rightarrow> bool" where
  "udp_gone st \<longleftrightarrow> us_closed st \<and> us_pending_recv st = None \<and> us_close_waiters st = []"

definition conn_gone :: "connection_state \<Rightarrow> bool" where
  "conn_gone st \<longleftrightarrow> cs_closed st \<and> cs_pending_read st = None \<and> cs_close_waiters st = [] \<and> \<not> cs_keepalive st"

definition server_shutting :: "server_impl \<Rightarrow> bool" where
  "server_shutting sv \<longleftrightarrow> sv_closing sv \<and> sv_waiters sv = [] \<and> sv_accepted sv = []"

definition all_shut :: "socket_impl \<Rightarrow> net \<Rightarrow> bool" where
  "all_shut i n \<longleftrightarrow>
     (\<forall>x. sk_udp i = Some x \<longrightarrow> (\<exists>st. nt_udps n x = Some st \<and> udp_gone st)) \<and>
     (\<forall>x. sk_conn i = Some x \<longrightarrow> (\<exists>st. nt_conns n x = Some st \<and> conn_gone st)) \<and>
     (\<forall>x. sk_server i = Some x \<longrightarrow> (\<exists>sv. nt_servers n x = Some sv \<and> server_shutting sv))"

subsection \<open>Closing each component\<close>

lemma conn_event_inv: "conn_inv st \<Longrightarrow> conn_inv (conn_event c a st)"
  by (simp add: conn_event_def conn_inv_step)

lemma conn_events_inv: "conn_inv st \<Longrightarrow> conn_inv (fold (conn_event c) ops st)"
  by (induction ops arbitrary: st) (simp_all add: conn_event_inv)

lemma udp_event_sound:
  assumes "udp_sound st"
  shows "udp_sound (udp_event names little a st)"
proof (cases "udp_live a \<and> udp_enabled a st")
  case True
  obtain st' e w g where s: "udp_step names little a st = (st', e, w, g)" by (metis surj_pair)
  have "udp_inv st'" using udp_step_facts [OF _ _ s] assms True by (simp add: udp_sound_def)
  moreover have "udp_close_inv st'"
  proof (cases a)
    case (UdpRecv alive p rc)
    then show ?thesis using assms s by (cases alive) (auto simp: udp_sound_def udp_close_inv_def udp_defs split: list.splits if_splits)
  qed (use assms True s in \<open>auto simp: udp_sound_def udp_close_inv_def udp_defs udp_close_def Let_def split: if_splits option.splits sum.splits\<close>)
  ultimately show ?thesis using True s by (simp add: udp_event_def udp_sound_def)
qed (use assms in \<open>auto simp: udp_event_def\<close>)

lemma udp_events_sound: "udp_sound st \<Longrightarrow> udp_sound (fold (udp_event names little) ops st)"
  by (induction ops arbitrary: st) (simp_all add: udp_event_sound)

text \<open>The request itself: a caller that is not suspended finds the component closed.\<close>

lemma udp_close_request:
  assumes "udp_sound st"
  obtains st1 effs where "udp_close (Some True) p (Some st) = (Await p, Some st1, effs)" "udp_sound st1"
  | effs where "udp_close (Some True) p (Some st) = (Return (), Some st, effs)" "us_closed st"
proof (cases "us_closed st")
  case True
  then show thesis using assms that(2)
    by (auto simp: udp_close_def udp_defs udp_sound_def udp_inv_def)
next
  case False
  have "us_initialized st" using assms by (simp add: udp_sound_def udp_inv_def)
  then have "\<exists>st1 effs. udp_close (Some True) p (Some st) = (Await p, Some st1, effs)"
    using False by (cases "us_closing st"; cases "us_uv_closing st") (simp_all add: udp_close_def udp_defs Let_def)
  then obtain st1 effs where u: "udp_close (Some True) p (Some st) = (Await p, Some st1, effs)" by blast
  have "udp_sound (udp_event names little (UdpCloseCall True p) st)" for names little using assms by (rule udp_event_sound)
  then show thesis using that(1) [OF u] u by (simp add: udp_event_def)
qed

lemma udp_close_wait_gone:
  assumes "udp_sound st"
  shows "udp_gone (udp_close_wait names little ops st)"
proof (rule udp_close_request [OF assms, of 0])
  fix st1 effs assume u: "udp_close (Some True) 0 (Some st) = (Await 0, Some st1, effs)" "udp_sound st1"
  from udp_events_sound [OF this(2), of names little ops] show ?thesis
    by (auto simp: udp_close_wait_def u(1) Let_def udp_gone_def udp_sound_def udp_inv_def udp_close_inv_def udp_defs split: option.splits)
qed (use assms in \<open>simp add: udp_close_wait_def udp_gone_def udp_sound_def udp_inv_def udp_close_inv_def\<close>)

lemma udp_close_wait_again: "udp_gone st \<Longrightarrow> udp_close_wait names little ops st = st"
  by (simp add: udp_close_wait_def udp_close_def start_udp_close_def set_udp_close_def udp_gone_def)

lemma conn_close_request:
  assumes "conn_inv st"
  obtains st1 effs where "tcp_close (Some True) p (Some (Some st)) = (Await p, Some (Some st1), effs)" "conn_inv st1"
  | effs where "tcp_close (Some True) p (Some (Some st)) = (Return (), Some (Some st), effs)" "cs_closed st"
proof (cases "cs_closed st")
  case True
  then show thesis using that(2) by (simp add: tcp_close_def conn_defs)
next
  case False
  have "cs_initialized st" using assms by (simp add: conn_inv_def)
  then have "\<exists>st1 effs. tcp_close (Some True) p (Some (Some st)) = (Await p, Some (Some st1), effs) \<and>
      start_close (Some True) (Some p) (Some st) = (Some st1, effs)"
    using False by (cases "cs_closing st"; cases "cs_uv_closing st") (simp_all add: tcp_close_def conn_defs Let_def)
  then obtain st1 effs where u: "tcp_close (Some True) p (Some (Some st)) = (Await p, Some (Some st1), effs)"
    "start_close (Some True) (Some p) (Some st) = (Some st1, effs)" by blast
  have "conn_inv (fst (conn_step linux_codes (OpClose True (Some p)) st))" using assms by (rule conn_inv_step) simp
  then show thesis using that(1) [OF u(1)] u(2) by simp
qed

lemma conn_close_wait_gone:
  assumes "conn_inv st"
  shows "conn_gone (conn_close_wait c ops st)"
proof (rule conn_close_request [OF assms, of 0])
  fix st1 effs assume u: "tcp_close (Some True) 0 (Some (Some st)) = (Await 0, Some (Some st1), effs)" "conn_inv st1"
  from conn_events_inv [OF this(2), of c ops] show ?thesis
    by (auto simp: conn_close_wait_def u(1) Let_def conn_gone_def conn_inv_def on_connection_closed_def settle_closed_def)
qed (use assms in \<open>simp add: conn_close_wait_def conn_gone_def conn_inv_def\<close>)

lemma conn_close_wait_again: "conn_gone st \<Longrightarrow> conn_close_wait c ops st = st"
  by (simp add: conn_close_wait_def tcp_close_def start_close_def set_close_def conn_gone_def)

lemma server_close_shuts:
  assumes "server_sound sv"
  shows "server_shutting (fst (begin_close token sv))"
proof (cases "sv_closing sv")
  case False
  obtain sv' effs where b: "begin_close token sv = (sv', effs)" by (metis surj_pair)
  show ?thesis by (rule begin_close_facts [OF False b]) (simp add: b server_shutting_def)
next
  case True
  then show ?thesis using assms by (simp add: begin_close_def server_shutting_def server_sound_def)
qed

lemma server_close_again: "server_shutting sv \<Longrightarrow> begin_close token sv = (sv, [])"
  by (simp add: begin_close_def server_shutting_def)

subsection \<open>Closing the socket\<close>

text \<open>The closing members of the component models never throw.\<close>

lemma close_replies [simp]:
  "reply_answer (fst (udp_close token p impl)) = Inr Unit" "reply_answer (fst (tcp_close token p impl')) = Inr Unit"
  by (auto simp: udp_close_def tcp_close_def split: option.splits prod.splits)

lemmas net_closes = net_udp_close_def net_conn_close_def net_server_close_def

lemma net_closes_ok: "closes_ok (net_env nw)"
  by (simp add: closes_ok_def net_env_def net_closes split: prod.splits)

lemmas net_close_simps = close_part_def ccall_def cdestroy_def cbind_def cget_def cput_def creturn_def net_env_def net_closes

text \<open>Each part of \<open>close\<close> shuts its own component and leaves the others alone.\<close>

lemma update_at_twice:
  assumes "m x = Some st" "P (f st)" "\<And>st. P st \<Longrightarrow> g st = st"
  shows "\<exists>st'. update_at x g (update_at x f m) x = Some st' \<and> P st'"
  using assms by (simp add: update_at_def)

lemma net_close_conn:
  assumes "holds i (sw_os w)"
  shows "\<exists>waited w'. close_part (net_env nw) sk_conn ConnClose ConnDestroy drop_conn (i, w) =
      (Inr (), waited, (if sk_conn i = None then i else drop_conn i), w') \<and>
    nt_udps (sw_os w') = nt_udps (sw_os w) \<and> nt_servers (sw_os w') = nt_servers (sw_os w) \<and>
    (\<forall>x. sk_conn i = Some x \<longrightarrow> (\<exists>st. nt_conns (sw_os w') x = Some st \<and> conn_gone st))"
proof (cases "sk_conn i")
  case (Some x)
  then obtain st where st: "nt_conns (sw_os w) x = Some st" "conn_inv st" using assms by (auto simp: holds_def)
  show ?thesis using Some update_at_twice [of "nt_conns (sw_os w)" x st conn_gone
      "conn_close_wait (nw_codes nw) (nw_conn_events nw (ConnClose x))" "conn_close_wait (nw_codes nw) (nw_conn_events nw (ConnDestroy x))"]
      st(1) conn_close_wait_gone [OF st(2)] conn_close_wait_again
    by (simp add: net_close_simps Let_def)
qed (auto simp: net_close_simps)

lemma net_close_udp:
  assumes "holds i (sw_os w)"
  shows "\<exists>waited w'. close_part (net_env nw) sk_udp UdpClose UdpDestroy drop_udp (i, w) =
      (Inr (), waited, (if sk_udp i = None then i else drop_udp i), w') \<and>
    nt_conns (sw_os w') = nt_conns (sw_os w) \<and> nt_servers (sw_os w') = nt_servers (sw_os w) \<and>
    (\<forall>x. sk_udp i = Some x \<longrightarrow> (\<exists>st. nt_udps (sw_os w') x = Some st \<and> udp_gone st))"
proof (cases "sk_udp i")
  case (Some x)
  then obtain st where st: "nt_udps (sw_os w) x = Some st" "udp_sound st" using assms by (auto simp: holds_def)
  show ?thesis using Some update_at_twice [of "nt_udps (sw_os w)" x st udp_gone
      "udp_close_wait (nw_names nw) (nw_little nw) (nw_udp_events nw (UdpClose x))"
      "udp_close_wait (nw_names nw) (nw_little nw) (nw_udp_events nw (UdpDestroy x))"]
      st(1) udp_close_wait_gone [OF st(2)] udp_close_wait_again
    by (simp add: net_close_simps Let_def)
qed (auto simp: net_close_simps)

lemma net_close_server:
  assumes "holds i (sw_os w)"
  shows "\<exists>w'. close_part (net_env nw) sk_server ServerClose ServerDestroy drop_server (i, w) =
      (Inr (), False, (if sk_server i = None then i else drop_server i), w') \<and>
    nt_conns (sw_os w') = nt_conns (sw_os w) \<and> nt_udps (sw_os w') = nt_udps (sw_os w) \<and>
    (\<forall>x. sk_server i = Some x \<longrightarrow> (\<exists>sv. nt_servers (sw_os w') x = Some sv \<and> server_shutting sv))"
proof (cases "sk_server i")
  case (Some x)
  then obtain sv where sv: "nt_servers (sw_os w) x = Some sv" "server_sound sv" using assms by (auto simp: holds_def)
  show ?thesis using Some update_at_twice [of "nt_servers (sw_os w)" x sv server_shutting "\<lambda>sv. fst (begin_close (Some True) sv)"
      "\<lambda>sv. fst (begin_close (Some True) sv)"] sv(1) server_close_shuts [OF sv(2)]
    by (simp add: net_close_simps server_close_again)
qed (auto simp: net_close_simps)

lemma drop_parts [simp]:
  "sk_server (drop_conn i) = sk_server i" "sk_udp (drop_conn i) = sk_udp i" "sk_udp (drop_server i) = sk_udp i"
  by (simp_all add: drop_conn_def drop_server_def)

lemma net_close_all_shut:
  assumes "\<not> sk_closed i" "holds i (sw_os w)" "close_body (net_env nw) (i, w) = (r, b, i', w')"
  shows "all_shut i (sw_os w')"
proof -
  define i1 where "i1 = (if sk_conn i = None then i else drop_conn i)"
  define i2 where "i2 = (if sk_server i1 = None then i1 else drop_server i1)"
  have parts: "sk_server i1 = sk_server i" "sk_udp i1 = sk_udp i" "sk_udp i2 = sk_udp i" by (simp_all add: i1_def i2_def)
  obtain b1 w1 where 1: "close_part (net_env nw) sk_conn ConnClose ConnDestroy drop_conn (i, w) = (Inr (), b1, i1, w1)"
    "nt_udps (sw_os w1) = nt_udps (sw_os w)" "nt_servers (sw_os w1) = nt_servers (sw_os w)"
    "\<forall>x. sk_conn i = Some x \<longrightarrow> (\<exists>st. nt_conns (sw_os w1) x = Some st \<and> conn_gone st)"
    using net_close_conn [OF assms(2)] unfolding i1_def by blast
  have "holds (i1\<lparr>sk_conn := None\<rparr>) (sw_os w1)" using assms(2) 1(2,3) parts(1,2) by (simp add: holds_def)
  then have "holds i1 (sw_os w1)" using 1(4) unfolding i1_def by (cases "sk_conn i") (simp_all add: drop_conn_def holds_def)
  then obtain w2 where 2: "close_part (net_env nw) sk_server ServerClose ServerDestroy drop_server (i1, w1) = (Inr (), False, i2, w2)"
    "nt_conns (sw_os w2) = nt_conns (sw_os w1)" "nt_udps (sw_os w2) = nt_udps (sw_os w1)"
    "\<forall>x. sk_server i = Some x \<longrightarrow> (\<exists>sv. nt_servers (sw_os w2) x = Some sv \<and> server_shutting sv)"
    using net_close_server [of i1 w1] parts(1) unfolding i2_def by metis
  have "holds (i2\<lparr>sk_conn := None, sk_server := None\<rparr>) (sw_os w2)" using assms(2) 1(2) 2(3) parts(3) by (simp add: holds_def)
  then have "holds i2 (sw_os w2)" using \<open>holds i1 (sw_os w1)\<close> 2(2,3) 2(4) parts(1,2)
    unfolding i2_def by (cases "sk_server i") (auto simp: drop_server_def holds_def)
  then obtain b3 w3 where 3: "close_part (net_env nw) sk_udp UdpClose UdpDestroy drop_udp (i2, w2) =
      (Inr (), b3, if sk_udp i2 = None then i2 else drop_udp i2, w3)"
    "nt_conns (sw_os w3) = nt_conns (sw_os w2)" "nt_servers (sw_os w3) = nt_servers (sw_os w2)"
    "\<forall>x. sk_udp i = Some x \<longrightarrow> (\<exists>st. nt_udps (sw_os w3) x = Some st \<and> udp_gone st)"
    using net_close_udp [of i2 w2] parts(3) by metis
  have "w' = w3" using assms(1,3) by (simp add: close_body_def cbind_def cget_def cput_def 1(1) 2(1) 3(1))
  then show ?thesis using 1(4) 2(2,4) 3(2,3,4) by (auto simp: all_shut_def)
qed

subsection \<open>Every history keeps hold of sound components\<close>

lemma create_sound:
  "create_udp_socket rc = Inr st \<Longrightarrow> udp_sound st" "create_connection rc = Inr c \<Longrightarrow> conn_inv c"
  by (auto simp: create_udp_socket_def create_connection_def udp_sound_def udp_inv_def udp_close_inv_def conn_inv_def split: if_splits)

lemma bind_sound:
  "Udp_Socket.bind token addr rc (Some st) = (r, impl) \<Longrightarrow> udp_sound st \<Longrightarrow> \<exists>st'. impl = Some st' \<and> udp_sound st'"
  by (auto simp: Udp_Socket.bind_def udp_sound_def udp_inv_def udp_close_inv_def split: if_splits option.splits)

lemma server_moves_sound: "server_moves sv sv' \<Longrightarrow> server_sound sv \<Longrightarrow> server_sound sv'"
proof (induction rule: server_moves.induct)
  case (move_close token self self' effs)
  then show ?case using server_close_shuts [of self token] by (simp add: server_shutting_def server_sound_def)
qed (auto simp: server_sound_def listen_def accept_def accept_for_expire_def on_connection_def dispatch_accepted_def close_conn_def
    on_server_closed_def fail_accept_waiters_def Let_def split: if_splits option.splits list.splits sum.splits prod.splits)

lemma listen_sound:
  "Tcp_Server.listen token a b c d (Some sv) = (r, impl) \<Longrightarrow> server_sound sv \<Longrightarrow> \<exists>sv'. impl = Some sv' \<and> server_sound sv'"
  by (auto simp: Tcp_Server.listen_def server_sound_def Let_def split: if_splits option.splits)

lemma server_init_sound [simp]: "server_sound server_init"
  by (simp add: server_sound_def server_init_def)

lemmas net_steps = socket_bodies ccall_def net_env_def holds_def

lemma net_history_holds_step:
  assumes "holds i (sw_os w)" "socket_do (net_env nw) a (i, w) = (i', w')"
  shows "holds i' (sw_os w')"
proof (cases a)
  case SClose
  show ?thesis
  proof (cases "sk_closed i")
    case True
    then show ?thesis using SClose assms by (simp add: close_body_def socket_bodies)
  next
    case False
    from close_body_ok [OF net_closes_ok False, of nw w] show ?thesis using SClose assms(2) by (auto simp: holds_def shut_down_def)
  qed
next
  case (SBind local)
  then show ?thesis using assms by (auto simp: net_steps split: keeps_splits; blast dest: create_sound intro: bind_sound)
next
  case (SListen backlog)
  then show ?thesis using assms by (auto simp: net_steps split: keeps_splits; blast dest: listen_sound intro: server_init_sound)
next
  case (SConnect remote)
  then show ?thesis using assms
    by (auto simp: net_steps net_connect_def split: keeps_splits sock_answer.splits dest: create_sound)
next
  case (SConnectFor remote timeout)
  then show ?thesis using assms
    by (auto simp: net_steps net_connect_def split: keeps_splits sock_answer.splits dest: create_sound)
qed (use assms in \<open>auto simp: net_steps split: keeps_splits dest: create_sound\<close>)

text \<open>A socket as \<open>Socket::tcp\<close> or \<open>Socket::udp\<close> makes it.\<close>

definition made :: "net_world \<Rightarrow> socket_impl \<times> net sock_world \<Rightarrow> bool" where
  "made nw s \<longleftrightarrow> fst s = socket_tcp \<or> (\<exists>w. s = snd (snd (socket_udp (net_env nw) w)))"

lemma made_holds: "made nw (i, w) \<Longrightarrow> holds i (sw_os w)"
  by (auto simp: made_def socket_tcp_def socket_udp_def new_socket_def net_steps split: keeps_splits dest: create_sound)

lemma net_step_holds: "net_step nw (i, w) (i', w') \<Longrightarrow> holds i (sw_os w) \<Longrightarrow> holds i' (sw_os w')"
proof (induction "(i, w)" "(i', w')" rule: net_step.induct)
  case (a_member a)
  then show ?case using net_history_holds_step by metis
next
  case (a_server_event x sv sv')
  have "server_sound sv \<Longrightarrow> server_sound sv'" using a_server_event(2) by (rule server_moves_sound)
  then show ?case using a_server_event by (auto simp: holds_def at_net_def)
qed (auto simp: holds_def at_net_def update_at_def conn_event_inv udp_event_sound)

lemma net_history_holds:
  assumes "(net_step nw)\<^sup>*\<^sup>* (i, w) (i', w')" "holds i (sw_os w)"
  shows "holds i' (sw_os w')"
proof -
  have "holds (fst t) (sw_os (snd t))" if "(net_step nw)\<^sup>*\<^sup>* (i, w) t" for t
    using that
  proof (induction rule: rtranclp_induct)
    case (step s t)
    then show ?case using net_step_holds [of nw "fst s" "snd s" "fst t" "snd t"] by simp
  qed (simp add: assms(2))
  from this [OF assms(1)] show ?thesis by simp
qed

end
