(* ===== verification/Ipc_Types.thy ===== *)
theory Ipc_Types
  imports Prelude
begin

text \<open>
  Which types \<open>ProcessChannel::send<T>\<close> and \<open>recv<T>\<close> accept (include/fiberuv/fiberuv.hpp, \<open>IpcDeepCopyable\<close>,
  \<open>IpcTrivialPayload\<close>, \<open>QueueMessageType\<close>). The types are those the traits look at: arithmetic types and enumerations of a given size,
  pointers, references, arrays, cv-qualified types and classes by name. What the compiler knows of a class, and whether
  the user specialised \<open>IpcDeepCopyable\<close> for it, is an environment. A qualified array is an array of
  qualified elements.
\<close>

datatype ctype =
    Arithmetic nat
  | Enum nat
  | Pointer ctype
  | MemberPointer
  | Reference ctype
  | Array ctype nat
  | Const ctype
  | Volatile ctype
  | Class nat

record class_info =
  ci_members :: "ctype list"
  ci_trivially_copyable :: bool
  ci_standard_layout :: bool
  ci_move_constructible :: bool
  ci_deep_copyable :: bool

type_synonym class_env = "nat \<Rightarrow> class_info"

text \<open>The traits of the standard library the concepts use.\<close>

fun remove_cv :: "ctype \<Rightarrow> ctype" where
  "remove_cv (Const t) = remove_cv t"
| "remove_cv (Volatile t) = remove_cv t"
| "remove_cv (Array t n) = Array (remove_cv t) n"
| "remove_cv t = t"

lemma size_remove_cv [termination_simp]: "size (remove_cv t) < Suc (size t)"
  by (induction t) auto

fun is_reference :: "ctype \<Rightarrow> bool" where
  "is_reference (Reference t) = True"
| "is_reference t = False"

fun is_pointer :: "ctype \<Rightarrow> bool" where
  "is_pointer (Pointer t) = True"
| "is_pointer (Const t) = is_pointer t"
| "is_pointer (Volatile t) = is_pointer t"
| "is_pointer t = False"

fun is_arithmetic_or_enum :: "ctype \<Rightarrow> bool" where
  "is_arithmetic_or_enum (Arithmetic n) = True"
| "is_arithmetic_or_enum (Enum n) = True"
| "is_arithmetic_or_enum (Const t) = is_arithmetic_or_enum t"
| "is_arithmetic_or_enum (Volatile t) = is_arithmetic_or_enum t"
| "is_arithmetic_or_enum t = False"

text \<open>Scalar types, and arrays of such types, have both properties; of a class the compiler knows.\<close>

fun type_has :: "(class_info \<Rightarrow> bool) \<Rightarrow> class_env \<Rightarrow> ctype \<Rightarrow> bool" where
  "type_has flag env (Reference t) = False"
| "type_has flag env (Array t n) = type_has flag env t"
| "type_has flag env (Const t) = type_has flag env t"
| "type_has flag env (Volatile t) = type_has flag env t"
| "type_has flag env (Class c) = flag (env c)"
| "type_has flag env t = True"

text \<open>
  \<open>IpcDeepCopyable\<close>: false in general, true for arithmetic types and enumerations (\<open>std::byte\<close> is one), the value of the
  element type for arrays, and whatever the user's specialisation says for a class.
\<close>

fun ipc_deep_copyable :: "class_env \<Rightarrow> ctype \<Rightarrow> bool" where
  "ipc_deep_copyable env (Array t n) = ipc_deep_copyable env (remove_cv t)"
| "ipc_deep_copyable env (Class c) = ci_deep_copyable (env c)"
| "ipc_deep_copyable env t = is_arithmetic_or_enum t"

definition ipc_trivial_payload :: "class_env \<Rightarrow> ctype \<Rightarrow> bool" where
  "ipc_trivial_payload env t \<longleftrightarrow>
     \<not> is_reference t \<and> \<not> is_pointer (remove_cv t) \<and> type_has ci_trivially_copyable env (remove_cv t) \<and>
     type_has ci_standard_layout env (remove_cv t) \<and> ipc_deep_copyable env (remove_cv t)"

text \<open>\<open>std::decay_t\<close> and the types a \<open>MessageQueue\<close> carries.\<close>

fun decay :: "ctype \<Rightarrow> ctype" where
  "decay (Reference t) = decay t"
| "decay (Array t n) = Pointer t"
| "decay t = remove_cv t"

definition queue_message_type :: "class_env \<Rightarrow> ctype \<Rightarrow> bool" where
  "queue_message_type env t \<longleftrightarrow> \<not> is_reference t \<and> type_has ci_move_constructible env (decay t)"


subsection \<open>No address leaves the process\<close>

text \<open>The types whose values contain an address, through arrays and members.\<close>

inductive holds_address :: "class_env \<Rightarrow> ctype \<Rightarrow> bool" for env where
  pointer: "holds_address env (Pointer t)"
| member_pointer: "holds_address env MemberPointer"
| reference: "holds_address env (Reference t)"
| array: "holds_address env t \<Longrightarrow> holds_address env (Array t n)"
| const_of: "holds_address env t \<Longrightarrow> holds_address env (Const t)"
| volatile_of: "holds_address env t \<Longrightarrow> holds_address env (Volatile t)"
| member: "m \<in> set (ci_members (env c)) \<Longrightarrow> holds_address env m \<Longrightarrow> holds_address env (Class c)"

text \<open>
  The obligation the comment on \<open>IpcDeepCopyable\<close> puts on a user who specialises it: every member is itself
  safe to copy.
\<close>

definition verified_opt_ins :: "class_env \<Rightarrow> bool" where
  "verified_opt_ins env \<longleftrightarrow>
     (\<forall>c. ci_deep_copyable (env c) \<longrightarrow> (\<forall>m \<in> set (ci_members (env c)). ipc_deep_copyable env (remove_cv m)))"

lemma remove_cv_idem [simp]: "remove_cv (remove_cv t) = remove_cv t"
  by (induction t) auto

lemma address_not_deep_copyable:
  assumes "holds_address env t" "verified_opt_ins env"
  shows "\<not> ipc_deep_copyable env (remove_cv t)"
  using assms(1) by (induction rule: holds_address.induct) (use assms(2) in \<open>auto simp: verified_opt_ins_def\<close>)

text \<open>
  C36. If the classes that opt in keep the rule stated with the trait, that every member is deep copyable too, no type accepted by \<open>send\<close> and \<open>recv\<close> holds an address,
  however deep in arrays and members. The rule is needed and not checked: a class with a pointer member is accepted
  as soon as it opts in, and never before.
\<close>

theorem payload_holds_no_address:
  assumes "verified_opt_ins env" "ipc_trivial_payload env t"
  shows "\<not> holds_address env t \<and>
    (ipc_trivial_payload (env(c := \<lparr>ci_members = [Pointer u], ci_trivially_copyable = True, ci_standard_layout = True,
        ci_move_constructible = True, ci_deep_copyable = b\<rparr>)) (Class c) \<longleftrightarrow> b)"
proof
  show "\<not> holds_address env t" using assms address_not_deep_copyable by (auto simp: ipc_trivial_payload_def)
qed (simp add: ipc_trivial_payload_def)

text \<open>The payload of the demonstration program, a struct of an \<open>int\<close> and a \<open>double\<close>, and an array of three of them.\<close>

definition demo_classes :: class_env where
  "demo_classes c = \<lparr>ci_members = [Arithmetic 4, Arithmetic 8], ci_trivially_copyable = True, ci_standard_layout = True,
     ci_move_constructible = True, ci_deep_copyable = (c = 0)\<rparr>"

theorem payload_holds_no_address_witness:
  "ipc_trivial_payload demo_classes (Array (Const (Class 0)) 3) \<and> \<not> holds_address demo_classes (Array (Const (Class 0)) 3) \<and>
   \<not> ipc_trivial_payload demo_classes (Class 1) \<and> \<not> ipc_trivial_payload demo_classes (Array (Pointer (Arithmetic 1)) 2)"
proof -
  have "verified_opt_ins demo_classes" by (simp add: verified_opt_ins_def demo_classes_def)
  moreover have "ipc_trivial_payload demo_classes (Array (Const (Class 0)) 3)"
    by (simp add: ipc_trivial_payload_def demo_classes_def)
  ultimately show ?thesis using payload_holds_no_address [of demo_classes "Array (Const (Class 0)) 3"]
    by (simp add: ipc_trivial_payload_def demo_classes_def)
qed

end
