(* ===== verification/Tcp_Stream.thy ===== *)
theory Tcp_Stream
  imports Tcp_Connection "HOL-Library.Sublist"
begin

text \<open>
  Two connections and the bytes between them (src/tcp.cpp). The writing side calls \<open>write\<close> and \<open>close\<close>, the reading
  side \<open>read\<close>, \<open>read_for\<close> and \<open>close\<close>. What is handed to \<open>uv_write\<close> waits in the queue of libuv (\<open>ln_pending\<close>) until the
  system takes it (\<open>ln_wire\<close>); the network hands any non-empty piece of what is under way to the read callback, while
  reading is on. That what is under way arrives in order is what TCP is relied on for, and that is all: \<open>uv_close\<close> cancels
  the writes still in the queue of the handle, a reset of the connection, by the network or by a peer that goes away, loses
  any part of what is under way, and the read callback may report any error at any time. \<open>ln_lost\<close> are the bytes lost in these two
  ways. The end of the stream is reported when nothing is under way and the other side is closed or the connection
  broken.

  \<open>ln_payloads\<close> are the payloads of the writes that \<open>uv_write\<close> accepted, \<open>ln_written\<close> the bytes it was handed (the code cuts
  the length to 32 bits) and \<open>ln_read\<close> what readers were given, all in order; \<open>ln_cancelled\<close> records that a close
  cancelled writes.
\<close>

record link =
  ln_tx :: connection_state
  ln_rx :: connection_state
  ln_pending :: "byte list"
  ln_wire :: "byte list"
  ln_lost :: "byte list"
  ln_broken :: bool
  ln_cancelled :: bool
  ln_payloads :: "byte list list"
  ln_written :: "byte list"
  ln_read :: "byte list"

text \<open>\<open>uv_write\<close> refuses a handle that was given to \<open>uv_close\<close>.\<close>

inductive link_step :: "uv_codes \<Rightarrow> link \<Rightarrow> link \<Rightarrow> bool" for c where
  send: "connection_write token p rc payload (Some (ln_tx l)) = (Await q, Some buf) \<Longrightarrow> \<not> cs_uv_closing (ln_tx l) \<Longrightarrow>
    link_step c l (if ln_broken l
      then l\<lparr>ln_lost := ln_lost l @ buf, ln_written := ln_written l @ buf, ln_payloads := ln_payloads l @ [payload]\<rparr>
      else l\<lparr>ln_pending := ln_pending l @ buf, ln_written := ln_written l @ buf, ln_payloads := ln_payloads l @ [payload]\<rparr>)"
| flush: "n \<le> length (ln_pending l) \<Longrightarrow>
    link_step c l (l\<lparr>ln_pending := drop n (ln_pending l), ln_wire := ln_wire l @ take n (ln_pending l)\<rparr>)"
| tx_close: "start_close token promise (Some (ln_tx l)) = (Some st, effs) \<Longrightarrow>
    link_step c l (if UvClose \<in> set effs
      then l\<lparr>ln_tx := st, ln_pending := [], ln_lost := ln_pending l @ ln_lost l, ln_cancelled := (ln_cancelled l \<or> ln_pending l \<noteq> [])\<rparr>
      else l\<lparr>ln_tx := st\<rparr>)"
| tx_closed: "cs_uv_closing (ln_tx l) \<Longrightarrow> on_connection_closed (ln_tx l) = (st, effs) \<Longrightarrow> link_step c l (l\<lparr>ln_tx := st\<rparr>)"
| reset: "link_step c l (l\<lparr>ln_broken := True, ln_pending := [], ln_wire := take n (ln_wire l),
      ln_lost := drop n (ln_wire l) @ ln_pending l @ ln_lost l\<rparr>)"
| read: "connection_read token p rc (Some (ln_rx l)) = (r, Some st) \<Longrightarrow>
    link_step c l (l\<lparr>ln_rx := st, ln_read := ln_read l @ returned r\<rparr>)"
| give_up: "read_for_expire p (ln_rx l) = (mine, st) \<Longrightarrow> link_step c l (l\<lparr>ln_rx := st\<rparr>)"
| rx_close: "start_close token promise (Some (ln_rx l)) = (Some st, effs) \<Longrightarrow> link_step c l (l\<lparr>ln_rx := st\<rparr>)"
| rx_closed: "cs_uv_closing (ln_rx l) \<Longrightarrow> on_connection_closed (ln_rx l) = (st, effs) \<Longrightarrow> link_step c l (l\<lparr>ln_rx := st\<rparr>)"
| deliver: "cs_reading (ln_rx l) \<Longrightarrow> 0 < n \<Longrightarrow> n \<le> length (ln_wire l) \<Longrightarrow>
    on_connection_read c (int n) (ln_wire l) (ln_rx l) = (st, effs) \<Longrightarrow>
    link_step c l (l\<lparr>ln_rx := st, ln_wire := drop n (ln_wire l), ln_read := ln_read l @ given effs\<rparr>)"
| deliver_status: "cs_reading (ln_rx l) \<Longrightarrow> nread \<le> 0 \<Longrightarrow> nread \<noteq> uv_eof c \<Longrightarrow>
    on_connection_read c nread base (ln_rx l) = (st, effs) \<Longrightarrow>
    link_step c l (l\<lparr>ln_rx := st, ln_read := ln_read l @ given effs\<rparr>)"
| deliver_eof: "cs_reading (ln_rx l) \<Longrightarrow> ln_wire l = [] \<Longrightarrow> cs_uv_closing (ln_tx l) \<or> ln_broken l \<Longrightarrow>
    on_connection_read c (uv_eof c) base (ln_rx l) = (st, effs) \<Longrightarrow>
    link_step c l (l\<lparr>ln_rx := st, ln_read := ln_read l @ given effs\<rparr>)"

text \<open>What \<open>uv_write\<close> is handed for a payload.\<close>

definition cut32 :: "byte list \<Rightarrow> byte list" where
  "cut32 payload = take (length payload mod 2 ^ 32) payload"

definition link_inv :: "link \<Rightarrow> bool" where
  "link_inv l \<longleftrightarrow>
     ln_written l = ln_read l @ concat (cs_buffered_reads (ln_rx l)) @ ln_wire l @ ln_pending l @ ln_lost l \<and>
     ln_written l = concat (map cut32 (ln_payloads l)) \<and>
     (cs_buffered_reads (ln_rx l) \<noteq> [] \<longrightarrow> cs_pending_read (ln_rx l) = None) \<and>
     (cs_uv_closing (ln_tx l) \<or> ln_broken l \<longrightarrow> ln_pending l = []) \<and>
     (ln_lost l \<noteq> [] \<longrightarrow> ln_broken l \<or> ln_cancelled l) \<and>
     (ln_cancelled l \<longrightarrow> cs_uv_closing (ln_tx l)) \<and>
     (cs_eof (ln_rx l) \<longrightarrow> ln_wire l = [] \<and> (cs_uv_closing (ln_tx l) \<or> ln_broken l))"

subsection \<open>What each callback and call keeps of the stream\<close>

lemma write_buf: "connection_write token p rc payload (Some st) = (Await q, Some buf) \<Longrightarrow> buf = cut32 payload"
  by (auto simp: connection_write_def ensure_loop_alive_def cut32_def Let_def split: if_splits)

lemma close_keeps_stream:
  assumes "start_close token promise (Some st) = (Some st', effs)"
  shows "cs_buffered_reads st' = cs_buffered_reads st" "cs_eof st' = cs_eof st"
    "cs_pending_read st = None \<longrightarrow> cs_pending_read st' = None"
    "cs_uv_closing st' \<longleftrightarrow> cs_uv_closing st \<or> UvClose \<in> set effs"
  using assms by (auto simp: start_close_def settle_closed_def push_close_waiter_def set_close_def Let_def
      split: if_splits option.splits)

lemma closed_keeps_stream:
  assumes "on_connection_closed st = (st', effs)"
  shows "cs_buffered_reads st' = cs_buffered_reads st" "cs_eof st' = cs_eof st" "cs_pending_read st' = None"
    "cs_uv_closing st' = cs_uv_closing st"
  using assms by (auto simp: on_connection_closed_def settle_closed_def)

lemma expire_keeps_stream:
  assumes "read_for_expire p st = (mine, st')"
  shows "cs_buffered_reads st' = cs_buffered_reads st" "cs_eof st' = cs_eof st"
    "cs_pending_read st = None \<longrightarrow> cs_pending_read st' = None"
  using assms by (auto simp: read_for_expire_def uv_read_stop_def split: if_splits)

lemma read_keeps_stream:
  assumes "connection_read token p rc (Some st) = (r, Some st')"
  shows "concat (cs_buffered_reads st) = returned r @ concat (cs_buffered_reads st') \<and> cs_eof st' = cs_eof st \<and>
    (cs_buffered_reads st' \<noteq> [] \<longrightarrow> cs_buffered_reads st \<noteq> [] \<and> cs_pending_read st' = cs_pending_read st)"
  using assms
  by (cases "cs_buffered_reads st") (auto simp: connection_read_def ensure_loop_alive_def split: if_splits)

lemma deliver_keeps_stream:
  assumes "on_connection_read c (int n) wire st = (st', effs)" "0 < n"
    "cs_buffered_reads st \<noteq> [] \<longrightarrow> cs_pending_read st = None"
  shows "concat (cs_buffered_reads st) @ take n wire = given effs @ concat (cs_buffered_reads st') \<and> cs_eof st' = cs_eof st \<and>
    (cs_buffered_reads st' \<noteq> [] \<longrightarrow> cs_pending_read st' = None)"
  using assms by (cases "cs_pending_read st") (auto simp: on_connection_read_def finish_read_success_def uv_read_stop_def Let_def)

lemma status_keeps_stream:
  assumes "on_connection_read c nread base st = (st', effs)" "nread \<le> 0"
  shows "cs_buffered_reads st' = cs_buffered_reads st" "given effs = []" "cs_pending_read st = None \<longrightarrow> cs_pending_read st' = None"
    "nread \<noteq> uv_eof c \<longrightarrow> cs_eof st' = cs_eof st"
  using assms by (cases "cs_pending_read st"; cases "nread = uv_eof c";
      auto simp: on_connection_read_def finish_read_success_def finish_read_error_def uv_read_stop_def Let_def split: if_splits)+

lemma link_inv_step:
  assumes "link_step c l m" "link_inv l" "uv_codes_ok c"
  shows "link_inv m"
  using assms(1,2)
proof (induction rule: link_step.induct)
  case (send token p rc payload l q buf)
  then show ?case using write_buf [OF send.hyps(1)] by (auto simp: link_inv_def)
next
  case (flush n l)
  have "ln_wire l @ ln_pending l = (ln_wire l @ take n (ln_pending l)) @ drop n (ln_pending l)" by simp
  then show ?case using flush by (auto simp: link_inv_def)
next
  case (tx_close token promise l st effs)
  then show ?case using close_keeps_stream [OF tx_close.hyps] by (auto simp: link_inv_def)
next
  case (tx_closed l st effs)
  then show ?case using closed_keeps_stream [OF tx_closed.hyps(2)] by (auto simp: link_inv_def)
next
  case (reset l n)
  have "ln_wire l @ xs = take n (ln_wire l) @ drop n (ln_wire l) @ xs" for xs by simp
  then show ?case using reset by (auto simp: link_inv_def)
next
  case (read token p rc l r st)
  then show ?case using read_keeps_stream [OF read.hyps] by (auto simp: link_inv_def)
next
  case (give_up p l mine st)
  then show ?case using expire_keeps_stream [OF give_up.hyps] by (auto simp: link_inv_def)
next
  case (rx_close token promise l st effs)
  then show ?case using close_keeps_stream [OF rx_close.hyps] by (auto simp: link_inv_def)
next
  case (rx_closed l st effs)
  then show ?case using closed_keeps_stream [OF rx_closed.hyps(2)] by (auto simp: link_inv_def)
next
  case (deliver l n st effs)
  have d: "concat (cs_buffered_reads (ln_rx l)) @ take n (ln_wire l) = given effs @ concat (cs_buffered_reads st)"
    "cs_eof st = cs_eof (ln_rx l)" "cs_buffered_reads st \<noteq> [] \<longrightarrow> cs_pending_read st = None"
    using deliver_keeps_stream [OF deliver.hyps(4,2)] deliver.prems by (auto simp: link_inv_def)
  have "ln_read l @ concat (cs_buffered_reads (ln_rx l)) @ ln_wire l @ xs =
      ln_read l @ (given effs @ concat (cs_buffered_reads st)) @ drop n (ln_wire l) @ xs" for xs
    by (metis append.assoc append_take_drop_id d(1))
  then show ?case using deliver.prems d(2,3) by (auto simp: link_inv_def)
next
  case (deliver_status l nread base st effs)
  then show ?case using status_keeps_stream [OF deliver_status.hyps(4,2)] by (auto simp: link_inv_def)
next
  case (deliver_eof l base st effs)
  have "uv_eof c \<le> 0" using assms(3) by (simp add: uv_codes_ok_def)
  then show ?case using deliver_eof status_keeps_stream [OF deliver_eof.hyps(4)] by (auto simp: link_inv_def)
qed

definition link_start :: "connection_state \<Rightarrow> connection_state \<Rightarrow> link" where
  "link_start tx rx = \<lparr>ln_tx = tx, ln_rx = rx, ln_pending = [], ln_wire = [], ln_lost = [], ln_broken = False,
     ln_cancelled = False, ln_payloads = [], ln_written = [], ln_read = []\<rparr>"

lemma concat_cut32: "\<forall>x \<in> set ps. length x < 2 ^ 32 \<Longrightarrow> concat (map cut32 ps) = concat ps"
  by (induction ps) (simp_all add: cut32_def)

text \<open>
  C6. A pair of connections is a byte stream: whatever sizes are written and read, however the network cuts the
  stream, whenever timed readers give up, either side closes, reads fail or the connection breaks, what the readers were given is a
  prefix of what was handed to \<open>uv_write\<close>, and the rest is buffered, under way, waiting in the queue of libuv or lost. The bytes handed over are the payloads
  written, in order, as long as none has 4 GiB or more. Bytes are lost only when the connection breaks or a
  close cancels waiting writes; without either, a reader that was told the end has, with what is
  buffered, everything that was written.
\<close>

theorem tcp_stream_refines_pipe:
  assumes "(link_step c)\<^sup>*\<^sup>* (link_start tx rx) l" "uv_codes_ok c" "create_connection 0 = Inr tx" "create_connection 0 = Inr rx"
  shows "prefix (ln_read l) (ln_written l) \<and>
    ln_written l = ln_read l @ concat (cs_buffered_reads (ln_rx l)) @ ln_wire l @ ln_pending l @ ln_lost l \<and>
    ((\<forall>x \<in> set (ln_payloads l). length x < 2 ^ 32) \<longrightarrow> ln_written l = concat (ln_payloads l)) \<and>
    (ln_lost l \<noteq> [] \<longrightarrow> ln_broken l \<or> ln_cancelled l) \<and>
    (cs_eof (ln_rx l) \<and> \<not> ln_broken l \<and> \<not> ln_cancelled l \<longrightarrow>
      cs_uv_closing (ln_tx l) \<and> ln_written l = ln_read l @ concat (cs_buffered_reads (ln_rx l)))"
proof -
  have "link_inv (link_start tx rx)" using assms(3,4) by (auto simp: link_inv_def link_start_def create_connection_def)
  with assms(1) have inv: "link_inv l" by (induction rule: rtranclp_induct) (auto intro: link_inv_step assms(2))
  then have "(\<forall>x \<in> set (ln_payloads l). length x < 2 ^ 32) \<longrightarrow> ln_written l = concat (ln_payloads l)"
    using concat_cut32 by (metis link_inv_def)
  moreover have "prefix (ln_read l) (ln_written l)" using inv unfolding link_inv_def by (metis prefixI)
  ultimately show ?thesis using inv unfolding link_inv_def by auto
qed

text \<open>Three bytes are written and sent, two of them arrive at a waiting reader, and the writer closes.\<close>

theorem tcp_stream_refines_pipe_witness:
  "\<exists>l tx. create_connection 0 = Inr tx \<and> (link_step linux_codes)\<^sup>*\<^sup>* (link_start tx tx) l \<and> cs_uv_closing (ln_tx l) \<and>
     ln_read l = [5, 6] \<and> ln_wire l = [7] \<and> ln_written l = [5, 6, 7] \<and> prefix (ln_read l) (ln_written l)"
proof -
  obtain st where st: "create_connection 0 = Inr st" by (simp add: create_connection_def)
  let ?l0 = "link_start st st"
  let ?l1 = "?l0\<lparr>ln_pending := [5, 6, 7], ln_written := [5, 6, 7], ln_payloads := [[5, 6, 7]]\<rparr>"
  let ?l2 = "?l1\<lparr>ln_pending := [], ln_wire := [5, 6, 7]\<rparr>"
  let ?l3 = "?l2\<lparr>ln_rx := st\<lparr>cs_pending_read := Some 1, cs_reading := True\<rparr>\<rparr>"
  let ?l4 = "?l3\<lparr>ln_rx := st\<lparr>cs_reading := False\<rparr>, ln_wire := [7], ln_read := [5, 6]\<rparr>"
  let ?l5 = "?l4\<lparr>ln_tx := st\<lparr>cs_closing := True, cs_uv_closing := True, cs_close_waiters := [9], cs_reading := False\<rparr>\<rparr>"
  note d = link_start_def create_connection_def
  have "link_step linux_codes ?l0 ?l1"
    using link_step.send [of "Some True" 0 0 "[5, 6, 7]" ?l0 0 "[5, 6, 7]" linux_codes] st
    by (auto simp: d connection_write_def ensure_loop_alive_def)
  moreover have "link_step linux_codes ?l1 ?l2"
    using link_step.flush [of 3 ?l1 linux_codes] by (simp add: d)
  moreover have "link_step linux_codes ?l2 ?l3"
    using link_step.read [of "Some True" 1 0 ?l2 "Await 1" "st\<lparr>cs_pending_read := Some 1, cs_reading := True\<rparr>" linux_codes] st
    by (auto simp: d connection_read_def ensure_loop_alive_def)
  moreover have "link_step linux_codes ?l3 ?l4"
    using link_step.deliver [of ?l3 2 linux_codes "st\<lparr>cs_reading := False\<rparr>" "[SetRead 1 (Value [5, 6])]"] st
    by (auto simp: d on_connection_read_def finish_read_success_def uv_read_stop_def numeral_2_eq_2)
  moreover have "link_step linux_codes ?l4 ?l5"
    using link_step.tx_close [of "Some True" "Some 9" ?l4
        "st\<lparr>cs_closing := True, cs_uv_closing := True, cs_close_waiters := [9], cs_reading := False\<rparr>" "[UvClose]" linux_codes] st
    by (auto simp: d start_close_def push_close_waiter_def Let_def)
  ultimately have r: "(link_step linux_codes)\<^sup>*\<^sup>* ?l0 ?l5" by (meson converse_rtranclp_into_rtranclp r_into_rtranclp)
  from tcp_stream_refines_pipe [OF r linux_codes_ok st st] r st show ?thesis
    by (intro exI [of _ ?l5] exI [of _ st]) (simp add: link_start_def)
qed

end
