(* ===== verification/Overloads.thy ===== *)
theory Overloads
  imports Tcp_Client Tcp_Server Unified_Socket Unified_File Timers Poll_Wait Ipc_Channel Event_Loop
begin

text \<open>
  The overloads of src/include/fiberuv/fiberuv.hpp. A timed call takes any \<open>std::chrono::duration\<close>, here a number \<open>ticks\<close> of units of
  \<open>num / den\<close> seconds, and calls the overload for milliseconds; \<open>None\<close> is the overflow of \<open>duration_cast\<close>. A
  call without a loop uses the loop that runs on the calling thread and throws where there is none; the
  current loop is \<open>tls\<close>, and \<open>tokens\<close> gives the lifetime token of each loop.
\<close>

definition for_duration :: "int \<Rightarrow> int \<Rightarrow> int \<Rightarrow> (int \<Rightarrow> 'a) \<Rightarrow> 'a option" where
  "for_duration ticks num den f = map_option f (duration_to_ms64 ticks num den)"

definition on_current_loop :: "nat option \<Rightarrow> (nat \<Rightarrow> err + 'a) \<Rightarrow> err + 'a" where
  "on_current_loop tls f = (case get_current_loop tls of Inl ex \<Rightarrow> Inl ex | Inr loop \<Rightarrow> f loop)"

text \<open>The same for calls on the system, which run on the thread of their own loop.\<close>

definition here :: "nat option \<Rightarrow> (nat \<Rightarrow> ('s, 'a) prog) \<Rightarrow> ('s, 'a) prog" where
  "here tls f s = (case get_current_loop tls of Inl ex \<Rightarrow> Some (Inl ex, s) | Inr loop \<Rightarrow> f loop s)"

subsection \<open>Durations\<close>

definition tcp_read_for_duration where
  "tcp_read_for_duration token promise rc ticks num den ptr =
     for_duration ticks num den (\<lambda>ms. tcp_read_for_begin token promise rc ms ptr)"

definition connect_for_duration where
  "connect_for_duration token promise rc ticks num den =
     for_duration ticks num den (\<lambda>ms. connect_for_begin token promise rc ms)"

definition accept_for_duration where
  "accept_for_duration token promise ticks num den impl =
     for_duration ticks num den (\<lambda>ms. accept_for_begin token promise ms impl)"

definition recv_from_for_duration where
  "recv_from_for_duration token promise rc ticks num den impl =
     for_duration ticks num den (\<lambda>ms. recv_from_for_begin token promise rc ms impl)"

definition socket_accept_for_duration where
  "socket_accept_for_duration env on_loop token ticks num den impl w =
     for_duration ticks num den (\<lambda>ms. socket_accept_for env on_loop token ms impl w)"

definition socket_connect_for_duration where
  "socket_connect_for_duration env on_loop token remote ticks num den impl w =
     for_duration ticks num den (\<lambda>ms. socket_connect_for env on_loop token remote ms impl w)"

definition socket_recv_for_duration where
  "socket_recv_for_duration env on_loop token ticks num den impl w =
     for_duration ticks num den (\<lambda>ms. socket_recv_for env on_loop token ms impl w)"

definition socket_recv_from_for_duration where
  "socket_recv_from_for_duration env on_loop token ticks num den impl w =
     for_duration ticks num den (\<lambda>ms. socket_recv_from_for env on_loop token ms impl w)"

definition sleep_for_duration where
  "sleep_for_duration tls promise ticks num den init_rc start_rc =
     for_duration ticks num den (\<lambda>ms. sleep_for tls promise ms init_rc start_rc)"

definition every_duration where
  "every_duration token on_loop has_fn ticks num den init_rc start_rc =
     for_duration ticks num den (\<lambda>ms. every token on_loop has_fn ms init_rc start_rc)"

definition wait_fd_for_duration where
  "wait_fd_for_duration promise ticks num den init_poll_rc init_timer_rc start_poll_rc start_timer_rc =
     for_duration ticks num den (\<lambda>ms. wait_fd_for promise ms init_poll_rc init_timer_rc start_poll_rc start_timer_rc)"

subsection \<open>The current loop\<close>

definition socket_tcp_here :: "nat option \<Rightarrow> err + nat \<times> socket_impl" where
  "socket_tcp_here tls = on_current_loop tls (\<lambda>loop. Inr (loop, socket_tcp))"

definition socket_udp_here ::
  "nat option \<Rightarrow> 'os sock_env \<Rightarrow> 'os sock_world \<Rightarrow> (err + nat \<times> socket_impl) \<times> 'os sock_world" where
  "socket_udp_here tls env w =
     (case get_current_loop tls of
        Inl ex \<Rightarrow> (Inl ex, w)
      | Inr loop \<Rightarrow> (case socket_udp env w of (r, waited, i, w1) \<Rightarrow> (map_sum id (\<lambda>_. (loop, i)) r, w1)))"

definition every_here where
  "every_here tls tokens has_fn interval init_rc start_rc =
     on_current_loop tls (\<lambda>loop. fst (every (tokens loop) True has_fn interval init_rc start_rc))"

definition pair_here where
  "pair_here tls env os = on_current_loop tls (\<lambda>loop. fst (pair True env loop os))"

definition file_open_here :: "nat option \<Rightarrow> 'os fs_env \<Rightarrow> string \<Rightarrow> open_flag list \<Rightarrow> nat \<Rightarrow> ('os fs_world, file_impl) prog" where
  "file_open_here tls env path flags mode = here tls (\<lambda>loop. file_open env True path flags mode)"

definition open_read_here :: "nat option \<Rightarrow> 'os fs_env \<Rightarrow> string \<Rightarrow> ('os fs_world, file_impl) prog" where
  "open_read_here tls env path = here tls (\<lambda>loop. open_read env True path)"

definition open_write_here :: "nat option \<Rightarrow> 'os fs_env \<Rightarrow> string \<Rightarrow> bool \<Rightarrow> bool \<Rightarrow> bool \<Rightarrow> ('os fs_world, file_impl) prog" where
  "open_write_here tls env path app trunc create = here tls (\<lambda>loop. open_write env True path app trunc create)"

definition create_file_here :: "nat option \<Rightarrow> 'os fs_env \<Rightarrow> string \<Rightarrow> bool \<Rightarrow> ('os fs_world, bool) prog" where
  "create_file_here tls env path trunc = here tls (\<lambda>loop. create_file env True path trunc)"

definition create_directory_here :: "nat option \<Rightarrow> uv_codes \<Rightarrow> 'os dir_env \<Rightarrow> string \<Rightarrow> int \<Rightarrow> ('os, bool) prog" where
  "create_directory_here tls c env path mode = here tls (\<lambda>loop. create_directory c env True path mode)"

definition remove_directory_here :: "nat option \<Rightarrow> uv_codes \<Rightarrow> 'os dir_env \<Rightarrow> string \<Rightarrow> ('os, bool) prog" where
  "remove_directory_here tls c env path = here tls (\<lambda>loop. remove_directory c env True path)"

definition remove_file_here :: "nat option \<Rightarrow> uv_codes \<Rightarrow> 'os dir_env \<Rightarrow> string \<Rightarrow> ('os, bool) prog" where
  "remove_file_here tls c env path = here tls (\<lambda>loop. remove_file c env True path)"

subsection \<open>Properties\<close>

text \<open>
  Without a loop on the thread every overload for the current loop throws and touches nothing. With one, the call is made on
  the thread of its own loop, so that it returns: it never waits for itself as a dispatched call does.
\<close>

theorem here_overloads:
  "(let no_loop = RuntimeError ''No running EventLoop on current thread.'' in
     file_open_here None env path flags mode w = Some (Inl no_loop, w) \<and> create_file_here None env path trunc w = Some (Inl no_loop, w) \<and>
     create_directory_here None c denv path m os = Some (Inl no_loop, os) \<and> remove_directory_here None c denv path os = Some (Inl no_loop, os) \<and>
     remove_file_here None c denv path os = Some (Inl no_loop, os) \<and> socket_tcp_here None = Inl no_loop \<and>
     socket_udp_here None senv sw = (Inl no_loop, sw) \<and> pair_here None ienv ios = Inl no_loop) \<and>
   file_open_here (Some loop) env path flags mode w \<noteq> None \<and> create_file_here (Some loop) env path trunc w \<noteq> None \<and>
   create_directory_here (Some loop) c denv path m os \<noteq> None \<and> remove_directory_here (Some loop) c denv path os \<noteq> None \<and>
   remove_file_here (Some loop) c denv path os \<noteq> None \<and> socket_tcp_here (Some loop) = Inr (loop, socket_tcp)"
  by (simp add: Let_def here_def on_current_loop_def get_current_loop_def file_open_here_def create_file_here_def create_directory_here_def
      remove_directory_here_def remove_file_here_def socket_tcp_here_def socket_udp_here_def pair_here_def file_open_def create_file_def
      create_directory_def remove_directory_def remove_file_def)

end
