(* ===== verification/Libpq_Demo.thy ===== *)
theory Libpq_Demo
  imports Event_Loop
begin

text \<open>
  The client of PostgreSQL in src/examples/libpq_fd_demo.cpp, which drives libpq from a fiber with \<open>io::wait_readable\<close> and
  \<open>io::wait_writable\<close>. libpq and the server are a record of functions of the connection's state; waiting for a
  descriptor is one of them, and may throw. The events record what is given back: every result to \<open>PQclear\<close>,
  the connection to \<open>PQfinish\<close>. A call that does not return is \<open>None\<close>.
\<close>

datatype polling = PollingOk | PollingFailed | PollingReading | PollingWriting | PollingActive

datatype exec_status = TuplesOk | CommandOk | OtherStatus

record pg_result =
  rs_status :: exec_status
  rs_ntuples :: nat
  rs_nfields :: nat
  rs_value :: "nat \<Rightarrow> nat \<Rightarrow> string"
  rs_error :: "string option"

record 'db pq_api =
  pq_connectStart :: "string \<Rightarrow> 'db \<Rightarrow> bool \<times> 'db"
  pq_setnonblocking :: "'db \<Rightarrow> int \<times> 'db"
  pq_connectPoll :: "'db \<Rightarrow> polling \<times> 'db"
  pq_socket :: "'db \<Rightarrow> int"
  pq_errorMessage :: "'db \<Rightarrow> string option"
  pq_sendQuery :: "string \<Rightarrow> 'db \<Rightarrow> int \<times> 'db"
  pq_flush :: "'db \<Rightarrow> int \<times> 'db"
  pq_consumeInput :: "'db \<Rightarrow> int \<times> 'db"
  pq_isBusy :: "'db \<Rightarrow> bool"
  pq_getResult :: "'db \<Rightarrow> pg_result option \<times> 'db"
  pq_wait :: "bool \<Rightarrow> int \<Rightarrow> 'db \<Rightarrow> err option \<times> 'db"
  pq_yield :: "'db \<Rightarrow> 'db"

datatype pq_event = GotResult | Cleared | Connected | Finished | StopLoop

record 'db pq_world =
  pw_db :: 'db
  pw_events :: "pq_event list"

type_synonym ('db, 'a) pq_op = "('db pq_world, 'a) prog"

definition pcall :: "('db \<Rightarrow> 'a \<times> 'db) \<Rightarrow> ('db, 'a) pq_op" where
  "pcall f w = (case f (pw_db w) of (x, db) \<Rightarrow> Some (Inr x, w\<lparr>pw_db := db\<rparr>))"

definition pevent :: "pq_event \<Rightarrow> 'db pq_world \<Rightarrow> 'db pq_world" where
  "pevent e w = w\<lparr>pw_events := pw_events w @ [e]\<rparr>"

text \<open>A \<open>unique_ptr\<close>: its deleter runs when the scope is left, by an exception too.\<close>

definition pscope :: "pq_event \<Rightarrow> ('db, 'a) pq_op \<Rightarrow> ('db, 'a) pq_op" where
  "pscope release body w = map_option (\<lambda>(r, w1). (r, pevent release w1)) (body w)"

definition pq_error :: "string \<Rightarrow> string option \<Rightarrow> err" where
  "pq_error loc message = RuntimeError (loc @ '': '' @ (case message of None \<Rightarrow> ''unknown libpq error'' | Some m \<Rightarrow> m))"

definition pq_fail :: "'db pq_api \<Rightarrow> string \<Rightarrow> ('db, 'a) pq_op" where
  "pq_fail api loc w = pthrow (pq_error loc (pq_errorMessage api (pw_db w))) w"

text \<open>\<open>io::wait_writable\<close> (\<open>True\<close>) and \<open>io::wait_readable\<close>.\<close>

definition wait_ready :: "'db pq_api \<Rightarrow> bool \<Rightarrow> int \<Rightarrow> ('db, unit) pq_op" where
  "wait_ready api writable fd w =
     (case pq_wait api writable fd (pw_db w) of
        (None, db) \<Rightarrow> Some (Inr (), w\<lparr>pw_db := db\<rparr>)
      | (Some ex, db) \<Rightarrow> Some (Inl ex, w\<lparr>pw_db := db\<rparr>))"

definition wait_poll_fd :: "'db pq_api \<Rightarrow> polling \<Rightarrow> ('db, unit) pq_op" where
  "wait_poll_fd api status w =
     (let fd = pq_socket api (pw_db w) in
      if fd < 0 then pthrow (RuntimeError ''PQsocket returned invalid fd'') w
      else case status of
        PollingReading \<Rightarrow> wait_ready api False fd w
      | PollingWriting \<Rightarrow> wait_ready api True fd w
      | PollingActive \<Rightarrow> preturn () (w\<lparr>pw_db := pq_yield api (pw_db w)\<rparr>)
      | _ \<Rightarrow> preturn () w)"

partial_function (option) connect_poll_loop :: "'db pq_api \<Rightarrow> 'db pq_world \<Rightarrow> ((err + unit) \<times> 'db pq_world) option" where
  "connect_poll_loop api w =
     (case pq_connectPoll api (pw_db w) of (status, db) \<Rightarrow>
        (let w1 = w\<lparr>pw_db := db\<rparr> in
         if status = PollingOk then Some (Inr (), w1)
         else if status = PollingFailed then pq_fail api ''PQconnectPoll'' w1
         else Option.bind (wait_poll_fd api status w1) (\<lambda>(r, w2).
           case r of Inl ex \<Rightarrow> Some (Inl ex, w2) | Inr u \<Rightarrow> connect_poll_loop api w2)))"

text \<open>The connection is finished if an exception leaves \<open>connect_nonblocking\<close>; otherwise the caller owns it.\<close>

definition finish_on_throw :: "('db, 'a) pq_op \<Rightarrow> ('db, 'a) pq_op" where
  "finish_on_throw body w =
     map_option (\<lambda>(r, w1). case r of Inl ex \<Rightarrow> (r, pevent Finished w1) | Inr x \<Rightarrow> (r, w1)) (body w)"

definition connect_nonblocking :: "'db pq_api \<Rightarrow> string \<Rightarrow> ('db, unit) pq_op" where
  "connect_nonblocking api conninfo =
     pseq (pcall (pq_connectStart api conninfo)) (\<lambda>raw w.
       if \<not> raw then pthrow (RuntimeError ''PQconnectStart returned null'') w
       else finish_on_throw
         (pseq (pcall (pq_setnonblocking api)) (\<lambda>rc.
            if rc \<noteq> 0 then pq_fail api ''PQsetnonblocking'' else connect_poll_loop api))
         (pevent Connected w))"

text \<open>The loop each of the three query functions repeats: flush, then read until a result is complete.\<close>

partial_function (option) pump :: "'db pq_api \<Rightarrow> int \<Rightarrow> 'db pq_world \<Rightarrow> ((err + unit) \<times> 'db pq_world) option" where
  "pump api fd w =
     (case pq_flush api (pw_db w) of (flush_status, db) \<Rightarrow>
        (let w1 = w\<lparr>pw_db := db\<rparr> in
         if flush_status = -1 then pq_fail api ''PQflush'' w1
         else if flush_status = 1 then
           Option.bind (wait_ready api True fd w1) (\<lambda>(r, w2).
             case r of Inl ex \<Rightarrow> Some (Inl ex, w2) | Inr u \<Rightarrow> pump api fd w2)
         else
           (case pq_consumeInput api (pw_db w1) of (consumed, db2) \<Rightarrow>
              (let w2 = w1\<lparr>pw_db := db2\<rparr> in
               if consumed = 0 then pq_fail api ''PQconsumeInput'' w2
               else if \<not> pq_isBusy api (pw_db w2) then Some (Inr (), w2)
               else Option.bind (wait_ready api False fd w2) (\<lambda>(r, w3).
                 case r of Inl ex \<Rightarrow> Some (Inl ex, w3) | Inr u \<Rightarrow> pump api fd w3)))))"

text \<open>What precedes the loop over the results.\<close>

definition send_and_pump :: "'db pq_api \<Rightarrow> string \<Rightarrow> ('db, unit) pq_op" where
  "send_and_pump api sql =
     pseq (pcall (pq_sendQuery api sql)) (\<lambda>sent w.
       if sent = 0 then pq_fail api ''PQsendQuery'' w
       else
         let fd = pq_socket api (pw_db w) in
         if fd < 0 then pthrow (RuntimeError ''PQsocket returned invalid fd'') w
         else pump api fd w)"

text \<open>
  The loop over the results: \<open>step\<close> is its body, which takes the accumulated value and may throw. The
  \<open>unique_ptr\<close> clears each result when its turn is over, by an exception of the body too.
\<close>

partial_function (option) result_loop ::
  "'db pq_api \<Rightarrow> (pg_result \<Rightarrow> 'a \<Rightarrow> err + 'a) \<Rightarrow> 'a \<Rightarrow> 'db pq_world \<Rightarrow> ((err + 'a) \<times> 'db pq_world) option" where
  "result_loop api step acc w =
     (case pq_getResult api (pw_db w) of
        (None, db) \<Rightarrow> Some (Inr acc, w\<lparr>pw_db := db\<rparr>)
      | (Some res, db) \<Rightarrow>
          (let w1 = pevent GotResult (w\<lparr>pw_db := db\<rparr>) in
           case step res acc of
             Inl ex \<Rightarrow> Some (Inl ex, pevent Cleared w1)
           | Inr acc' \<Rightarrow> result_loop api step acc' (pevent Cleared w1)))"

definition scalar_step :: "pg_result \<Rightarrow> string \<Rightarrow> err + string" where
  "scalar_step res val =
     Inr (if rs_status res = TuplesOk \<and> rs_ntuples res > 0 \<and> rs_nfields res > 0 then rs_value res 0 0 else val)"

definition query_scalar :: "'db pq_api \<Rightarrow> string \<Rightarrow> ('db, string) pq_op" where
  "query_scalar api sql = pseq (send_and_pump api sql) (\<lambda>_. result_loop api scalar_step [])"

definition nonquery_step :: "pg_result \<Rightarrow> unit \<Rightarrow> err + unit" where
  "nonquery_step res u =
     (if rs_status res \<noteq> CommandOk then Inl (pq_error ''execute_nonquery'' (rs_error res)) else Inr ())"

definition execute_nonquery :: "'db pq_api \<Rightarrow> string \<Rightarrow> ('db, unit) pq_op" where
  "execute_nonquery api sql = pseq (send_and_pump api sql) (\<lambda>_. result_loop api nonquery_step ())"

definition rows_of :: "pg_result \<Rightarrow> string list list" where
  "rows_of res = map (\<lambda>i. map (rs_value res i) [0..<rs_nfields res]) [0..<rs_ntuples res]"

definition rows_step :: "pg_result \<Rightarrow> string list list \<Rightarrow> err + string list list" where
  "rows_step res rows =
     (if rs_status res = TuplesOk then Inr (rows @ rows_of res)
      else if rs_status res \<noteq> CommandOk then Inl (pq_error ''query_rows'' (rs_error res))
      else Inr rows)"

definition query_rows :: "'db pq_api \<Rightarrow> string \<Rightarrow> ('db, string list list) pq_op" where
  "query_rows api sql = pseq (send_and_pump api sql) (\<lambda>_. result_loop api rows_step [])"

text \<open>
  The closure \<open>main\<close> gives to \<open>fiberuv::run\<close>; the statements are arguments, and what it prints is its value. The connection is
  finished at its end, after \<open>stop_loop\<close>, which is only reached when nothing threw.
\<close>

definition print_rows :: "string list list \<Rightarrow> (string \<times> string \<times> string) list" where
  "print_rows rows = map (\<lambda>row. (row ! 0, row ! 1, row ! 2)) (filter (\<lambda>row. length row \<ge> 3) rows)"

fun run_statements :: "'db pq_api \<Rightarrow> string list \<Rightarrow> ('db, unit) pq_op" where
  "run_statements api [] = preturn ()"
| "run_statements api (sql # rest) = pseq (execute_nonquery api sql) (\<lambda>_. run_statements api rest)"

definition session_queries ::
  "'db pq_api \<Rightarrow> string \<Rightarrow> string list \<Rightarrow> string \<Rightarrow> ('db, string \<times> (string \<times> string \<times> string) list) pq_op" where
  "session_queries api version_sql statements rows_sql =
     pseq (query_scalar api version_sql) (\<lambda>version.
     pseq (run_statements api statements) (\<lambda>_.
     pseq (query_rows api rows_sql) (\<lambda>rows. preturn (version, print_rows rows))))"

definition session_body ::
  "'db pq_api \<Rightarrow> string \<Rightarrow> string list \<Rightarrow> string \<Rightarrow> ('db, string \<times> (string \<times> string \<times> string) list) pq_op" where
  "session_body api version_sql statements rows_sql =
     pseq (session_queries api version_sql statements rows_sql) (\<lambda>out w. preturn out (pevent StopLoop w))"

definition session ::
  "'db pq_api \<Rightarrow> string \<Rightarrow> string \<Rightarrow> string list \<Rightarrow> string \<Rightarrow> ('db, string \<times> (string \<times> string \<times> string) list) pq_op" where
  "session api conninfo version_sql statements rows_sql =
     pseq (connect_nonblocking api conninfo) (\<lambda>_. pscope Finished (session_body api version_sql statements rows_sql))"

definition main_conninfo :: string where
  "main_conninfo = ''host=127.0.0.1 port=5432 user=postgres dbname=postgres password=mysecretpassword''"

definition main_session :: "'db pq_api \<Rightarrow> ('db, string \<times> (string \<times> string \<times> string) list) pq_op" where
  "main_session api =
     session api main_conninfo ''select version();''
       [''create table if not exists fiberuv_users (id serial primary key, name text not null, age int not null)'',
        ''truncate table fiberuv_users'',
        ''insert into fiberuv_users(name, age) values ('alice', 18), ('bob', 20), ('carol', 22)'']
       ''select id, name, age from fiberuv_users order by id''"

subsection \<open>Nothing is leaked\<close>

text \<open>Between two events of the connection every result is given back, and only results are handled.\<close>

definition balanced :: "pq_event list \<Rightarrow> bool" where
  "balanced es \<longleftrightarrow> count_list es GotResult = count_list es Cleared \<and> set es \<subseteq> {GotResult, Cleared}"

lemma balanced_simps [simp]: "balanced []" "balanced [GotResult, Cleared]"
  by (simp_all add: balanced_def)

lemma balanced_append: "balanced xs \<Longrightarrow> balanced ys \<Longrightarrow> balanced (xs @ ys)"
  by (simp add: balanced_def)

definition grows :: "'db pq_world \<Rightarrow> (err + 'a) \<times> 'db pq_world \<Rightarrow> bool" where
  "grows w q \<longleftrightarrow> (\<exists>es. pw_events (snd q) = pw_events w @ es \<and> balanced es)"

lemma grows_same: "pw_events w' = pw_events w \<Longrightarrow> grows w (r, w')"
  by (auto simp: grows_def)

lemma grows_db [simp]: "grows w (r, w\<lparr>pw_db := db\<rparr>)" "grows w (r, w)"
  by (simp_all add: grows_same)

lemma grows_result: "pw_events w' = pw_events w @ [GotResult, Cleared] \<Longrightarrow> grows w (r, w')"
  by (auto simp: grows_def)

lemma grows_trans: "grows w (r, w1) \<Longrightarrow> grows w1 q \<Longrightarrow> grows w q"
  unfolding grows_def by (metis append.assoc balanced_append snd_conv)

definition quiet :: "('db, 'a) pq_op \<Rightarrow> bool" where
  "quiet m \<longleftrightarrow> (\<forall>w q. m w = Some q \<longrightarrow> grows w q)"

lemma quietD: "quiet m \<Longrightarrow> m w = Some q \<Longrightarrow> grows w q"
  unfolding quiet_def by blast

lemma quietI: "(\<And>w q. m w = Some q \<Longrightarrow> grows w q) \<Longrightarrow> quiet m"
  unfolding quiet_def by blast

lemma quiet_pseq:
  assumes "quiet m" "\<And>x. quiet (k x)"
  shows "quiet (pseq m k)"
proof (rule quietI)
  fix w q assume "pseq m k w = Some q"
  then obtain r w1 where 1: "m w = Some (r, w1)" and 2: "(case r of Inl ex \<Rightarrow> Some (Inl ex, w1) | Inr x \<Rightarrow> k x w1) = Some q"
    by (auto simp: pseq_def bind_eq_Some_conv)
  have g: "grows w (r, w1)" by (rule quietD [OF assms(1) 1])
  show "grows w q"
  proof (cases r)
    case (Inl ex)
    then show ?thesis using 2 g by (auto simp: grows_def)
  next
    case (Inr x)
    then have "grows w1 q" using 2 quietD [OF assms(2)] by simp
    then show ?thesis by (rule grows_trans [OF g])
  qed
qed

lemma quiet_basic:
  "quiet (preturn x)" "quiet (pthrow ex)" "quiet (pq_fail api loc)" "quiet (pcall f)" "quiet (wait_ready api b fd)"
  by (auto simp: quiet_def preturn_def pthrow_def pq_fail_def pcall_def wait_ready_def intro: grows_same
      split: prod.splits option.splits)

lemma quiet_wait_poll_fd: "quiet (wait_poll_fd api status)"
  using quiet_basic(5) [of api]
  by (cases status) (auto simp: quiet_def wait_poll_fd_def Let_def preturn_def pthrow_def intro: grows_same split: if_splits)

text \<open>A loop that goes on after a wait.\<close>

lemma grows_wait:
  assumes "quiet m" "Option.bind (m w1) (\<lambda>(r, w2). case r of Inl ex \<Rightarrow> Some (Inl ex, w2) | Inr u \<Rightarrow> k w2) = Some q"
    "\<And>w q. k w = Some q \<Longrightarrow> grows w q" "pw_events w1 = pw_events w"
  shows "grows w q"
proof -
  have "quiet k" by (rule quietI) (rule assms(3))
  then have "quiet (pseq m (\<lambda>_. k))" by (intro quiet_pseq assms(1))
  moreover have "pseq m (\<lambda>_. k) w1 = Some q" using assms(2) by (simp add: pseq_def)
  ultimately have "grows w1 q" by (rule quietD)
  then show ?thesis using assms(4) by (simp add: grows_def)
qed

lemma quiet_connect_poll_loop: "quiet (connect_poll_loop api)"
proof -
  have "grows w q" if "connect_poll_loop a w = Some q" for a :: "'a pq_api" and w q
  proof (rule connect_poll_loop.raw_induct [OF _ that])
    fix f :: "'a pq_api \<Rightarrow> 'a pq_world \<Rightarrow> ((err + unit) \<times> 'a pq_world) option" and a w q
    assume IH: "\<And>a w q. f a w = Some q \<Longrightarrow> grows w q"
      and body: "(case pq_connectPoll a (pw_db w) of (status, db) \<Rightarrow>
        (let w1 = w\<lparr>pw_db := db\<rparr> in
         if status = PollingOk then Some (Inr (), w1)
         else if status = PollingFailed then pq_fail a ''PQconnectPoll'' w1
         else Option.bind (wait_poll_fd a status w1) (\<lambda>(r, w2).
           case r of Inl ex \<Rightarrow> Some (Inl ex, w2) | Inr u \<Rightarrow> f a w2))) = Some q"
    obtain status db where c: "pq_connectPoll a (pw_db w) = (status, db)" by (metis surj_pair)
    show "grows w q"
    proof (cases "status = PollingOk \<or> status = PollingFailed")
      case True
      then show ?thesis using body c by (auto simp: pq_fail_def pthrow_def)
    next
      case False
      then show ?thesis using body c grows_wait [OF quiet_wait_poll_fd, of a status "w\<lparr>pw_db := db\<rparr>" "f a" q w] IH by auto
    qed
  qed
  then show ?thesis by (intro quietI)
qed

lemma quiet_pump: "quiet (pump api fd)"
proof -
  have "grows w q" if "pump a d w = Some q" for a :: "'a pq_api" and d w q
  proof (rule pump.raw_induct [OF _ that])
    fix f :: "'a pq_api \<Rightarrow> int \<Rightarrow> 'a pq_world \<Rightarrow> ((err + unit) \<times> 'a pq_world) option" and a d w q
    assume IH: "\<And>a d w q. f a d w = Some q \<Longrightarrow> grows w q"
      and body: "(case pq_flush a (pw_db w) of (flush_status, db) \<Rightarrow>
        (let w1 = w\<lparr>pw_db := db\<rparr> in
         if flush_status = -1 then pq_fail a ''PQflush'' w1
         else if flush_status = 1 then
           Option.bind (wait_ready a True d w1) (\<lambda>(r, w2). case r of Inl ex \<Rightarrow> Some (Inl ex, w2) | Inr u \<Rightarrow> f a d w2)
         else
           (case pq_consumeInput a (pw_db w1) of (consumed, db2) \<Rightarrow>
              (let w2 = w1\<lparr>pw_db := db2\<rparr> in
               if consumed = 0 then pq_fail a ''PQconsumeInput'' w2
               else if \<not> pq_isBusy a (pw_db w2) then Some (Inr (), w2)
               else Option.bind (wait_ready a False d w2) (\<lambda>(r, w3).
                 case r of Inl ex \<Rightarrow> Some (Inl ex, w3) | Inr u \<Rightarrow> f a d w3))))) = Some q"
    obtain fs db where 1: "pq_flush a (pw_db w) = (fs, db)" by (metis surj_pair)
    obtain ci db2 where 2: "pq_consumeInput a db = (ci, db2)" by (metis surj_pair)
    have again: "grows w q" if "Option.bind (wait_ready a b d (w\<lparr>pw_db := x\<rparr>))
        (\<lambda>(r, w2). case r of Inl ex \<Rightarrow> Some (Inl ex, w2) | Inr u \<Rightarrow> f a d w2) = Some q" for b x
      by (rule grows_wait [OF quiet_basic(5) that]) (simp_all add: IH)
    show "grows w q"
      using body 1 2 again [of True db] again [of False db2]
      by (simp add: pq_fail_def pthrow_def Let_def split: if_splits) auto
  qed
  then show ?thesis by (intro quietI)
qed

lemma quiet_result_loop: "quiet (result_loop api step acc)"
proof -
  have "grows w q" if "result_loop a st c w = Some q" for a :: "'a pq_api" and st c w and q :: "(err + 'b) \<times> 'a pq_world"
  proof (rule result_loop.raw_induct [OF _ that])
    fix f :: "'a pq_api \<Rightarrow> (pg_result \<Rightarrow> 'b \<Rightarrow> err + 'b) \<Rightarrow> 'b \<Rightarrow> 'a pq_world \<Rightarrow> ((err + 'b) \<times> 'a pq_world) option" and a st c w q
    assume IH: "\<And>a st c w q. f a st c w = Some q \<Longrightarrow> grows w q"
      and body: "(case pq_getResult a (pw_db w) of (None, db) \<Rightarrow> Some (Inr c, w\<lparr>pw_db := db\<rparr>)
      | (Some res, db) \<Rightarrow>
          (let w1 = pevent GotResult (w\<lparr>pw_db := db\<rparr>) in
           case st res c of Inl ex \<Rightarrow> Some (Inl ex, pevent Cleared w1)
           | Inr acc' \<Rightarrow> f a st acc' (pevent Cleared w1))) = Some q"
    have got: "grows w (r, pevent Cleared (pevent GotResult (w\<lparr>pw_db := db\<rparr>)))" for r :: "err + 'b" and db
      by (rule grows_result) (simp add: pevent_def)
    obtain x db where g: "pq_getResult a (pw_db w) = (x, db)" by (metis surj_pair)
    show "grows w q"
    proof (cases x)
      case (Some res)
      then show ?thesis using body g got grows_trans [OF got IH] by (cases "st res c") (auto simp: Let_def)
    qed (use body g in auto)
  qed
  then show ?thesis by (intro quietI)
qed

lemma quiet_send_and_pump: "quiet (send_and_pump api sql)"
  unfolding send_and_pump_def
proof (rule quiet_pseq [OF quiet_basic(4)], rule quietI)
  fix sent w q
  assume a: "(if sent = 0 then pq_fail api ''PQsendQuery'' w
    else let fd = pq_socket api (pw_db w) in if fd < 0 then pthrow (RuntimeError ''PQsocket returned invalid fd'') w else pump api fd w) = Some q"
  show "grows w q"
    using a quietD [OF quiet_pump, of api "pq_socket api (pw_db w)" w q] by (auto simp: pq_fail_def pthrow_def Let_def split: if_splits)
qed

lemma quiet_queries: "quiet (query_scalar api sql)" "quiet (execute_nonquery api sql)" "quiet (query_rows api sql)"
  by (simp_all add: query_scalar_def execute_nonquery_def query_rows_def quiet_pseq quiet_send_and_pump quiet_result_loop)

lemma quiet_run_statements: "quiet (run_statements api sqls)"
  by (induction sqls) (simp_all add: quiet_basic quiet_pseq quiet_queries)

text \<open>How \<open>connect_nonblocking\<close> leaves the connection: never made, finished, or handed to the caller.\<close>

lemma connect_events:
  assumes "connect_nonblocking api conninfo w = Some (r, w')"
  shows "\<exists>bs. balanced bs \<and> (pw_events w' = pw_events w \<and> isl r \<or>
    pw_events w' = pw_events w @ Connected # bs @ (if isl r then [Finished] else []))"
proof -
  obtain raw db where c: "pq_connectStart api conninfo (pw_db w) = (raw, db)" by (metis surj_pair)
  let ?w = "pevent Connected (w\<lparr>pw_db := db\<rparr>)"
  let ?body = "pseq (pcall (pq_setnonblocking api)) (\<lambda>rc. if rc \<noteq> 0 then pq_fail api ''PQsetnonblocking'' else connect_poll_loop api)"
  show ?thesis
  proof (cases raw)
    case False
    then show ?thesis using assms c by (auto simp: connect_nonblocking_def pseq_def pcall_def pthrow_def intro: exI [of _ "[]"])
  next
    case True
    have "quiet ?body" by (intro quiet_pseq quiet_basic) (simp add: quiet_basic quiet_connect_poll_loop)
    moreover obtain r1 w1 where b: "?body ?w = Some (r1, w1)" "(r, w') = (case r1 of Inl ex \<Rightarrow> (r1, pevent Finished w1) | Inr x \<Rightarrow> (r1, w1))"
      using assms c True by (auto simp: connect_nonblocking_def pseq_def [of "pcall (pq_connectStart api conninfo)"] pcall_def
          finish_on_throw_def)
    ultimately obtain bs where "pw_events w1 = pw_events w @ Connected # bs" "balanced bs"
      using quietD [of ?body ?w "(r1, w1)"] by (auto simp: grows_def pevent_def)
    then show ?thesis using b(2) by (cases r1) (auto simp: pevent_def)
  qed
qed

lemma session_body_events:
  assumes "session_body api version_sql statements rows_sql w = Some (r, w')"
  shows "\<exists>bs. balanced bs \<and> pw_events w' = pw_events w @ bs @ (if isl r then [] else [StopLoop])"
proof -
  let ?body = "session_queries api version_sql statements rows_sql"
  have "quiet ?body" unfolding session_queries_def by (intro quiet_pseq quiet_queries quiet_run_statements quiet_basic)
  moreover obtain r1 w1 where b: "?body w = Some (r1, w1)"
    "(case r1 of Inl ex \<Rightarrow> Some (Inl ex, w1) | Inr x \<Rightarrow> preturn x (pevent StopLoop w1)) = Some (r, w')"
    using assms by (auto simp: session_body_def pseq_def [of ?body] bind_eq_Some_conv)
  ultimately show ?thesis using quietD [of ?body w "(r1, w1)"] by (cases r1) (auto simp: grows_def pevent_def preturn_def)
qed

text \<open>
  C37. However the session of the demonstration ends, it gives back what it took: every result is cleared once, a connection that
  was made is finished exactly once, at the end. The loop is stopped only if nothing threw: after an
  exception \<open>stop_loop\<close> is not called.
\<close>

theorem session_releases:
  assumes "session api conninfo version_sql statements rows_sql w = Some (r, w')"
  shows "\<exists>es. pw_events w' = pw_events w @ es \<and> (es = [] \<and> isl r \<or>
    (\<exists>bs. balanced bs \<and> es = Connected # bs @ (if isl r then [] else [StopLoop]) @ [Finished]))"
proof -
  obtain r1 w1 where 1: "connect_nonblocking api conninfo w = Some (r1, w1)"
    and 2: "(case r1 of Inl ex \<Rightarrow> Some (Inl ex, w1) | Inr x \<Rightarrow> pscope Finished (session_body api version_sql statements rows_sql) w1) = Some (r, w')"
    using assms by (auto simp: session_def pseq_def bind_eq_Some_conv)
  obtain bs where bs: "balanced bs" "pw_events w1 = pw_events w \<and> isl r1 \<or>
      pw_events w1 = pw_events w @ Connected # bs @ (if isl r1 then [Finished] else [])" using connect_events [OF 1] by blast
  show ?thesis
  proof (cases r1)
    case (Inl ex)
    then show ?thesis using 2 bs by auto
  next
    case (Inr x)
    then obtain w2 where "session_body api version_sql statements rows_sql w1 = Some (r, w2)" "w' = pevent Finished w2"
      using 2 by (auto simp: pscope_def)
    then obtain bs' where "balanced bs'" "pw_events w' = pw_events w1 @ bs' @ (if isl r then [] else [StopLoop]) @ [Finished]"
      using session_body_events by (fastforce simp: pevent_def)
    then show ?thesis using bs Inr balanced_append [of bs bs'] by (auto intro!: exI [of _ "bs @ bs'"])
  qed
qed


text \<open>A server that answers every query after one wait; a query for rows gets one row.\<close>

record sim_db =
  sim_results :: "pg_result list"
  sim_busy :: nat

definition ok_result :: "exec_status \<Rightarrow> pg_result" where
  "ok_result status = \<lparr>rs_status = status, rs_ntuples = 1, rs_nfields = 3,
     rs_value = (\<lambda>i j. [''1'', ''alice'', ''18''] ! j), rs_error = None\<rparr>"

definition sim_api :: "(string \<Rightarrow> pg_result list) \<Rightarrow> sim_db pq_api" where
  "sim_api answer = \<lparr>pq_connectStart = (\<lambda>info db. (True, db\<lparr>sim_busy := 1\<rparr>)), pq_setnonblocking = (\<lambda>db. (0, db)),
     pq_connectPoll = (\<lambda>db. (if sim_busy db > 0 then PollingWriting else PollingOk, db)), pq_socket = (\<lambda>db. 5),
     pq_errorMessage = (\<lambda>db. None), pq_sendQuery = (\<lambda>sql db. (1, db\<lparr>sim_results := answer sql, sim_busy := 1\<rparr>)),
     pq_flush = (\<lambda>db. (0, db)), pq_consumeInput = (\<lambda>db. (1, db)), pq_isBusy = (\<lambda>db. sim_busy db > 0),
     pq_getResult = (\<lambda>db. case sim_results db of [] \<Rightarrow> (None, db) | r # rs \<Rightarrow> (Some r, db\<lparr>sim_results := rs\<rparr>)),
     pq_wait = (\<lambda>b fd db. (None, db\<lparr>sim_busy := 0\<rparr>)), pq_yield = (\<lambda>db. db)\<rparr>"

definition sim_answer :: "string \<Rightarrow> pg_result list" where
  "sim_answer sql = [ok_result (if sql = ''rows'' then TuplesOk else CommandOk)]"

definition sim_start :: "sim_db pq_world" where
  "sim_start = \<lparr>pw_db = \<lparr>sim_results = [], sim_busy = 0\<rparr>, pw_events = []\<rparr>"

lemma sim_session:
  "\<exists>w'. session (sim_api sim_answer) ''db'' ''version'' [''create''] ''rows'' sim_start =
     Some (Inr ([], [(''1'', ''alice'', ''18'')]), w')"
  by (simp add: session_def connect_nonblocking_def finish_on_throw_def pscope_def session_body_def session_queries_def
      query_scalar_def execute_nonquery_def query_rows_def send_and_pump_def pseq_def pcall_def pevent_def preturn_def
      connect_poll_loop.simps pump.simps result_loop.simps wait_poll_fd_def wait_ready_def scalar_step_def nonquery_step_def
      rows_step_def rows_of_def print_rows_def sim_api_def sim_answer_def sim_start_def ok_result_def upt_rec)

theorem session_releases_witness:
  "\<exists>w' es. session (sim_api sim_answer) ''db'' ''version'' [''create''] ''rows'' sim_start =
      Some (Inr ([], [(''1'', ''alice'', ''18'')]), w') \<and>
     pw_events w' = Connected # es @ [StopLoop, Finished] \<and> balanced es"
proof -
  obtain w' where w: "session (sim_api sim_answer) ''db'' ''version'' [''create''] ''rows'' sim_start =
      Some (Inr ([], [(''1'', ''alice'', ''18'')]), w')" using sim_session by blast
  from session_releases [OF w] w show ?thesis by (auto simp: sim_start_def)
qed

subsection \<open>What a query returns\<close>

text \<open>\<open>PQgetResult\<close> as documented: the results of the command one after the other, then the null pointer.\<close>

definition results_contract :: "'db pq_api \<Rightarrow> ('db \<Rightarrow> pg_result list) \<Rightarrow> bool" where
  "results_contract api pending \<longleftrightarrow>
     (\<forall>db. case pending db of
        [] \<Rightarrow> fst (pq_getResult api db) = None
      | r # rs \<Rightarrow> fst (pq_getResult api db) = Some r \<and> pending (snd (pq_getResult api db)) = rs)"

fun over_results :: "(pg_result \<Rightarrow> 'a \<Rightarrow> err + 'a) \<Rightarrow> 'a \<Rightarrow> pg_result list \<Rightarrow> err + 'a" where
  "over_results step acc [] = Inr acc"
| "over_results step acc (r # rs) = (case step r acc of Inl ex \<Rightarrow> Inl ex | Inr acc' \<Rightarrow> over_results step acc' rs)"

lemma result_loop_over:
  assumes "results_contract api pending"
  shows "\<exists>w'. result_loop api step acc w = Some (over_results step acc (pending (pw_db w)), w')"
proof (induction "pending (pw_db w)" arbitrary: acc w)
  case Nil
  then have "fst (pq_getResult api (pw_db w)) = None"
    using assms [unfolded results_contract_def, rule_format, of "pw_db w"] by simp
  then show ?case using Nil by (subst result_loop.simps) (cases "pq_getResult api (pw_db w)"; simp)
next
  case (Cons r rs)
  then have p: "pending (pw_db w) = r # rs" by simp
  obtain db where g: "pq_getResult api (pw_db w) = (Some r, db)" "pending db = rs"
    using assms [unfolded results_contract_def, rule_format, of "pw_db w"] p by (cases "pq_getResult api (pw_db w)") simp
  let ?w = "pevent Cleared (pevent GotResult (w\<lparr>pw_db := db\<rparr>))"
  have "\<exists>w'. result_loop api step acc' ?w = Some (over_results step acc' rs, w')" for acc'
    using Cons.hyps(1) [of ?w acc'] g(2) by (simp add: pevent_def)
  then show ?case using g p by (subst result_loop.simps) (simp split: sum.splits)
qed

fun first_bad :: "(exec_status \<Rightarrow> bool) \<Rightarrow> pg_result list \<Rightarrow> pg_result option" where
  "first_bad ok [] = None"
| "first_bad ok (r # rs) = (if ok (rs_status r) then first_bad ok rs else Some r)"

lemma over_rows:
  "over_results rows_step acc rs =
     (case first_bad (\<lambda>st. st \<noteq> OtherStatus) rs of
        Some r \<Rightarrow> Inl (pq_error ''query_rows'' (rs_error r))
      | None \<Rightarrow> Inr (acc @ concat (map rows_of (filter (\<lambda>r. rs_status r = TuplesOk) rs))))"
proof (induction rs arbitrary: acc)
  case (Cons r rs)
  then show ?case by (cases "rs_status r") (auto simp: rows_step_def split: option.splits)
qed simp

lemma over_rows_all:
  "over_results rows_step [] rs =
     (case first_bad (\<lambda>st. st \<noteq> OtherStatus) rs of
        Some r \<Rightarrow> Inl (pq_error ''query_rows'' (rs_error r))
      | None \<Rightarrow> Inr (concat (map rows_of (filter (\<lambda>r. rs_status r = TuplesOk) rs))))"
  by (simp add: over_rows split: option.splits)

lemma over_nonquery:
  "over_results nonquery_step u rs =
     (case first_bad (\<lambda>st. st = CommandOk) rs of Some r \<Rightarrow> Inl (pq_error ''execute_nonquery'' (rs_error r)) | None \<Rightarrow> Inr ())"
  by (induction rs arbitrary: u) (auto simp: nonquery_step_def)

lemma over_scalar: "\<forall>r \<in> set rs. rs_status r \<noteq> TuplesOk \<Longrightarrow> over_results scalar_step val rs = Inr val"
  by (induction rs) (auto simp: scalar_step_def)

text \<open>
  Once the query is sent and answered, \<open>query_rows\<close> returns the rows of all results, in order, or the error of the
  first result that is neither rows nor success; \<open>execute_nonquery\<close> succeeds exactly when every result does, with the
  error of the first that does not. \<open>query_scalar\<close> reports no error of the server at all: a query
  that failed returns the empty string.
\<close>

theorem query_results:
  assumes "results_contract api pending" "send_and_pump api sql w = Some (Inr (), w1)"
  shows "(\<exists>w'. query_rows api sql w =
      Some (case first_bad (\<lambda>st. st \<noteq> OtherStatus) (pending (pw_db w1)) of
          Some r \<Rightarrow> Inl (pq_error ''query_rows'' (rs_error r))
        | None \<Rightarrow> Inr (concat (map rows_of (filter (\<lambda>r. rs_status r = TuplesOk) (pending (pw_db w1))))), w')) \<and>
    (\<exists>w'. execute_nonquery api sql w =
      Some (case first_bad (\<lambda>st. st = CommandOk) (pending (pw_db w1)) of
          Some r \<Rightarrow> Inl (pq_error ''execute_nonquery'' (rs_error r)) | None \<Rightarrow> Inr (), w')) \<and>
    ((\<forall>r \<in> set (pending (pw_db w1)). rs_status r \<noteq> TuplesOk) \<longrightarrow> (\<exists>w'. query_scalar api sql w = Some (Inr [], w')))"
  using result_loop_over [OF assms(1), of rows_step "[]" w1] result_loop_over [OF assms(1), of nonquery_step "()" w1]
    result_loop_over [OF assms(1), of scalar_step "[]" w1] assms(2)
  by (auto simp: query_rows_def execute_nonquery_def query_scalar_def pseq_def over_rows_all
      over_nonquery over_scalar)

definition bad_result :: pg_result where
  "bad_result = (ok_result OtherStatus)\<lparr>rs_error := Some ''syntax error''\<rparr>"

theorem query_results_witness:
  "\<exists>w1 w2. query_rows (sim_api (\<lambda>_. [bad_result])) ''q'' sim_start = Some (Inl (RuntimeError ''query_rows: syntax error''), w1) \<and>
     query_scalar (sim_api (\<lambda>_. [bad_result])) ''q'' sim_start = Some (Inr [], w2)"
proof -
  let ?api = "sim_api (\<lambda>_. [bad_result])"
  have c: "results_contract ?api sim_results" by (simp add: results_contract_def sim_api_def split: list.splits)
  obtain w1 where w1: "send_and_pump ?api ''q'' sim_start = Some (Inr (), w1)" "sim_results (pw_db w1) = [bad_result]"
    by (simp add: send_and_pump_def pseq_def pcall_def pump.simps wait_ready_def sim_api_def sim_start_def)
  show ?thesis using query_results [OF c w1(1)] w1(2) by (auto simp: bad_result_def ok_result_def pq_error_def)
qed

subsection \<open>Queries return\<close>

text \<open>
  The exchange with the server goes forward: a wait that the loop enters leaves less to do than before its turn.
\<close>

definition pq_progress :: "'db pq_api \<Rightarrow> int \<Rightarrow> ('db \<Rightarrow> nat) \<Rightarrow> bool" where
  "pq_progress api fd todo \<longleftrightarrow>
     (\<forall>db. case pq_flush api db of (status, db1) \<Rightarrow>
        (status = 1 \<longrightarrow> todo (snd (pq_wait api True fd db1)) < todo db) \<and>
        (case pq_consumeInput api db1 of (consumed, db2) \<Rightarrow>
           pq_isBusy api db2 \<longrightarrow> todo (snd (pq_wait api False fd db2)) < todo db))"

lemma pump_returns:
  assumes "pq_progress api fd todo"
  shows "pump api fd w \<noteq> None"
proof (induction "todo (pw_db w)" arbitrary: w rule: less_induct)
  case less
  obtain fs db where 1: "pq_flush api (pw_db w) = (fs, db)" by (metis surj_pair)
  obtain ci db2 where 2: "pq_consumeInput api db = (ci, db2)" by (metis surj_pair)
  have again: "Option.bind (wait_ready api b fd (w\<lparr>pw_db := d\<rparr>))
      (\<lambda>(r, w2). case r of Inl ex \<Rightarrow> Some (Inl ex, w2) | Inr u \<Rightarrow> pump api fd w2) \<noteq> None"
    if "todo (snd (pq_wait api b fd d)) < todo (pw_db w)" for b d
  proof -
    obtain e d2 where e: "pq_wait api b fd d = (e, d2)" by (metis surj_pair)
    then have "pump api fd (w\<lparr>pw_db := d2\<rparr>) \<noteq> None" using less [of "w\<lparr>pw_db := d2\<rparr>"] that by simp
    then show ?thesis using e by (cases e) (auto simp: wait_ready_def)
  qed
  have "fs = 1 \<longrightarrow> todo (snd (pq_wait api True fd db)) < todo (pw_db w)"
    "pq_isBusy api db2 \<longrightarrow> todo (snd (pq_wait api False fd db2)) < todo (pw_db w)"
    using assms [unfolded pq_progress_def, rule_format, of "pw_db w"] 1 2 by simp_all
  then show ?case using 1 2 again [of True db] again [of False db2]
    by (subst pump.simps) (simp add: pq_fail_def pthrow_def Let_def)
qed

lemma send_and_pump_returns: "(\<And>fd. pq_progress api fd todo) \<Longrightarrow> send_and_pump api sql w \<noteq> None"
  using pump_returns [of api _ todo]
  by (auto simp: send_and_pump_def pseq_def pcall_def pq_fail_def pthrow_def Let_def split: prod.splits)

lemma query_loop_returns:
  assumes "results_contract api pending" "\<And>fd. pq_progress api fd todo"
  shows "pseq (send_and_pump api sql) (\<lambda>_. result_loop api step acc) w \<noteq> None"
  using send_and_pump_returns [OF assms(2), of sql w] result_loop_over [OF assms(1), of step acc]
  by (fastforce simp: pseq_def split: sum.splits)

text \<open>
  If libpq delivers the results of a query and then the null pointer, and every wait for its descriptor brings the exchange
  forward, then the three query functions and any list of statements return, with a value or an exception.
\<close>

theorem query_returns:
  assumes "results_contract api pending" "\<forall>fd. pq_progress api fd todo"
  shows "query_rows api sql w \<noteq> None \<and> execute_nonquery api sql w \<noteq> None \<and> query_scalar api sql w \<noteq> None \<and>
    run_statements api sqls w \<noteq> None"
proof (intro conjI)
  have n: "execute_nonquery api q v \<noteq> None" for q v unfolding execute_nonquery_def by (rule query_loop_returns) (use assms in auto)
  then show "execute_nonquery api sql w \<noteq> None" .
  show "query_rows api sql w \<noteq> None" unfolding query_rows_def by (rule query_loop_returns) (use assms in auto)
  show "query_scalar api sql w \<noteq> None" unfolding query_scalar_def by (rule query_loop_returns) (use assms in auto)
  show "run_statements api sqls w \<noteq> None"
  proof (induction sqls arbitrary: w)
    case (Cons q qs)
    then show ?case using n [of q w] by (fastforce simp: pseq_def split: sum.splits)
  qed (simp add: preturn_def)
qed

theorem query_returns_witness:
  "pq_progress (sim_api sim_answer) 5 sim_busy \<and> query_rows (sim_api sim_answer) ''rows'' sim_start \<noteq> None"
proof -
  have p: "pq_progress (sim_api sim_answer) fd sim_busy" for fd by (simp add: pq_progress_def sim_api_def)
  have "results_contract (sim_api sim_answer) sim_results" by (simp add: results_contract_def sim_api_def split: list.splits)
  from query_returns [OF this, of sim_busy "''rows''" sim_start "[]"] p show ?thesis by blast
qed

end
