(* ===== verification/Demo_Tasks.thy ===== *)
theory Demo_Tasks
  imports Unified_Socket Ipc_Channel Message_Queue
begin

text \<open>
  The fibers of the demonstration program (src/examples/demo.cpp, demo_network.cpp, demo_ipc.cpp): what
  each does with the members of \<open>io::Socket\<close>, \<open>ProcessChannel\<close> and \<open>MessageQueue\<close>, whatever these answer. Every task runs on the
  thread of the loop. The sockets are the variables \<open>sock_var\<close>; \<open>ds_sent\<close> and \<open>ds_done\<close> record the messages
  sent and the promises set, in order.
\<close>

datatype sock_var = TcpServerVar | UdpServerVar | AcceptedVar | TcpClientVar | UdpClientVar

datatype done_promise = DonePromise | ConsumerDone | TcpServerDone | IpcDone

record 'os demo_state =
  ds_world :: "'os sock_world"
  ds_socks :: "sock_var \<Rightarrow> socket_impl option"
  ds_sent :: "string list"
  ds_done :: "done_promise list"

type_synonym ('os, 'a) task = "('os demo_state, 'a) prog"

definition msg :: "string \<Rightarrow> ('os, unit) task" where
  "msg m s = Some (Inr (), s\<lparr>ds_sent := ds_sent s @ [m]\<rparr>)"

definition set_done :: "done_promise \<Rightarrow> ('os, unit) task" where
  "set_done p s = Some (Inr (), s\<lparr>ds_done := ds_done s @ [p]\<rparr>)"

definition on_var ::
  "sock_var \<Rightarrow> (socket_impl option \<Rightarrow> 'os sock_world \<Rightarrow> ((err + 'a) \<times> socket_impl option \<times> 'os sock_world) option) \<Rightarrow> ('os, 'a) task" where
  "on_var v member s =
     map_option (\<lambda>(r, i, w). (r, s\<lparr>ds_socks := (ds_socks s)(v := i), ds_world := w\<rparr>)) (member (ds_socks s v) (ds_world s))"

text \<open>A socket that lives in a block: initialised at its start, destroyed at its end, also by an exception.\<close>

definition destroy_var :: "'os sock_env \<Rightarrow> sock_var \<Rightarrow> 'os demo_state \<Rightarrow> 'os demo_state" where
  "destroy_var env v s =
     (case ds_socks s v of
        None \<Rightarrow> s
      | Some i \<Rightarrow> (case socket_destroy env (i, ds_world s) of
          (r, waited, i', w) \<Rightarrow> s\<lparr>ds_socks := (ds_socks s)(v := None), ds_world := w\<rparr>))"

definition with_socket :: "'os sock_env \<Rightarrow> sock_var \<Rightarrow> socket_impl \<Rightarrow> ('os, 'a) task \<Rightarrow> ('os, 'a) task" where
  "with_socket env v i body s =
     map_option (\<lambda>(r, s1). (r, destroy_var env v s1)) (body (s\<lparr>ds_socks := (ds_socks s)(v := Some i)\<rparr>))"

text \<open>\<open>Socket::udp\<close> of a loop, which makes a UDP socket at once.\<close>

definition new_udp_socket :: "'os sock_env \<Rightarrow> ('os, socket_impl) task" where
  "new_udp_socket env s =
     (case socket_udp env (ds_world s) of (r, waited, i, w) \<Rightarrow> Some (map_sum id (\<lambda>_. i) r, s\<lparr>ds_world := w\<rparr>))"

definition chars :: "string \<Rightarrow> byte list" where
  "chars = map of_char"

definition two_seconds :: int where
  "two_seconds = 2000"

subsection \<open>The network tasks\<close>

text \<open>The value tells whether the task returned from inside its \<open>try\<close> block.\<close>

definition serve_conn :: "'os sock_env \<Rightarrow> loop_lifetime_token \<Rightarrow> ('os, bool) task" where
  "serve_conn env token =
     pseq (msg ''tcp server accepted'') (\<lambda>_.
     pseq (on_var AcceptedVar (socket_recv_for env True token two_seconds)) (\<lambda>request.
       case request of
         None \<Rightarrow>
           pseq (msg ''tcp server recv timeout'') (\<lambda>_.
           pseq (on_var AcceptedVar (socket_close env True token)) (\<lambda>_.
           pseq (set_done TcpServerDone) (\<lambda>_. preturn True)))
       | Some data \<Rightarrow>
           pseq (msg ''tcp server recv ok'') (\<lambda>_.
           pseq (on_var AcceptedVar (socket_send env True token (chars ''echo: '' @ data))) (\<lambda>_.
           pseq (on_var AcceptedVar (socket_close env True token)) (\<lambda>_.
           pseq (msg ''tcp server replied'') (\<lambda>_. preturn False))))))"

definition serve :: "'os sock_env \<Rightarrow> loop_lifetime_token \<Rightarrow> ('os, bool) task" where
  "serve env token =
     pseq (on_var TcpServerVar (socket_accept_for env True token two_seconds)) (\<lambda>conn.
       case conn of
         None \<Rightarrow>
           pseq (msg ''tcp server accept timeout'') (\<lambda>_.
           pseq (set_done TcpServerDone) (\<lambda>_. preturn True))
       | Some c \<Rightarrow> with_socket env AcceptedVar c (serve_conn env token))"

definition tcp_server_start :: "'os sock_env \<Rightarrow> loop_lifetime_token \<Rightarrow> ('os, unit) task" where
  "tcp_server_start env token =
     pseq (on_var TcpServerVar (socket_bind env True token (''127.0.0.1'', 18080))) (\<lambda>_.
     pseq (on_var TcpServerVar (socket_listen env True token 128)) (\<lambda>_.
       msg ''server ready''))"

definition tcp_server_task :: "'os sock_env \<Rightarrow> loop_lifetime_token \<Rightarrow> ('os, unit) task" where
  "tcp_server_task env token =
     pseq (tcp_server_start env token) (\<lambda>_.
     pseq (pcatch (serve env token) (\<lambda>ex. pseq (msg ''tcp server failed'') (\<lambda>_. preturn False))) (\<lambda>returned.
       if returned then preturn () else set_done TcpServerDone))"

definition udp_server_task :: "'os sock_env \<Rightarrow> loop_lifetime_token \<Rightarrow> ('os, unit) task" where
  "udp_server_task env token =
     pseq (on_var UdpServerVar (socket_bind env True token (''127.0.0.1'', 19090))) (\<lambda>_.
     pseq (msg ''udp server ready'') (\<lambda>_.
     pseq (on_var UdpServerVar (socket_recv_from_for env True token two_seconds)) (\<lambda>request.
       case request of
         None \<Rightarrow> msg ''udp server recv timeout''
       | Some p \<Rightarrow>
           pseq (on_var UdpServerVar (socket_send_to env True token (packet_endpoint p) (chars ''udp echo: '' @ pk_data p))) (\<lambda>_.
             msg ''udp server replied''))))"

definition udp_exchange :: "'os sock_env \<Rightarrow> loop_lifetime_token \<Rightarrow> ('os, unit) task" where
  "udp_exchange env token =
     pseq (on_var UdpClientVar (socket_bind env True token (''127.0.0.1'', 0))) (\<lambda>_.
     pseq (on_var UdpClientVar (socket_send_to env True token (''127.0.0.1'', 19090) (chars ''ping-udp''))) (\<lambda>_.
     pseq (on_var UdpClientVar (socket_recv_from_for env True token two_seconds)) (\<lambda>response.
       case response of
         None \<Rightarrow> pthrow (RuntimeError ''udp client recv timeout'')
       | Some p \<Rightarrow>
           pseq (on_var UdpClientVar (socket_close env True token)) (\<lambda>_. msg ''udp client done''))))"

definition tcp_exchange :: "'os sock_env \<Rightarrow> loop_lifetime_token \<Rightarrow> ('os, unit) task" where
  "tcp_exchange env token =
     pseq (msg ''tcp client connect begin'') (\<lambda>_.
     pseq (on_var TcpClientVar (socket_connect_for env True token (''127.0.0.1'', 18080) two_seconds)) (\<lambda>connected.
       if \<not> connected then pthrow (RuntimeError ''tcp client connect timeout'')
       else
         pseq (msg ''tcp client connect ok'') (\<lambda>_.
         pseq (on_var TcpClientVar (socket_send env True token (chars ''ping''))) (\<lambda>_.
         pseq (msg ''tcp client send ok'') (\<lambda>_.
         pseq (on_var TcpClientVar (socket_recv_for env True token two_seconds)) (\<lambda>response.
           case response of
             None \<Rightarrow> pthrow (RuntimeError ''tcp client recv timeout'')
           | Some data \<Rightarrow>
               pseq (on_var TcpClientVar (socket_close env True token)) (\<lambda>_. msg ''client done'')))))))"

text \<open>The client; \<open>slept\<close> is the outcome of the first \<open>sleep_for\<close>, which is outside the \<open>try\<close> block.\<close>

definition client_task :: "err option \<Rightarrow> 'os sock_env \<Rightarrow> loop_lifetime_token \<Rightarrow> ('os, unit) task" where
  "client_task slept env token =
     pseq (case slept of None \<Rightarrow> preturn () | Some ex \<Rightarrow> pthrow ex) (\<lambda>_.
     pseq (msg ''client task start'') (\<lambda>_.
     pseq (pcatch
         (with_socket env TcpClientVar socket_tcp
           (pseq (tcp_exchange env token) (\<lambda>_.
            pseq (new_udp_socket env) (\<lambda>udp. with_socket env UdpClientVar udp (udp_exchange env token)))))
         (\<lambda>ex. msg ''client failed'')) (\<lambda>_.
       set_done DonePromise)))"

text \<open>
  The end of \<open>main\<close>: \<open>done.get()\<close> and its like, then the periodic task is stopped, the queue and the sockets are closed and the loop is stopped. The
  state is the one at which the other fibers have come to rest: waiting for a promise that is not set by then does not return.
\<close>

definition await :: "done_promise \<Rightarrow> ('os, unit) task" where
  "await p s = (if p \<in> set (ds_done s) then Some (Inr (), s) else None)"

definition main_wait ::
  "'os sock_env \<Rightarrow> loop_lifetime_token \<Rightarrow> ('os, unit) task \<Rightarrow> ('os, unit) task \<Rightarrow> ('os, unit) task \<Rightarrow> ('os, unit) task" where
  "main_wait env token stop_periodic close_messages stop_loop =
     pseq (await DonePromise) (\<lambda>_.
     pseq (await TcpServerDone) (\<lambda>_.
     pseq (await IpcDone) (\<lambda>_.
     pseq stop_periodic (\<lambda>_.
     pseq close_messages (\<lambda>_.
     pseq (await ConsumerDone) (\<lambda>_.
     pseq (on_var UdpServerVar (socket_close env True token)) (\<lambda>_.
     pseq (on_var TcpServerVar (socket_close env True token)) (\<lambda>_.
       stop_loop))))))))"

subsection \<open>The tasks of the pipe and the consumer\<close>

record 'os ipc_state =
  is_os :: 'os
  is_sent :: "string list"
  is_done :: nat

definition ipc_call :: "('os \<Rightarrow> ((err + 'a) \<times> 'os) option) \<Rightarrow> ('os ipc_state, 'a) prog" where
  "ipc_call f s = map_option (\<lambda>(r, os). (r, s\<lparr>is_os := os\<rparr>)) (f (is_os s))"

definition ipc_msg :: "string \<Rightarrow> ('os ipc_state, unit) prog" where
  "ipc_msg m s = Some (Inr (), s\<lparr>is_sent := is_sent s @ [m]\<rparr>)"

text \<open>\<open>payload\<close> is the object representation of the \<open>IpcDemoPayload\<close>.\<close>

definition ipc_sender ::
  "uv_codes \<Rightarrow> 'os ipc_env \<Rightarrow> bool \<Rightarrow> loop_lifetime_token \<Rightarrow> channel \<Rightarrow> byte list \<Rightarrow> ('os ipc_state, unit) prog" where
  "ipc_sender c env little token sender payload =
     pseq (ipc_call (send_typed c env True little token sender payload)) (\<lambda>sent.
       if \<not> sent then ipc_msg ''ipc sender closed''
       else pseq (ipc_call (send_stream c env True little token sender (chars ''ipc-bytes''))) (\<lambda>sent.
         if \<not> sent then ipc_msg ''ipc sender closed'' else ipc_msg ''ipc sender done''))"

definition ipc_receiver ::
  "uv_codes \<Rightarrow> 'os ipc_env \<Rightarrow> bool \<Rightarrow> nat \<Rightarrow> loop_lifetime_token \<Rightarrow> channel \<Rightarrow> nat \<Rightarrow> ('os ipc_state, unit) prog" where
  "ipc_receiver c env little alloc_limit token receiver sizeof_payload =
     pseq (pcatch
       (pseq (ipc_call (recv_typed c env True little alloc_limit token receiver sizeof_payload)) (\<lambda>payload.
        pseq (if payload = None then preturn () else ipc_msg ''ipc recv typed ok'') (\<lambda>_.
        pseq (ipc_call (recv_stream c env True little alloc_limit token receiver)) (\<lambda>stream.
          if stream = None then preturn () else ipc_msg ''ipc recv stream ok''))))
       (\<lambda>ex. ipc_msg ''ipc recv failed'')) (\<lambda>_ s.
     Some (Inr (), s\<lparr>is_done := is_done s + 1\<rparr>))"

text \<open>The consumer prints what \<open>recv_for\<close> gives until the queue is closed; the value is what it printed.\<close>

partial_function (option) consumer_loop ::
  "('v mqueue \<Rightarrow> 'v option \<times> 'v mqueue) \<Rightarrow> 'v list \<Rightarrow> 'v mqueue \<Rightarrow> ('v list \<times> 'v mqueue) option" where
  "consumer_loop recv_for printed q =
     (case recv_for q of
        (None, q1) \<Rightarrow> (if closed q1 then Some (printed, q1) else consumer_loop recv_for printed q1)
      | (Some m, q1) \<Rightarrow> consumer_loop recv_for (printed @ [m]) q1)"

subsection \<open>Promises are set once\<close>

text \<open>A task that returns and sets the promise \<open>n r\<close> times when it ends with \<open>r\<close>.\<close>

definition settles :: "done_promise \<Rightarrow> (err + 'a \<Rightarrow> nat) \<Rightarrow> ('os, 'a) task \<Rightarrow> bool" where
  "settles p n m \<longleftrightarrow>
     (\<forall>s. \<exists>r s'. m s = Some (r, s') \<and> count_list (ds_done s') p = count_list (ds_done s) p + n r)"

named_theorems settling \<open>how often a task sets a promise\<close>

lemma settlesD: "settles p n m \<Longrightarrow> \<exists>r s'. m s = Some (r, s') \<and> count_list (ds_done s') p = count_list (ds_done s) p + n r"
  unfolding settles_def by blast

lemma settles_msg [settling]: "n (Inr ()) = 0 \<Longrightarrow> settles p n (msg m)"
  by (simp add: settles_def msg_def)

lemma settles_preturn [settling]: "n (Inr x) = 0 \<Longrightarrow> settles p n (preturn x)"
  by (simp add: settles_def preturn_def)

lemma settles_pthrow [settling]: "n (Inl ex) = 0 \<Longrightarrow> settles p n (pthrow ex)"
  by (simp add: settles_def pthrow_def)

lemma settles_pseq:
  assumes "settles p (\<lambda>_. 0) m" "\<And>x. settles p n (k x)" "\<And>ex. n (Inl ex) = 0"
  shows "settles p n (pseq m k)"
  unfolding settles_def
proof
  fix s
  obtain r s1 where 1: "m s = Some (r, s1)" "count_list (ds_done s1) p = count_list (ds_done s) p"
    using settlesD [OF assms(1), of s] by auto
  show "\<exists>r s'. pseq m k s = Some (r, s') \<and> count_list (ds_done s') p = count_list (ds_done s) p + n r"
  proof (cases r)
    case (Inl ex)
    then show ?thesis using 1 assms(3) by (simp add: pseq_def)
  next
    case (Inr x)
    then show ?thesis using 1 settlesD [OF assms(2), of x s1] by (simp add: pseq_def)
  qed
qed

lemma settles_then_set: "n (Inr x) = 1 \<Longrightarrow> settles p n (pseq (set_done p) (\<lambda>_. preturn x))"
  by (simp add: settles_def pseq_def set_done_def preturn_def)

lemma settles_on_var:
  assumes "\<And>i w. member i w \<noteq> None"
  shows "settles p (\<lambda>_. 0) (on_var v member)"
  unfolding settles_def
proof
  fix s :: "'a demo_state"
  obtain r i w where "member (ds_socks s v) (ds_world s) = Some (r, i, w)" using assms by (metis not_None_eq prod_cases3)
  then show "\<exists>r s'. on_var v member s = Some (r, s') \<and> count_list (ds_done s') p = count_list (ds_done s) p + 0"
    by (simp add: on_var_def)
qed

lemma on_socket_returns: "on_socket True token body i w \<noteq> None"
  by (cases "is_loop_alive token"; cases i) (simp_all add: on_socket_def ensure_loop_alive_def del: not_None_eq)

lemma socket_close_returns: "socket_close env True token i w \<noteq> None"
  by (simp add: socket_close_def split: option.splits prod.splits)

lemma settles_members [settling]:
  "settles p (\<lambda>_. 0) (on_var v (socket_bind env True token local))"
  "settles p (\<lambda>_. 0) (on_var v (socket_listen env True token backlog))"
  "settles p (\<lambda>_. 0) (on_var v (socket_accept_for env True token timeout))"
  "settles p (\<lambda>_. 0) (on_var v (socket_connect_for env True token remote timeout))"
  "settles p (\<lambda>_. 0) (on_var v (socket_send env True token data))"
  "settles p (\<lambda>_. 0) (on_var v (socket_recv_for env True token timeout))"
  "settles p (\<lambda>_. 0) (on_var v (socket_send_to env True token remote data))"
  "settles p (\<lambda>_. 0) (on_var v (socket_recv_from_for env True token timeout))"
  "settles p (\<lambda>_. 0) (on_var v (socket_close env True token))"
  by (rule settles_on_var, simp add: socket_bind_def socket_listen_def socket_accept_for_def socket_connect_for_def
      socket_send_def socket_recv_for_def socket_send_to_def socket_recv_from_for_def socket_close_returns on_socket_returns)+

lemma settles_new_udp [settling]: "settles p (\<lambda>_. 0) (new_udp_socket env)"
  by (simp add: settles_def new_udp_socket_def split: prod.splits)

lemma destroy_var_done [simp]: "ds_done (destroy_var env v s) = ds_done s"
  by (simp add: destroy_var_def split: option.splits prod.splits)

lemma settles_with_socket:
  assumes "settles p n body"
  shows "settles p n (with_socket env v i body)"
  unfolding settles_def with_socket_def
proof
  fix s
  show "\<exists>r s'. map_option (\<lambda>(r, s1). (r, destroy_var env v s1)) (body (s\<lparr>ds_socks := (ds_socks s)(v := Some i)\<rparr>)) = Some (r, s') \<and>
      count_list (ds_done s') p = count_list (ds_done s) p + n r"
    using settlesD [OF assms, of "s\<lparr>ds_socks := (ds_socks s)(v := Some i)\<rparr>"] by auto
qed

text \<open>How the handler of the server task is entered, and what \<open>serve\<close> has done when it returned early.\<close>

definition early :: "err + bool \<Rightarrow> nat" where
  "early r = (case r of Inl ex \<Rightarrow> 0 | Inr returned \<Rightarrow> if returned then 1 else 0)"

lemma early_simps [simp]: "early (Inl ex) = 0" "early (Inr True) = 1" "early (Inr False) = 0"
  by (simp_all add: early_def)

lemma settles_serve_conn: "settles TcpServerDone early (serve_conn env token)"
  unfolding serve_conn_def
  by (intro settles_pseq settling, simp_all split: option.splits)
    (auto intro!: settles_pseq settles_then_set settling)

lemma settles_serve: "settles TcpServerDone early (serve env token)"
  unfolding serve_def
  by (intro settles_pseq settling, simp_all split: option.splits)
    (auto intro!: settles_pseq settles_then_set settles_with_socket settles_serve_conn settling)

lemma settles_start: "settles p (\<lambda>_. 0) (tcp_server_start env token)"
  unfolding tcp_server_start_def by (intro settles_pseq settling) simp_all

lemma settles_guarded_serve:
  "settles TcpServerDone early (pcatch (serve env token) (\<lambda>ex. pseq (msg ''tcp server failed'') (\<lambda>_. preturn False)))"
  unfolding settles_def
proof
  fix s
  obtain r s1 where "serve env token s = Some (r, s1)" "count_list (ds_done s1) TcpServerDone = count_list (ds_done s) TcpServerDone + early r"
    using settlesD [OF settles_serve] by blast
  then show "\<exists>r s'. pcatch (serve env token) (\<lambda>ex. pseq (msg ''tcp server failed'') (\<lambda>_. preturn False)) s = Some (r, s') \<and>
      count_list (ds_done s') TcpServerDone = count_list (ds_done s) TcpServerDone + early r"
    by (cases r) (simp_all add: pcatch_def pseq_def msg_def preturn_def)
qed

lemma settles_exchange: "settles p (\<lambda>_. 0) (tcp_exchange env token)" "settles p (\<lambda>_. 0) (udp_exchange env token)"
  unfolding tcp_exchange_def udp_exchange_def
  by (intro settles_pseq settling, auto intro!: settles_pseq settling split: option.splits)+

lemma client_body_settles:
  "settles p (\<lambda>_. 0) (with_socket env TcpClientVar socket_tcp (pseq (tcp_exchange env token) (\<lambda>_.
     pseq (new_udp_socket env) (\<lambda>udp. with_socket env UdpClientVar udp (udp_exchange env token)))))"
  by (intro settles_with_socket settles_pseq settles_exchange settles_new_udp refl)

lemma client_task_settles:
  "\<exists>r s'. client_task slept env token s = Some (r, s') \<and> (isl r \<longleftrightarrow> slept \<noteq> None) \<and>
     count_list (ds_done s') p = count_list (ds_done s) p + (if slept = None \<and> p = DonePromise then 1 else 0)"
proof (cases slept)
  case None
  let ?body = "with_socket env TcpClientVar socket_tcp (pseq (tcp_exchange env token) (\<lambda>_.
     pseq (new_udp_socket env) (\<lambda>udp. with_socket env UdpClientVar udp (udp_exchange env token))))"
  let ?s = "s\<lparr>ds_sent := ds_sent s @ [''client task start'']\<rparr>"
  obtain r s1 where "?body ?s = Some (r, s1)" "count_list (ds_done s1) p = count_list (ds_done s) p"
    using settlesD [OF client_body_settles, of env token ?s p] by auto
  then show ?thesis using None
    by (cases r) (simp_all add: client_task_def pseq_def [of "preturn ()"] pseq_def [of "msg ''client task start''"]
        pseq_def [of "pcatch ?body h" for h] pcatch_def preturn_def msg_def set_done_def)
qed (simp add: client_task_def pseq_def pthrow_def)

lemma server_task_settles:
  "\<exists>r s'. tcp_server_task env token s = Some (r, s') \<and>
     count_list (ds_done s') TcpServerDone = count_list (ds_done s) TcpServerDone + (if isl r then 0 else 1) \<and>
     (isl r \<longleftrightarrow> (\<exists>ex s1. tcp_server_start env token s = Some (Inl ex, s1)))"
proof -
  obtain r1 s1 where 1: "tcp_server_start env token s = Some (r1, s1)"
    "count_list (ds_done s1) TcpServerDone = count_list (ds_done s) TcpServerDone" using settlesD [OF settles_start] by fastforce
  let ?serve = "pcatch (serve env token) (\<lambda>ex. pseq (msg ''tcp server failed'') (\<lambda>_. preturn False))"
  obtain r2 s2 where 2: "?serve s1 = Some (r2, s2)"
    "count_list (ds_done s2) TcpServerDone = count_list (ds_done s1) TcpServerDone + early r2"
    using settlesD [OF settles_guarded_serve] by blast
  obtain r3 s3 where "serve env token s1 = Some (r3, s3)" using settlesD [OF settles_serve] by blast
  then have "\<not> isl r2" using 2(1) by (cases r3) (auto simp: pcatch_def pseq_def msg_def preturn_def)
  then show ?thesis using 1 2
    by (cases r1; cases r2) (auto simp: tcp_server_task_def pseq_def [of "tcp_server_start env token"] pseq_def [of ?serve]
        preturn_def set_done_def early_def)
qed

text \<open>The server task sets no other promise.\<close>

lemma server_keeps:
  assumes "p \<noteq> TcpServerDone"
  shows "preserves (\<lambda>s. count_list (ds_done s) p) (msg m)" "preserves (\<lambda>s. count_list (ds_done s) p) (set_done TcpServerDone)"
    "preserves (\<lambda>s. count_list (ds_done s) p) (on_var v member)"
    "preserves (\<lambda>s. count_list (ds_done s) p) body \<Longrightarrow> preserves (\<lambda>s. count_list (ds_done s) p) (with_socket env v i body)"
  using assms by (auto simp: preserves_def msg_def set_done_def on_var_def with_socket_def)

lemma server_task_other:
  assumes "tcp_server_task env token s = Some (r, s')" "p \<noteq> TcpServerDone"
  shows "count_list (ds_done s') p = count_list (ds_done s) p"
proof -
  note keeps = server_keeps [OF assms(2)]
  have conn: "preserves (\<lambda>s. count_list (ds_done s) p) (serve_conn env token)"
    unfolding serve_conn_def
    by (intro preserves_pseq keeps) (auto intro!: preserves_pseq preserves_basic keeps split: option.split)
  have "preserves (\<lambda>s. count_list (ds_done s) p) (tcp_server_task env token)"
    unfolding tcp_server_task_def tcp_server_start_def serve_def
    by (intro preserves_pseq preserves_pcatch keeps preserves_basic)
      (auto intro!: preserves_pseq preserves_basic keeps conn split: option.split)
  from preservesD [OF this assms(1)] show ?thesis .
qed

text \<open>
  C38. Whatever the sockets answer to the calls of the two tasks (values, time-outs or exceptions; a call is taken to come back): the server task sets its promise exactly once
  when \<open>bind\<close> and \<open>listen\<close> succeed, however the exchange with the client ends, and never when one of them throws, which is outside its \<open>try\<close> block and the only way
  an exception leaves the task. The client task sets its own exactly once when its first \<open>sleep_for\<close> returns, whatever fails after it, and never when that throws, which is the
  only way an exception leaves it. Neither sets the promise of the other.
\<close>

theorem demo_promises:
  "(\<exists>r s'. tcp_server_task env token s = Some (r, s') \<and>
     (isl r \<longleftrightarrow> (\<exists>ex s1. tcp_server_start env token s = Some (Inl ex, s1))) \<and>
     count_list (ds_done s') TcpServerDone = count_list (ds_done s) TcpServerDone + (if isl r then 0 else 1) \<and>
     count_list (ds_done s') DonePromise = count_list (ds_done s) DonePromise) \<and>
   (\<exists>r s'. client_task slept env token s = Some (r, s') \<and> (isl r \<longleftrightarrow> slept \<noteq> None) \<and>
     count_list (ds_done s') DonePromise = count_list (ds_done s) DonePromise + (if slept = None then 1 else 0) \<and>
     count_list (ds_done s') TcpServerDone = count_list (ds_done s) TcpServerDone)"
proof
  show "\<exists>r s'. tcp_server_task env token s = Some (r, s') \<and>
     (isl r \<longleftrightarrow> (\<exists>ex s1. tcp_server_start env token s = Some (Inl ex, s1))) \<and>
     count_list (ds_done s') TcpServerDone = count_list (ds_done s) TcpServerDone + (if isl r then 0 else 1) \<and>
     count_list (ds_done s') DonePromise = count_list (ds_done s) DonePromise"
    using server_task_settles [of env token s] server_task_other [of env token s] by fastforce
  show "\<exists>r s'. client_task slept env token s = Some (r, s') \<and> (isl r \<longleftrightarrow> slept \<noteq> None) \<and>
     count_list (ds_done s') DonePromise = count_list (ds_done s) DonePromise + (if slept = None then 1 else 0) \<and>
     count_list (ds_done s') TcpServerDone = count_list (ds_done s) TcpServerDone"
    using client_task_settles [of slept env token s DonePromise] client_task_settles [of slept env token s TcpServerDone] by fastforce
qed

text \<open>After a server that failed to start, the end of \<open>main\<close> does not get to stopping the loop.\<close>

lemma main_stuck:
  assumes "tcp_server_task env token s = Some (Inl ex, s')" "client_task slept env token s' = Some (r, s2)" "TcpServerDone \<notin> set (ds_done s)"
  shows "main_wait env2 token stop_periodic close_messages stop_loop s2 = None"
proof -
  have "TcpServerDone \<notin> set (ds_done s')" using server_task_settles [of env token s] assms(1,3) by (auto simp: count_list_0_iff [symmetric])
  then have "TcpServerDone \<notin> set (ds_done s2)"
    using client_task_settles [of slept env token s' TcpServerDone] assms(2) by (auto simp: count_list_0_iff [symmetric])
  then show ?thesis by (auto simp: main_wait_def pseq_def await_def)
qed

text \<open>Components that answer every call, except that the port is taken.\<close>

definition port_taken :: "unit sock_env" where
  "port_taken = \<lparr>se_call = (\<lambda>call os. (case call of
       NewServer \<Rightarrow> Inr (Object 0) | ServerListen n host port backlog \<Rightarrow> Inl (UvError ''uv_tcp_bind'' (-98)) | _ \<Rightarrow> Inr Unit, False, os))\<rparr>"

definition demo_start :: "unit demo_state" where
  "demo_start = \<lparr>ds_world = \<lparr>sw_os = (), sw_calls = []\<rparr>, ds_socks = (\<lambda>v. if v = TcpServerVar then Some socket_tcp else None),
     ds_sent = [], ds_done = []\<rparr>"

lemma port_taken_start:
  "\<exists>s1. tcp_server_start port_taken (Some True) demo_start = Some (Inl (UvError ''uv_tcp_bind'' (-98)), s1)"
  by (simp add: tcp_server_start_def pseq_def on_var_def socket_bind_def socket_listen_def on_socket_def ensure_loop_alive_def
      socket_bodies ccall_def port_taken_def demo_start_def socket_tcp_def new_socket_def)

lemma port_taken_stuck:
  "\<exists>ex s' r s2. tcp_server_task port_taken (Some True) demo_start = Some (Inl ex, s') \<and>
     client_task None port_taken (Some True) s' = Some (r, s2) \<and>
     main_wait port_taken (Some True) (msg ''stopped'') (msg ''closed'') (msg ''loop stopped'') s2 = None"
proof -
  obtain ex s1 where s: "tcp_server_task port_taken (Some True) demo_start = Some (Inl ex, s1)"
    using port_taken_start by (auto simp: tcp_server_task_def pseq_def [of "tcp_server_start port_taken (Some True)"])
  moreover obtain r s2 where c: "client_task None port_taken (Some True) s1 = Some (r, s2)"
    using client_task_settles [of None port_taken "Some True" s1] by blast
  moreover have "TcpServerDone \<notin> set (ds_done demo_start)" by (simp add: demo_start_def)
  ultimately show ?thesis using main_stuck by blast
qed

subsection \<open>The pipe and the consumer\<close>

text \<open>
  On a pipe the two messages of the sender arrive, the typed payload and the stream, however the transfers are split, and the
  receiver sets its promise once.
\<close>

theorem demo_ipc_delivers:
  assumes "ipc_writer c wenv (pch_write_fd tx) sent wbudget" "ipc_reader c renv (pch_read_fd rx) coming hung_up rbudget"
    and "channel_usable token tx" "channel_usable token rx"
    and "length payload < 2 ^ 64" "length payload \<le> alloc_limit" "9 \<le> alloc_limit"
  shows "\<exists>s1 bs. ipc_sender c wenv little token tx payload s = Some (Inr (), s1) \<and>
    is_sent s1 = is_sent s @ [''ipc sender done''] \<and> sent (is_os s1) = sent (is_os s) @ bs \<and>
    (\<forall>u rest. coming (is_os u) = bs @ rest \<longrightarrow>
      (\<exists>u1. ipc_receiver c renv little alloc_limit token rx (length payload) u = Some (Inr (), u1) \<and>
        is_sent u1 = is_sent u @ [''ipc recv typed ok'', ''ipc recv stream ok''] \<and> is_done u1 = is_done u + 1))"
proof -
  let ?bytes = "chars ''ipc-bytes''"
  have len: "length ?bytes < 2 ^ 64" "length ?bytes \<le> alloc_limit" using assms(7) by (simp_all add: chars_def)
  note send = ipc_writer.send_blob_complete [OF assms(1,3) refl]
  note recv = ipc_reader.recv_blob_complete [OF assms(2,4) refl]
  note defs = ipc_call_def ipc_msg_def pseq_def pcatch_def send_typed_def recv_typed_def send_stream_def recv_stream_def
  obtain os1 where 1: "send_blob c wenv True little token tx payload (is_os s) = Some (Inr True, os1)"
    "sent os1 = sent (is_os s) @ frame_of little payload" using send [OF assms(5)] by blast
  obtain os2 where 2: "send_blob c wenv True little token tx ?bytes os1 = Some (Inr True, os2)"
    "sent os2 = sent os1 @ frame_of little ?bytes" using send [OF len(1)] by blast
  have "\<exists>u1. ipc_receiver c renv little alloc_limit token rx (length payload) u = Some (Inr (), u1) \<and>
      is_sent u1 = is_sent u @ [''ipc recv typed ok'', ''ipc recv stream ok''] \<and> is_done u1 = is_done u + 1"
    if u: "coming (is_os u) = (frame_of little payload @ frame_of little ?bytes) @ rest" for u rest
  proof -
    obtain os3 where 3: "recv_blob c renv True little alloc_limit token rx (is_os u) = Some (Inr (Some payload), os3)"
      "coming os3 = frame_of little ?bytes @ rest" using recv [OF assms(5,6), of "is_os u" little] u by auto
    obtain os4 where "recv_blob c renv True little alloc_limit token rx os3 = Some (Inr (Some ?bytes), os4)"
      using recv [OF len 3(2)] by blast
    then show ?thesis using 3(1) by (simp add: ipc_receiver_def defs)
  qed
  moreover have "\<exists>s1. ipc_sender c wenv little token tx payload s = Some (Inr (), s1) \<and>
      is_sent s1 = is_sent s @ [''ipc sender done''] \<and>
      sent (is_os s1) = sent (is_os s) @ (frame_of little payload @ frame_of little ?bytes)"
    using 1 2 by (simp add: ipc_sender_def defs)
  ultimately show ?thesis by blast
qed

definition demo_ipc :: "pipe_os \<Rightarrow> pipe_os ipc_state" where
  "demo_ipc os = \<lparr>is_os = os, is_sent = [], is_done = 0\<rparr>"

theorem demo_ipc_delivers_witness:
  "\<exists>s1. ipc_sender linux_codes (pipe_env linux_codes 2 1) True (Some True) demo_tx [7, 0] (demo_ipc demo_writer) = Some (Inr (), s1) \<and>
    (\<exists>u1. ipc_receiver linux_codes (pipe_env linux_codes 2 1) True 100 (Some True) demo_rx 2
        (demo_ipc (demo_reader (po_sent (is_os s1)) True)) = Some (Inr (), u1) \<and> is_done u1 = 1)"
proof -
  obtain s1 bs where 1: "ipc_sender linux_codes (pipe_env linux_codes 2 1) True (Some True) demo_tx [7, 0] (demo_ipc demo_writer) =
      Some (Inr (), s1)" "po_sent (is_os s1) = po_sent (is_os (demo_ipc demo_writer)) @ bs"
    "\<forall>u rest. po_coming (is_os u) = bs @ rest \<longrightarrow>
      (\<exists>u1. ipc_receiver linux_codes (pipe_env linux_codes 2 1) True 100 (Some True) demo_rx (length [7 :: byte, 0]) u = Some (Inr (), u1) \<and>
        is_sent u1 = is_sent u @ [''ipc recv typed ok'', ''ipc recv stream ok''] \<and> is_done u1 = is_done u + 1)"
    using demo_ipc_delivers [OF bounded_pipe_laws demo_usable, of "[7, 0]" 100] by fastforce
  from 1(3) [rule_format, of "demo_ipc (demo_reader bs True)" "[]"] 1(1,2) show ?thesis by (auto simp: demo_ipc_def numeral_2_eq_2)
qed

text \<open>Whatever the pipe does, a receiver whose calls return sets its promise exactly once and throws nothing.\<close>

lemma receiver_settles:
  assumes "ipc_receiver c env little alloc_limit token rx n s = Some (r, s')"
  shows "r = Inr () \<and> is_done s' = is_done s + 1"
proof -
  let ?handler = "\<lambda>ex :: err. ipc_msg ''ipc recv failed''"
  let ?body = "pseq (ipc_call (recv_typed c env True little alloc_limit token rx n)) (\<lambda>payload.
        pseq (if payload = None then preturn () else ipc_msg ''ipc recv typed ok'') (\<lambda>_.
        pseq (ipc_call (recv_stream c env True little alloc_limit token rx)) (\<lambda>stream.
          if stream = None then preturn () else ipc_msg ''ipc recv stream ok'')))"
  have calls: "preserves is_done (ipc_call f)" "preserves is_done (ipc_msg m)" for f :: "'a \<Rightarrow> ((err + byte list option) \<times> 'a) option" and m
    by (auto simp: preserves_def ipc_call_def ipc_msg_def)
  have k: "preserves is_done (pcatch ?body ?handler)" by (intro preserves_pcatch preserves_pseq calls) (auto intro: calls)
  obtain r1 s1 where 1: "pcatch ?body ?handler s = Some (r1, s1)"
    and 2: "(case r1 of Inl ex \<Rightarrow> Some (Inl ex, s1) | Inr u \<Rightarrow> Some (Inr (), s1\<lparr>is_done := Suc (is_done s1)\<rparr>)) = Some (r, s')"
    using assms by (auto simp: ipc_receiver_def pseq_def [of "pcatch ?body ?handler"] bind_eq_Some_conv)
  have "\<not> isl r1" by (rule pcatch_no_throw [OF 1]) (auto simp: ipc_msg_def)
  then show ?thesis using 2 preservesD [OF k 1] by (cases r1) auto
qed

text \<open>A consumer that finds the queue closed prints everything still queued, in order, and ends.\<close>

lemma consumer_drains:
  assumes "\<And>q. closed q \<Longrightarrow> recv_for q = (case recv p q of (Return m, q1) \<Rightarrow> (m, q1) | (_, q1) \<Rightarrow> (None, q1))" "closed q"
  shows "consumer_loop recv_for printed q = Some (printed @ mq_queue q, q\<lparr>mq_queue := []\<rparr>)"
  using assms(2)
proof (induction "mq_queue q" arbitrary: printed q)
  case Nil
  then show ?case using assms(1) [of q] by (subst consumer_loop.simps) (simp add: mq_defs)
next
  case (Cons x xs)
  have "recv_for q = (Some x, q\<lparr>mq_queue := xs\<rparr>)"
    using assms(1) [OF Cons.prems] by (simp add: mq_defs Cons.hyps(2) [symmetric])
  then show ?case using Cons.hyps(1) [of "q\<lparr>mq_queue := xs\<rparr>"] Cons.prems
    by (subst consumer_loop.simps) (simp add: closed_def Cons.hyps(2) [symmetric])
qed

end
