(* ===== verification/Demo_File.thy ===== *)
theory Demo_File
  imports Unified_File "HOL-Library.Sublist"
begin

text \<open>
  The file task of the demonstration program (src/examples/demo_file.cpp) over the model of \<open>io::File\<close>: it writes a file at
  two offsets and through the cursor, and reads the pieces back. The directory operations act on the
  same system. \<open>File\<close> has no destructor, so that an exception closes nothing.
\<close>

definition on_file ::
  "(file_impl option \<Rightarrow> 'os fs_world \<Rightarrow> ((err + 'a) \<times> file_impl option \<times> 'os fs_world) option) \<Rightarrow> file_impl option \<Rightarrow>
   ('os fs_world, 'a \<times> file_impl option) prog" where
  "on_file member impl w = map_option (\<lambda>(r, impl', w1). (map_sum id (\<lambda>x. (x, impl')) r, w1)) (member impl w)"

definition on_dir :: "('os \<Rightarrow> ((err + 'a) \<times> 'os) option) \<Rightarrow> ('os fs_world, 'a) prog" where
  "on_dir member w = map_option (\<lambda>(r, os). (r, w\<lparr>w_os := os\<rparr>)) (member (w_os w))"

definition seek_file :: "loop_lifetime_token \<Rightarrow> nat \<Rightarrow> file_impl option \<Rightarrow> 'os fs_world \<Rightarrow>
   ((err + unit) \<times> file_impl option \<times> 'os fs_world) option" where
  "seek_file token offset impl w = (case seek token offset impl of (r, impl') \<Rightarrow> Some (r, impl', w))"

definition ascii :: "string \<Rightarrow> byte list" where
  "ascii = map of_char"

definition write_pieces :: "'os fs_env \<Rightarrow> loop_lifetime_token \<Rightarrow> string \<Rightarrow> ('os fs_world, unit) prog" where
  "write_pieces env token path =
     pseq (open_write env True path False True True) (\<lambda>f.
     pseq (write_at env True token (ascii ''offset-A'') 0 (Some f)) (\<lambda>_.
     pseq (write_at env True token (ascii ''offset-B'') 20 (Some f)) (\<lambda>_.
     pseq (on_file (seek_file token 8) (Some f)) (\<lambda>(_, writer).
     pseq (on_file (write_some env True token (ascii ''stream-part'')) writer) (\<lambda>(_, writer).
     pseq (on_file (file_close env True token) writer) (\<lambda>_. preturn ()))))))"

definition read_pieces ::
  "'os fs_env \<Rightarrow> loop_lifetime_token \<Rightarrow> string \<Rightarrow> ('os fs_world, byte list \<times> byte list \<times> byte list) prog" where
  "read_pieces env token path =
     pseq (open_read env True path) (\<lambda>f.
     pseq (read_at env True token 8 0 (Some f)) (\<lambda>head.
     pseq (read_at env True token 8 20 (Some f)) (\<lambda>offset.
     pseq (on_file (seek_file token 8) (Some f)) (\<lambda>(_, reader).
     pseq (on_file (read_some env True token 11) reader) (\<lambda>(stream, reader).
     pseq (on_file (file_close env True token) reader) (\<lambda>_. preturn (head, offset, stream)))))))"

definition file_ops ::
  "uv_codes \<Rightarrow> 'os fs_env \<Rightarrow> 'os dir_env \<Rightarrow> loop_lifetime_token \<Rightarrow> ('os fs_world, byte list \<times> byte list \<times> byte list) prog" where
  "file_ops c env denv token =
     pseq (on_dir (create_directory c denv True ''fiberuv_tmp'' 493)) (\<lambda>_.
     pseq (create_file env True ''fiberuv_tmp/demo.bin'' True) (\<lambda>_.
     pseq (write_pieces env token ''fiberuv_tmp/demo.bin'') (\<lambda>_.
     pseq (read_pieces env token ''fiberuv_tmp/demo.bin'') (\<lambda>out.
     pseq (on_dir (remove_file c denv True ''fiberuv_tmp/demo.bin'')) (\<lambda>_.
     pseq (on_dir (remove_directory c denv True ''fiberuv_tmp'')) (\<lambda>_. preturn out))))))"

definition demo_content :: "byte list" where
  "demo_content = ascii ''offset-A'' @ ascii ''stream-part'' @ [0] @ ascii ''offset-B''"

subsection \<open>On a regular file\<close>

context regular_file
begin

lemma fs_open_ok:
  obtains fd w' where "fs_open env path flags mode w = (Inr fd, True, w')" "0 \<le> fd" "refers (w_os w') fd (access_of flags)"
    "content (w_os w') = (if UV_FS_O_TRUNC \<in> set flags then [] else content (w_os w))"
proof -
  let ?req = "FsOpen path flags mode"
  obtain rc w1 where i: "issue env ?req w = (rc, w1)" "0 \<le> rc" "content (w_os w1) = content (w_os w)" by (rule issue_ok)
  obtain r bs w2 where c: "complete env ?req w1 = ((r, bs), w2)" "fs_finish env ?req (w_os w1) = ((r, bs), w_os w2)"
    by (rule complete_finish)
  show thesis using open_law [OF c(2)] i c(1) by (intro that [of r w2]) (simp_all add: fs_open_def Let_def)
qed

lemma fs_close_ok:
  assumes "refers (w_os w) fd a"
  obtains w' where "fs_close env fd w = (Inr (), True, w')" "content (w_os w') = content (w_os w)"
proof -
  obtain rc w1 where i: "issue env (FsClose fd) w = (rc, w1)" "0 \<le> rc" "content (w_os w1) = content (w_os w)"
    "refers (w_os w1) = refers (w_os w)" by (rule issue_ok)
  obtain r bs w2 where c: "complete env (FsClose fd) w1 = ((r, bs), w2)" "fs_finish env (FsClose fd) (w_os w1) = ((r, bs), w_os w2)"
    by (rule complete_finish)
  show thesis using close_law [OF _ c(2), of a] assms i c(1) by (intro that [of w2]) (simp_all add: fs_close_def Let_def)
qed

lemma file_close_ok:
  assumes "refers (w_os w) (uf_fd f) a" "0 \<le> uf_fd f" "\<not> uf_closed f" "is_loop_alive token"
  obtains f' w' where "file_close env True token (Some f) w = Some (Inr (), Some f', w')" "content (w_os w') = content (w_os w)"
proof -
  obtain w' where "fs_close env (uf_fd f) w = (Inr (), True, w')" "content (w_os w') = content (w_os w)"
    using fs_close_ok [OF assms(1)] by blast
  then show thesis using assms(2-)
    by (intro that [of "f\<lparr>uf_fd := -1, uf_closed := True\<rparr>" w']) (simp_all add: file_close_def file_close_closure_def)
qed

lemma create_file_ok: "\<exists>w'. create_file env True path True w = Some (Inr True, w') \<and> content (w_os w') = []"
proof -
  let ?flags = "[UV_FS_O_WRONLY, UV_FS_O_CREAT, UV_FS_O_TRUNC]"
  obtain fd w1 where o: "fs_open env path ?flags 420 w = (Inr fd, True, w1)" "refers (w_os w1) fd ForWriting" "content (w_os w1) = []"
    by (rule fs_open_ok [of ?flags 420 w]) (auto simp: access_of_def)
  obtain w2 where "fs_close env fd w1 = (Inr (), True, w2)" "content (w_os w2) = []" using fs_close_ok [OF o(2)] o(3) by metis
  then show ?thesis using o by (simp add: create_file_def create_file_closure_def)
qed

lemma write_at_ok:
  assumes "refers (w_os w) (uf_fd f) ForWriting" "is_loop_alive token" "\<not> uf_closed f" "length data < 2 ^ 32" "off + length data < 2 ^ 63"
  obtains w' where "write_at env True token data off (Some f) w = Some (Inr (length data), w')"
    "refers (w_os w') = refers (w_os w)" "content (w_os w') = splice off data (content (w_os w))"
  using fs_write_at_ok [OF assms(1,4,5)] assms(2,3) that by (auto simp: write_at_def)

lemma read_at_ok:
  assumes "refers (w_os w) (uf_fd f) ForReading" "is_loop_alive token" "\<not> uf_closed f" "0 < sz" "sz < 2 ^ 32" "off < length (content (w_os w))" "off < 2 ^ 63"
  obtains out w' where "read_at env True token sz off (Some f) w = Some (Inr out, w')" "refers (w_os w') = refers (w_os w)"
    "content (w_os w') = content (w_os w)" "out \<noteq> []" "prefix out (take sz (drop off (content (w_os w))))"
proof -
  obtain out w' where r: "fs_read_at env (uf_fd f) sz off w = (Inr out, True, w')" "refers (w_os w') = refers (w_os w)"
    "content (w_os w') = content (w_os w)" "out = take (length out) (drop off (content (w_os w)))" "length out \<le> sz"
    "out = [] \<longleftrightarrow> length (content (w_os w)) \<le> off" using fs_read_at_ok [OF assms(1,4,5,7)] by metis
  have "prefix out (take sz (drop off (content (w_os w))))" using r(4,5) by (metis min.absorb1 take_is_prefix take_take)
  moreover have "read_at env True token sz off (Some f) w = Some (Inr out, w')" using r(1) assms(2,3) by (simp add: read_at_def)
  moreover have "out \<noteq> []" using r(6) assms(6) by simp
  ultimately show thesis using that r(2,3) by blast
qed

lemma write_pieces_ok:
  assumes "is_loop_alive token"
  shows "\<exists>w'. write_pieces env token path w = Some (Inr (), w') \<and> content (w_os w') = demo_content"
proof -
  let ?flags = "open_write_flags False True True"
  obtain fd w1 where o: "fs_open env path ?flags 420 w = (Inr fd, True, w1)" "0 \<le> fd" "refers (w_os w1) fd ForWriting" "content (w_os w1) = []"
    by (rule fs_open_ok [of ?flags 420 w]) (auto simp: open_write_flags_def access_of_def)
  let ?f = "\<lparr>uf_fd = fd, uf_cursor = 0, uf_closed = False\<rparr>"
  obtain w2 where 2: "write_at env True token (ascii ''offset-A'') 0 (Some ?f) w1 = Some (Inr (length (ascii ''offset-A'')), w2)"
    "refers (w_os w2) = refers (w_os w1)" "content (w_os w2) = splice 0 (ascii ''offset-A'') []"
    using write_at_ok [of w1 ?f token "ascii ''offset-A''" 0] o(3,4) assms by (auto simp: ascii_def)
  obtain w3 where 3: "write_at env True token (ascii ''offset-B'') 20 (Some ?f) w2 = Some (Inr (length (ascii ''offset-B'')), w3)"
    "refers (w_os w3) = refers (w_os w1)" "content (w_os w3) = splice 20 (ascii ''offset-B'') (splice 0 (ascii ''offset-A'') [])"
    using write_at_ok [of w2 ?f token "ascii ''offset-B''" 20] o(3) 2(2,3) assms by (auto simp: ascii_def)
  let ?g = "?f\<lparr>uf_cursor := 8\<rparr>" and ?data = "ascii ''stream-part''"
  obtain w4 where 4: "write_some env True token ?data (Some ?g) w3 = Some (Inr (length ?data), Some (?g\<lparr>uf_cursor := 8 + length ?data\<rparr>), w4)"
    "refers (w_os w4) = refers (w_os w1)" "content (w_os w4) = splice 8 ?data (content (w_os w3))"
    using write_some_refines [of w3 ?g token ?data] o(3) 3(2) assms by (auto simp: ascii_def)
  let ?h = "?g\<lparr>uf_cursor := 8 + length ?data\<rparr>"
  obtain f' w5 where 5: "file_close env True token (Some ?h) w4 = Some (Inr (), Some f', w5)" "content (w_os w5) = content (w_os w4)"
    using file_close_ok [of w4 ?h ForWriting token] o(2,3) 4(2) assms by auto
  have "splice 8 ?data (splice 20 (ascii ''offset-B'') (splice 0 (ascii ''offset-A'') [])) = demo_content"
    by (simp add: splice_def demo_content_def ascii_def eval_nat_numeral)
  then show ?thesis using o(1) 2(1) 3(1,3) 4(1,3) 5 assms
    by (simp add: write_pieces_def open_write_def file_open_def pseq_def on_file_def seek_file_def seek_def preturn_def)
qed

lemma read_pieces_ok:
  assumes "is_loop_alive token" "content (w_os w) = demo_content"
  shows "\<exists>head offset stream w'. read_pieces env token path w = Some (Inr (head, offset, stream), w') \<and>
    head \<noteq> [] \<and> prefix head (ascii ''offset-A'') \<and> offset \<noteq> [] \<and> prefix offset (ascii ''offset-B'') \<and>
    stream \<noteq> [] \<and> prefix stream (ascii ''stream-part'')"
proof -
  have len: "length demo_content = 28" by (simp add: demo_content_def ascii_def)
  have pieces: "take 8 (drop 0 demo_content) = ascii ''offset-A''" "take 8 (drop 20 demo_content) = ascii ''offset-B''"
    "take 11 (drop 8 demo_content) = ascii ''stream-part''" by (simp_all add: demo_content_def ascii_def)
  obtain fd w1 where o: "fs_open env path [UV_FS_O_RDONLY] 0 w = (Inr fd, True, w1)" "0 \<le> fd" "refers (w_os w1) fd ForReading"
    "content (w_os w1) = demo_content" by (rule fs_open_ok [of "[UV_FS_O_RDONLY]" 0 w]) (auto simp: assms(2) access_of_def)
  let ?f = "\<lparr>uf_fd = fd, uf_cursor = 0, uf_closed = False\<rparr>"
  obtain head w2 where 2: "read_at env True token 8 0 (Some ?f) w1 = Some (Inr head, w2)" "refers (w_os w2) = refers (w_os w1)"
    "content (w_os w2) = demo_content" "head \<noteq> []" "prefix head (ascii ''offset-A'')"
    using read_at_ok [of w1 ?f token 8 0] o(3,4) assms(1) len pieces(1) by auto
  obtain offset w3 where 3: "read_at env True token 8 20 (Some ?f) w2 = Some (Inr offset, w3)" "refers (w_os w3) = refers (w_os w1)"
    "content (w_os w3) = demo_content" "offset \<noteq> []" "prefix offset (ascii ''offset-B'')"
    using read_at_ok [of w2 ?f token 8 20] o(3) 2(2,3) assms(1) len pieces(2) by auto
  let ?g = "?f\<lparr>uf_cursor := 8\<rparr>"
  obtain stream w4 where 4: "read_at env True token 11 8 (Some ?g) w3 = Some (Inr stream, w4)" "refers (w_os w4) = refers (w_os w1)"
    "content (w_os w4) = demo_content" "stream \<noteq> []" "prefix stream (ascii ''stream-part'')"
    using read_at_ok [of w3 ?g token 11 8] o(3) 3(2,3) assms(1) len pieces(3) by auto
  let ?h = "advance (length stream) ?g"
  have "refers (w_os w4) (uf_fd ?h) ForReading" "0 \<le> uf_fd ?h" "\<not> uf_closed ?h" using o(2,3) 4(2) by (simp_all add: advance_def)
  then obtain f' w5 where "file_close env True token (Some ?h) w4 = Some (Inr (), Some f', w5)"
    using file_close_ok [of w4 ?h ForReading token] assms(1) by blast
  then show ?thesis using o(1) 2(1,4,5) 3(1,4,5) 4(1,4,5) assms(1)
    by (simp add: read_pieces_def open_read_def file_open_def pseq_def on_file_def seek_file_def seek_def preturn_def
        read_some_def some_begin_def read_some_end_def)
qed

end

text \<open>The requests on directories and names succeed.\<close>

definition directories_ok :: "'os dir_env \<Rightarrow> bool" where
  "directories_ok denv \<longleftrightarrow> (\<forall>req os. 0 \<le> fst (dir_start denv req os) \<and> 0 \<le> fst (dir_finish denv req os))"

lemma dir_call_ok:
  assumes "directories_ok denv"
  shows "\<exists>os'. invoke_on_loop True (raw_to_bool name benign (fs_raw denv req_name req)) os = Some (Inr True, os')"
  using assms unfolding directories_ok_def
  by (simp add: raw_to_bool_def fs_raw_def split: prod.splits) (metis fst_conv linorder_not_less)

lemmas dir_defs = on_dir_def create_directory_def remove_directory_def remove_file_def fs_mkdir_raw_def fs_rmdir_raw_def fs_unlink_raw_def

text \<open>
  The file task of the demonstration returns, on any regular file, however reads and writes are split: the pieces written at two
  offsets and through the cursor do not damage each other, and each read returns a non-empty beginning of its piece.
\<close>

theorem demo_file_reads_back:
  assumes "regular_file env ''fiberuv_tmp/demo.bin'' content refers" "directories_ok denv" "is_loop_alive token"
  shows "\<exists>head offset stream w'. file_ops c env denv token w = Some (Inr (head, offset, stream), w') \<and>
    head \<noteq> [] \<and> prefix head (ascii ''offset-A'') \<and> offset \<noteq> [] \<and> prefix offset (ascii ''offset-B'') \<and>
    stream \<noteq> [] \<and> prefix stream (ascii ''stream-part'')"
proof -
  note dir = dir_call_ok [OF assms(2)]
  obtain os1 where 1: "on_dir (create_directory c denv True ''fiberuv_tmp'' 493) w = Some (Inr True, w\<lparr>w_os := os1\<rparr>)"
    using dir by (fastforce simp: dir_defs simp del: invoke_on_loop_same)
  obtain w2 where 2: "create_file env True ''fiberuv_tmp/demo.bin'' True (w\<lparr>w_os := os1\<rparr>) = Some (Inr True, w2)"
    using regular_file.create_file_ok [OF assms(1)] by blast
  obtain w3 where 3: "write_pieces env token ''fiberuv_tmp/demo.bin'' w2 = Some (Inr (), w3)" "content (w_os w3) = demo_content"
    using regular_file.write_pieces_ok [OF assms(1,3)] by blast
  obtain head offset stream w4 where 4: "read_pieces env token ''fiberuv_tmp/demo.bin'' w3 = Some (Inr (head, offset, stream), w4)"
    "head \<noteq> []" "prefix head (ascii ''offset-A'')" "offset \<noteq> []" "prefix offset (ascii ''offset-B'')"
    "stream \<noteq> []" "prefix stream (ascii ''stream-part'')"
    using regular_file.read_pieces_ok [OF assms(1,3) 3(2)] by blast
  obtain os5 where 5: "on_dir (remove_file c denv True ''fiberuv_tmp/demo.bin'') w4 = Some (Inr True, w4\<lparr>w_os := os5\<rparr>)"
    using dir by (fastforce simp: dir_defs simp del: invoke_on_loop_same)
  obtain os6 where 6: "on_dir (remove_directory c denv True ''fiberuv_tmp'') (w4\<lparr>w_os := os5\<rparr>) = Some (Inr True, w4\<lparr>w_os := os6\<rparr>)"
    using dir by (fastforce simp: dir_defs simp del: invoke_on_loop_same)
  show ?thesis using 1 2 3(1) 4 5 6 by (simp add: file_ops_def pseq_def preturn_def)
qed

definition calm_dirs :: "byte list dir_env" where
  "calm_dirs = \<lparr>dir_start = (\<lambda>req os. (0, os)), dir_finish = (\<lambda>req os. (0, os))\<rparr>"

theorem demo_file_reads_back_witness:
  "\<exists>head offset stream w'. file_ops linux_codes (mem_fs 3) calm_dirs (Some True) \<lparr>w_os = [], w_log = []\<rparr> =
      Some (Inr (head, offset, stream), w') \<and> head \<noteq> [] \<and> prefix head (ascii ''offset-A'')"
  using demo_file_reads_back [OF mem_fs_law [of 3], of calm_dirs "Some True" linux_codes "\<lparr>w_os = [], w_log = []\<rparr>"]
  by (fastforce simp: directories_ok_def calm_dirs_def)

text \<open>
  \<open>File\<close> has no destructor: when a write fails, the task throws and the descriptor it opened is never given to \<open>uv_fs_close\<close>.
\<close>

lemma write_failure_leaks:
  "\<exists>w'. write_pieces broken_fs (Some True) path \<lparr>w_os = (), w_log = []\<rparr> = Some (Inl (uv_error ''uv_fs_write'' (-5)), w') \<and>
     Finished (FsOpen path (open_write_flags False True True) 420) 3 \<in> set (w_log w') \<and>
     (\<forall>fd r. Started (FsClose fd) r \<notin> set (w_log w'))"
  by (simp add: write_pieces_def open_write_def file_open_def fs_open_def write_at_def fs_write_at_def on_fs_write.simps pseq_def
      issue_def complete_def broken_fs_def ascii_def Let_def)

end
