(* ===== verification/Spec2Isabelle.thy ===== *)
theory Spec2Isabelle
  imports Message_Queue_Sched Ipc_Channel File_Io Tcp_Client Tcp_Server Udp_Socket Event_Loop Blocking_Pool
    Loop_Fibers Task_Scope Scope_Loop Poll_Wait Timers Unified_File Socket_Components Ipc_Types Tcp_Stream
    Overloads Libpq_Demo Demo_Tasks Demo_File
begin

text \<open>
  Fiberuv is a C++ library of cooperative I/O: user code runs in fibers of Boost.Fiber on the thread of
  an \<open>EventLoop\<close>, calls that look blocking start a libuv request, suspend the fiber on a fiber promise, and
  are resumed by the libuv callback that sets the promise. This development models the library,
  src/include/fiberuv/fiberuv.hpp and the files of src/src, and the programs of src/examples that use it.

  \<^bold>\<open>The parts of the program and the theories that model them.\<close>

  \<^item> \<open>Prelude\<close>: exceptions, promises as lists of settings, the lifetime token of a loop, \<open>invoke_on_loop\<close> (which
    runs a closure on the thread of the loop), programs that may throw or not return (\<open>prog\<close>), and the conversion of
    durations, in 64 bits. \<open>Overloads\<close>: the overloads of the header for any duration and for the current loop.
  \<^item> \<open>Event_Loop\<close> (event_loop.cpp, class \<open>EventLoop\<close>): the task queue, whose tasks may throw, \<open>run\<close>, \<open>stop\<close>, \<open>spawn\<close>,
    unhandled exceptions, the handles of the loop, constructor and destructor, and \<open>fiberuv::run\<close> with the closure it dispatches, which spawns its function (\<open>loop_closure\<close>). \<open>Loop_Fibers\<close>: which fiber
    runs what on the thread of the loop. \<open>Blocking_Pool\<close>: \<open>run_blocking\<close> and the worker threads, as a step relation; the
    closure a job posts carries the value or the exception of its task.
  \<^item> \<open>Timers\<close> (event_loop.cpp): \<open>sleep_for\<close>, \<open>every\<close>, \<open>PeriodicTask\<close>.
  \<^item> \<open>Message_Queue\<close>, \<open>Message_Queue_Sched\<close> (fiberuv.hpp, \<open>MessageQueue\<close>): the critical sections of the queue, then the
    interleavings of any number of callers as a step relation.
  \<^item> \<open>Task_Scope\<close> (fiberuv.hpp, \<open>TaskScope\<close>): structured concurrency, \<open>join\<close> as a whole over the states its predicate is tested in, and the waiting of
    \<open>join\<close> as a step relation. \<open>Scope_Loop\<close>: a scope together
    with the event loop whose fibers its tasks are.
  \<^item> \<open>Tcp_Connection\<close>, \<open>Tcp_Client\<close>, \<open>Tcp_Server\<close> (tcp.cpp) and \<open>Udp_Socket\<close> (udp.cpp): records with the fields of the C++
    state objects, one function per callback and member, and the histories or reachable states they have. \<open>Tcp_Stream\<close>: two
    connections, the write queue of libuv and the wire between them, with the bytes a close or a reset loses.
  \<^item> \<open>File_Io\<close> (file_io.cpp): the callback chains of \<open>read_file\<close> and \<open>write_file\<close>.
  \<^item> \<open>Unified_File\<close>, \<open>Unified_Socket\<close>, \<open>Poll_Wait\<close> (io_unified.cpp): \<open>io::File\<close> and the directory operations, \<open>io::Socket\<close>, the
    waits for a descriptor.
  \<^item> \<open>Ipc_Channel\<close> (ipc.cpp): framing of blobs over a pipe, ownership of its descriptors. \<open>Ipc_Types\<close> (fiberuv.hpp): the concepts
    that decide which types may be sent.
  \<^item> \<open>Socket_Components\<close>: \<open>io::Socket\<close> of \<open>Unified_Socket\<close> over the models of the UDP sockets, connections and servers it
    holds, and the events that reach them between its members; the first theorem below uses it to say that \<open>Socket::close\<close> shuts down what any history of the socket left open.
  \<^item> \<open>Libpq_Demo\<close> (examples/libpq_fd_demo.cpp), \<open>Demo_Tasks\<close> (examples/demo.cpp, demo_network.cpp, demo_ipc.cpp) and \<open>Demo_File\<close>
    (examples/demo_file.cpp): the example programs, over the models of the library they call; libpq is a record of functions.

  \<^bold>\<open>How state and effects correspond.\<close> A C++ state object is a record with its fields, a \<open>shared_ptr\<close> to it an
  \<open>option\<close>. Facts that libuv keeps of a handle and that decide what it does later (reading, closing) are extra
  fields, named as such. A handler returns the new state and the list of its effects in order: promises
  set, handles given to \<open>uv_close\<close>. A function that suspends its caller is split at the suspension: the part
  up to \<open>future.get()\<close>, the callback, and the part after it. Exceptions are values of \<open>err\<close>.
  Everything outside src, that is libuv, Boost.Fiber and the operating system, is a parameter: return codes
  are arguments, the file system and the pipe are records of functions, and what the library
  relies on of them is the assumptions of a locale or a named predicate.

  \<^bold>\<open>The interfaces.\<close> \<open>handoff\<close> (theory \<open>Handoff\<close>) is the contract of everything that hands values to waiting
  callers: queued values and waiting callers never coexist, values come out in the order they
  went in, and every caller is served once, withdraws, or waits. It is interpreted by the message queue, the
  reads of a connection, the accepts of a server and the receives of a UDP socket. \<open>closable\<close> (theory \<open>Closable\<close>)
  is the contract of closing: every promise set once, \<open>uv_close\<close> called at most once; interpreted by TCP
  and UDP. \<open>lifecycle\<close> (theory \<open>Lifecycle\<close>) says that the phases open, closing, closed are only passed forwards; interpreted by
  connections, servers and UDP sockets, and used by the second theorem below. \<open>fiber_promise\<close> and \<open>mq_futures\<close> state what is used of fiber promises, \<open>fs_chain\<close> what the two chains of
  \<open>File_Io\<close> share, \<open>regular_file\<close> what a file system does for a regular file, by how the
  descriptor was opened (\<open>access\<close>), \<open>ipc_writer\<close> and \<open>ipc_reader\<close> what the two ends of a pipe do: a call waits while the pipe is full or empty, and
  the end of the stream is reported only when the writing ends are closed. A pipe of any capacity is an instance of both.

  \<^bold>\<open>What the lemmas show.\<close> For each component: no promise is set twice and no caller is forgotten, under
  every order of calls, callbacks and time-outs; data arrives complete and in order; objects are
  deleted when and only when no callback can reach them; close releases everything once; error
  paths report the first failure. Blobs sent over a pipe are received unchanged, and the end of the stream is reported when the writing ends are closed. Files are read and
  written completely for every way the system splits the transfers, and \<open>io::File\<close> refines an abstract file
  of a content and a position, also for writes beyond the end. Two connected sockets are a byte pipe, which loses
  bytes only when it breaks or a close cancels writes. Blocking jobs all come
  to their end. The examples give back what they take, and where one of them would wait for ever this is proved too.

  \<^bold>\<open>Loops.\<close> Loops that need not end are \<open>partial_function (option)\<close>: \<open>run_fs\<close>, \<open>on_fs_write\<close>, \<open>write_exact\<close>,
  \<open>read_exact\<close>, \<open>drain_loop_tasks\<close>, \<open>run\<close>, and in the examples \<open>connect_poll_loop\<close>, \<open>pump\<close>, \<open>result_loop\<close> and \<open>consumer_loop\<close>. For
  each transfer loop a theorem says that it returns when the system makes progress. No fuel is used. Sizes cast to 32 bits,
  offsets cast to 64 bits, the frame header of the pipe and the counts of durations are kept at their widths.

  \<^bold>\<open>What is not modelled.\<close> Declarations without a body have no behaviour of their own. Memory reclamation is modelled where the code decides it
  (deleted requests, \<open>keepalive\<close>), not as an allocator. A member of \<open>io::Socket\<close> runs to its end before the
  next starts; overlap is modelled for the components below it and for \<open>File::read_some\<close>. The
  condition variables of the worker pool are taken as their predicates. What the examples print is not modelled, nor
  are the tasks of demo_blocking.cpp and demo_startup.cpp, which only send fixed messages.
\<close>

section \<open>Properties that span components\<close>

text \<open>
  C33. Take a socket as \<open>Socket::tcp\<close> or \<open>Socket::udp\<close> makes it, and any history of its member functions and of events of its
  components (data, packets and connections that arrive, callers that are suspended on them or time out, closed handles). If it is then
  not closed, \<open>close\<close> on the thread of the loop returns, once libuv has called back for the handles it waits for, the socket holds nothing, and the components it held when \<open>close\<close>
  was called are shut down: the UDP socket and the connection are closed with no caller left suspended on them, the server is closing, with no
  waiting accept and no connection queued.
\<close>

theorem socket_close_shuts_components:
  assumes "made nw (i0, w0)" "(net_step nw)\<^sup>*\<^sup>* (i0, w0) (i, w)" "\<not> sk_closed i" "is_loop_alive token"
  shows "\<exists>w'. socket_close (net_env nw) True token (Some i) w = Some (Inr (), Some (shut_down i), w') \<and> all_shut i (sw_os w')"
proof -
  from close_body_ok [OF net_closes_ok assms(3)] obtain waited w'
    where c: "close_body (net_env nw) (i, w) = (Inr (), waited, shut_down i, w')" by blast
  from net_close_all_shut [OF assms(3) net_history_holds [OF assms(2) made_holds [OF assms(1)]] c]
  show ?thesis using assms(4) c by (simp add: socket_close_def)
qed

text \<open>
  A network where every call succeeds and every name resolves to one address, in which more data arrives while a connection is being closed; and a
  TCP socket with a connection, on which a reader waits, and a server, on which an accept waits.
\<close>

definition calm_world :: net_world where
  "calm_world = \<lparr>nw_remote = (\<lambda>_. Inr Unit), nw_rc = (\<lambda>_ _. 0), nw_resolve = (\<lambda>_ _. Some (SockIn [127, 0, 0, 1] 80)),
     nw_codes = linux_codes, nw_names = plain_names, nw_little = True, nw_conn_events = (\<lambda>_. [OpRead True 7 0, OpData 1 [3]]),
     nw_udp_events = (\<lambda>_. [])\<rparr>"

definition empty_net :: "net sock_world" where
  "empty_net = \<lparr>sw_os = \<lparr>nt_udps = Map.empty, nt_conns = Map.empty, nt_servers = Map.empty, nt_next = 0\<rparr>, sw_calls = []\<rparr>"

definition busy_socket :: "socket_impl \<times> net sock_world" where
  "busy_socket = fold (socket_do (net_env calm_world)) [SConnect (''h'', 80), SBind (''h'', 81), SListen 8] (socket_tcp, empty_net)"

definition waiting_net :: "net sock_world" where
  "waiting_net = at_net (\<lambda>n. n\<lparr>nt_servers := (nt_servers n)(1 \<mapsto> listening_server\<lparr>sv_waiters := [6]\<rparr>)\<rparr>)
     (at_net (\<lambda>n. n\<lparr>nt_conns := update_at 0 (conn_event linux_codes (OpRead True 5 0)) (nt_conns n)\<rparr>) (snd busy_socket))"

lemma busy_socket_parts:
  "sk_conn (fst busy_socket) = Some 0" "sk_server (fst busy_socket) = Some 1" "\<not> sk_closed (fst busy_socket)"
  "nt_conns (sw_os (snd busy_socket)) 0 = Some fresh_connection" "nt_servers (sw_os (snd busy_socket)) 1 = Some listening_server"
  by (simp_all add: busy_socket_def calm_world_def empty_net_def net_env_def socket_bodies ccall_def socket_tcp_def new_socket_def
      net_connect_def create_connection_def fresh_connection_def Tcp_Server.listen_def server_init_def listening_server_def ensure_loop_alive_def)

lemma busy_socket_reached: "(net_step calm_world)\<^sup>*\<^sup>* (socket_tcp, empty_net) (fst busy_socket, waiting_net)"
proof -
  let ?step = "socket_do (net_env calm_world)"
  have m: "net_step calm_world s (?step a s)" for a s by (rule a_member)
  have "(net_step calm_world)\<^sup>*\<^sup>* (socket_tcp, empty_net) busy_socket"
    unfolding busy_socket_def by (simp del: socket_do.simps) (meson m converse_rtranclp_into_rtranclp r_into_rtranclp)
  also have "net_step calm_world busy_socket (fst busy_socket,
      at_net (\<lambda>n. n\<lparr>nt_conns := update_at 0 (conn_event linux_codes (OpRead True 5 0)) (nt_conns n)\<rparr>) (snd busy_socket))"
    using a_conn_event [of calm_world "fst busy_socket" "snd busy_socket" 0 "OpRead True 5 0"] by (simp add: calm_world_def)
  also have "net_step calm_world \<dots> (fst busy_socket, waiting_net)"
    unfolding waiting_net_def
  proof (rule a_server_event)
    show "server_moves listening_server (listening_server\<lparr>sv_waiters := [6]\<rparr>)"
      by (rule move_accept [of "Some True" 6 _ "Await 6"])
        (simp add: accept_def listening_server_def server_init_def ensure_loop_alive_def)
  qed (use busy_socket_parts(5) in \<open>simp add: at_net_def\<close>)
  finally show ?thesis .
qed

theorem socket_close_shuts_components_witness:
  "\<exists>w'. socket_close (net_env calm_world) True (Some True) (Some (fst busy_socket)) waiting_net =
     Some (Inr (), Some (shut_down (fst busy_socket)), w') \<and> sk_conn (fst busy_socket) = Some 0 \<and> sk_server (fst busy_socket) = Some 1 \<and>
   map_option cs_pending_read (nt_conns (sw_os waiting_net) 0) = Some (Some 5) \<and>
   map_option sv_waiters (nt_servers (sw_os waiting_net) 1) = Some [6] \<and> all_shut (fst busy_socket) (sw_os w')"
proof -
  have "made calm_world (socket_tcp, empty_net)" by (simp add: made_def)
  from socket_close_shuts_components [OF this busy_socket_reached busy_socket_parts(3), of "Some True"]
  show ?thesis
    by (simp add: busy_socket_parts waiting_net_def at_net_def update_at_def conn_event_def fresh_connection_def connection_read_def
        ensure_loop_alive_def)
qed

text \<open>
  C34. A connection, a UDP socket and a server never go back from closing to open or from closed to closing, whatever
  is called on them and whatever libuv reports. Once a connection or UDP socket is closed, reads, writes and receives on
  it throw and change nothing, at any later time; once a server is closing, every accept throws.
\<close>

theorem closed_is_final:
  assumes "conn_moves\<^sup>*\<^sup>* c c'" "udp_moves\<^sup>*\<^sup>* u u'" "server_moves\<^sup>*\<^sup>* s s'"
  shows "conn_phase c \<le> conn_phase c' \<and> udp_phase u \<le> udp_phase u' \<and> server_phase s \<le> server_phase s' \<and>
    (conn_phase c = Closed \<longrightarrow>
       connection_read token p rc (Some c') = (Throw (RuntimeError ''connection is closed''), Some c') \<and>
       connection_write token p rc payload (Some c') = (Throw (RuntimeError ''connection is closed''), None)) \<and>
    (udp_phase u = Closed \<longrightarrow>
       recv_from token p rc (Some u') = (Throw (RuntimeError ''invalid udp socket''), Some u')) \<and>
    (sv_closing s \<longrightarrow> (\<exists>ex. accept token p (Some s') = (Throw ex, Some s')))"
  using conn_life.never_back [OF assms(1)] udp_life.never_back [OF assms(2)] server_life.never_back [OF assms(3)]
    conn_life.closed_stays [OF assms(1)] udp_life.closed_stays [OF assms(2)]
    accept_closing [OF server_moves_closing [OF assms(3)]]
  by (simp add: conn_phase_def udp_phase_def connection_read_def connection_write_def recv_from_def udp_usable_def)

text \<open>
  A connection closed by its owner and by libuv, then read; a UDP socket closed the same way; a server told to close whose
  handle libuv then reports as closed.
\<close>

definition shut_connection :: connection_state where
  "shut_connection = fst (on_connection_closed (the (fst (start_close (Some True) None (Some fresh_connection)))))"

definition shut_udp :: udp_state where
  "shut_udp = fst (on_udp_closed (the (fst (start_udp_close (Some True) None (Some fresh_udp)))))"

definition closing_server :: server_impl where
  "closing_server = fst (begin_close (Some True) (server_init\<lparr>sv_initialized := True, sv_listening := True\<rparr>))"

lemmas shut_defs = shut_connection_def shut_udp_def closing_server_def fresh_connection_def fresh_udp_def server_init_def
  on_connection_closed_def start_close_def settle_closed_def push_close_waiter_def on_udp_closed_def start_udp_close_def
  settle_udp_closed_def fail_pending_recv_def finish_recv_error_def begin_close_def fail_accept_waiters_def

lemma closing_server_moves: "server_moves\<^sup>*\<^sup>* closing_server (fst (on_server_closed closing_server))"
  by (rule r_into_rtranclp, rule move_closed, rule prod.collapse [symmetric])

theorem closed_is_final_witness:
  "conn_phase shut_connection = Closed \<and> udp_phase shut_udp = Closed \<and> server_phase closing_server = Closing \<and>
   connection_write (Some True) 0 0 [1] (Some shut_connection) = (Throw (RuntimeError ''connection is closed''), None) \<and>
   recv_from (Some True) 0 0 (Some shut_udp) = (Throw (RuntimeError ''invalid udp socket''), Some shut_udp) \<and>
   (\<exists>ex. accept (Some True) 0 (Some (fst (on_server_closed closing_server))) =
     (Throw ex, Some (fst (on_server_closed closing_server))))"
proof -
  have "conn_phase shut_connection = Closed" "udp_phase shut_udp = Closed" "server_phase closing_server = Closing"
    "sv_closing closing_server"
    by (simp_all add: conn_phase_def udp_phase_def server_phase_def shut_defs)
  then show ?thesis
    using closed_is_final [OF rtranclp.rtrancl_refl rtranclp.rtrancl_refl closing_server_moves,
        of shut_connection shut_udp "Some True" 0 0 "[1]"]
    by blast
qed

end
